(* ===== verification/Prelude.thy ===== *)
theory Prelude
  imports Main "HOL-Library.Word" "HOL-Library.Monad_Syntax"
begin

text \<open>
  Shared vocabulary of the BirdOS development: the C integer types of
  \<^verbatim>\<open>kernel/include/types.h\<close> as words, C's 32-bit \<^verbatim>\<open>int\<close> as a mathematical
  integer with the two's-complement wrap-around written out, the constants of
  \<^verbatim>\<open>param.h\<close>, \<^verbatim>\<open>riscv.h\<close> and \<^verbatim>\<open>memlayout.h\<close>, and the generic lemmas
  that several components use.

  A kernel function that can call \<^verbatim>\<open>panic\<close> returns an \<open>option\<close>: \<open>None\<close> is the
  panic (the kernel prints and spins forever, so there is no later state).
\<close>

unbundle bit_operations_syntax

named_theorems c_int_simps \<open>rewrite rules for C integer arithmetic\<close>
named_theorems word_bounds \<open>bounds on words read as natural numbers\<close>

type_synonym u8 = "8 word"
type_synonym u16 = "16 word"
type_synonym u32 = "32 word"
type_synonym u64 = "64 word"

section \<open>C integers\<close>

text \<open>A C \<^verbatim>\<open>int\<close> is an \<^typ>\<open>int\<close>; every arithmetic result is wrapped to 32 bits.\<close>

definition wrap32 :: "int \<Rightarrow> int" where
  "wrap32 x = signed_take_bit 31 x"

definition is_int32 :: "int \<Rightarrow> bool" where
  "is_int32 x \<longleftrightarrow> - 2147483648 \<le> x \<and> x < 2147483648"

definition c_div :: "int \<Rightarrow> int \<Rightarrow> int" where
  "c_div a b = (if (a < 0) = (b < 0) then \<bar>a\<bar> div \<bar>b\<bar> else - (\<bar>a\<bar> div \<bar>b\<bar>))"

lemma wrap32_id [simp, c_int_simps]: "is_int32 x \<Longrightarrow> wrap32 x = x"
  by (simp add: wrap32_def is_int32_def signed_take_bit_int_eq_self)

lemma is_int32_wrap32 [simp, intro]: "is_int32 (wrap32 x)"
  using signed_take_bit_int_greater_eq_minus_exp [of 31 x]
    signed_take_bit_int_less_exp [of 31 x]
  by (simp add: wrap32_def is_int32_def)

lemma c_div_nonneg [c_int_simps]: "0 \<le> a \<Longrightarrow> 0 < b \<Longrightarrow> c_div a b = a div b"
  by (simp add: c_div_def)

section \<open>Options\<close>

lemma bind_eq_Some_conv' [simp]:
  "Option.bind m f = Some r \<longleftrightarrow> (\<exists>x. m = Some x \<and> f x = Some r)"
  by (cases m) auto

section \<open>Lists and function updates\<close>

lemma set_remove1_distinct: "distinct xs \<Longrightarrow> set (remove1 x xs) = set xs - {x}"
  by simp

lemma fun_upd_swap: "a \<noteq> b \<Longrightarrow> f(a := x, b := y) = f(b := y, a := x)"
  by (rule fun_upd_twist)

lemma ex_mem_upd:
  "(\<exists>j. q \<in> set ((Q(i := xs)) j)) \<longleftrightarrow> q \<in> set xs \<or> (\<exists>j. j \<noteq> i \<and> q \<in> set (Q j))"
  by auto

section \<open>Words\<close>

lemma unat_u64_less [word_bounds]: "unat (a :: u64) < 18446744073709551616"
  using unsigned_less [of a, where 'a = nat] by simp

lemma unat_u32_less [word_bounds]: "unat (a :: u32) < 4294967296"
  using unsigned_less [of a, where 'a = nat] by simp

lemma unat_u16_less [word_bounds]: "unat (a :: u16) < 65536"
  using unsigned_less [of a, where 'a = nat] by simp

lemma unat_u8_less [word_bounds]: "unat (a :: u8) < 256"
  using unsigned_less [of a, where 'a = nat] by simp

lemma unat_of_nat_u64 [simp]: "n < 2 ^ 64 \<Longrightarrow> unat (of_nat n :: u64) = n"
  by (simp add: unat_of_nat take_bit_nat_eq_self)

lemma take_bit_word_small: "unat w < 2 ^ n \<Longrightarrow> take_bit n w = w" for w :: "'a::len word"
  by (simp add: word_unat_eq_iff unsigned_take_bit_eq take_bit_nat_eq_self)

lemma bit_word_small: "unat w < 2 ^ n \<Longrightarrow> bit w k \<Longrightarrow> k < n" for w :: "'a::len word"
  by (metis take_bit_word_small bit_take_bit_iff)

lemma least_set_bit:
  fixes x :: "'a::len word"
  assumes "x \<noteq> 0"
  obtains k where "k < LENGTH('a)" "bit x k" "\<And>j. j < k \<Longrightarrow> \<not> bit x j"
proof -
  from assms have "\<exists>k. bit x k" by (auto simp: bit_eq_iff)
  define k where "k = (LEAST k. bit x k)"
  have "bit x k" unfolding k_def using \<open>\<exists>k. bit x k\<close> by (rule LeastI_ex)
  moreover have "\<not> bit x j" if "j < k" for j
    using that not_less_Least unfolding k_def by blast
  moreover have "k < LENGTH('a)" using \<open>bit x k\<close> by (rule bit_imp_le_length)
  ultimately show ?thesis using that by blast
qed

end
