(* ===== verification/Kernel_Types.thy ===== *)
theory Kernel_Types
  imports Prelude
begin

text \<open>
  The kernel's constants and structures, from the headers under
  \<^verbatim>\<open>kernel/include\<close>: limits (\<^verbatim>\<open>param.h\<close>), the Sv39 page-table macros
  (\<^verbatim>\<open>riscv.h\<close>), the physical and user memory layout (\<^verbatim>\<open>memlayout.h\<close>) and
  the process structure with its trap frame and its memory areas (\<^verbatim>\<open>proc.h\<close>).

  A pointer into a kernel table (\<^verbatim>\<open>struct proc *\<close>, \<^verbatim>\<open>struct file *\<close>,
  \<^verbatim>\<open>struct inode *\<close>) is \<open>Some i\<close> with \<open>i\<close> the index of the entry, and \<open>None\<close>
  for the null pointer. A pointer to memory (a page, a page table) is its 64-bit
  address, with \<open>0\<close> for the null pointer.
\<close>

named_theorems layout \<open>values of the memory-layout constants\<close>

section \<open>Limits: param.h\<close>

definition NPROC :: nat where [layout]: "NPROC = 64"
definition NCPU :: nat where [layout]: "NCPU = 8"
definition NOFILE :: nat where [layout]: "NOFILE = 16"
definition NFILE :: nat where [layout]: "NFILE = 100"
definition NINODE :: nat where [layout]: "NINODE = 50"
definition NDEV :: nat where [layout]: "NDEV = 10"
definition MAXOPBLOCKS :: nat where [layout]: "MAXOPBLOCKS = 10"
definition LOGSIZE :: nat where [layout]: "LOGSIZE = MAXOPBLOCKS * 3"
definition NBUF :: nat where [layout]: "NBUF = MAXOPBLOCKS * 3"
definition MQMAX :: nat where [layout]: "MQMAX = 8"
definition NVMA :: nat where [layout]: "NVMA = 16"

section \<open>Pages and page-table entries: riscv.h\<close>

definition PGSIZE :: u64 where [layout]: "PGSIZE = 4096"

definition PGROUNDUP :: "u64 \<Rightarrow> u64" where
  "PGROUNDUP sz = (sz + PGSIZE - 1) AND NOT (PGSIZE - 1)"

definition PGROUNDDOWN :: "u64 \<Rightarrow> u64" where
  "PGROUNDDOWN a = a AND NOT (PGSIZE - 1)"

definition PTE_V :: u64 where [layout]: "PTE_V = 1"
definition PTE_R :: u64 where [layout]: "PTE_R = 2"
definition PTE_W :: u64 where [layout]: "PTE_W = 4"
definition PTE_X :: u64 where [layout]: "PTE_X = 8"
definition PTE_U :: u64 where [layout]: "PTE_U = 16"
definition PTE_F :: u64 where [layout]: "PTE_F = 256"

definition PA2PTE :: "u64 \<Rightarrow> u64" where
  "PA2PTE pa = push_bit 10 (drop_bit 12 pa)"

definition PTE2PA :: "u64 \<Rightarrow> u64" where
  "PTE2PA pte = push_bit 12 (drop_bit 10 pte)"

definition PTE_FLAGS :: "u64 \<Rightarrow> u64" where
  "PTE_FLAGS pte = pte AND 0x3FF"

definition PX :: "nat \<Rightarrow> u64 \<Rightarrow> u64" where
  "PX level va = drop_bit (12 + 9 * level) va AND 0x1FF"

definition MAXVA :: u64 where [layout]: "MAXVA = 0x4000000000"

section \<open>Memory layout: memlayout.h\<close>

definition UART0 :: u64 where [layout]: "UART0 = 0x10000000"
definition VIRTIO0 :: u64 where [layout]: "VIRTIO0 = 0x10001000"
definition CLINT :: u64 where [layout]: "CLINT = 0x2000000"
definition PLIC :: u64 where [layout]: "PLIC = 0x0c000000"
definition KERNBASE :: u64 where [layout]: "KERNBASE = 0x80000000"
definition PHYSTOP :: u64 where [layout]: "PHYSTOP = KERNBASE + 128 * 1024 * 1024"
definition TRAMPOLINE :: u64 where [layout]: "TRAMPOLINE = MAXVA - PGSIZE"
definition TRAPFRAME :: u64 where [layout]: "TRAPFRAME = TRAMPOLINE - PGSIZE"

definition KSTACK :: "nat \<Rightarrow> u64" where
  "KSTACK p = TRAMPOLINE - (of_nat p + 1) * 2 * PGSIZE"

section \<open>Processes: proc.h\<close>

datatype procstate = UNUSED | SLEEPING | RUNNABLE | RUNNING | ZOMBIE

text \<open>
  Wait channels. The kernel sleeps on the address of the object waited for; two
  different objects have different addresses, so a channel is the object itself.
\<close>

datatype chan =
    NoChan
  | ChanProc nat
  | ChanTicks
  | ChanSem nat
  | ChanObj u64

record trapframe =
  kernel_satp :: u64
  kernel_sp :: u64
  kernel_trap :: u64
  epc :: u64
  kernel_hartid :: u64
  tf_ra :: u64
  tf_sp :: u64
  tf_gp :: u64
  tf_tp :: u64
  tf_t0 :: u64
  tf_t1 :: u64
  tf_t2 :: u64
  tf_s0 :: u64
  tf_s1 :: u64
  tf_a0 :: u64
  tf_a1 :: u64
  tf_a2 :: u64
  tf_a3 :: u64
  tf_a4 :: u64
  tf_a5 :: u64
  tf_a6 :: u64
  tf_a7 :: u64
  tf_s2 :: u64
  tf_s3 :: u64
  tf_s4 :: u64
  tf_s5 :: u64
  tf_s6 :: u64
  tf_s7 :: u64
  tf_s8 :: u64
  tf_s9 :: u64
  tf_s10 :: u64
  tf_s11 :: u64
  tf_t3 :: u64
  tf_t4 :: u64
  tf_t5 :: u64
  tf_t6 :: u64

record vm_area =
  vma_used :: bool
  vma_addr :: u64
  vma_len :: int
  vma_prot :: u32
  vma_flags :: u32
  vma_vfd :: int
  vma_vfile :: "nat option"
  vma_offset :: int

text \<open>
  \<^verbatim>\<open>struct proc\<close>. The saved kernel context is left out: it is written and read by
  \<^verbatim>\<open>swtch.S\<close> only.
\<close>

record proc =
  p_state :: procstate
  p_parent :: "nat option"
  p_chan :: chan
  p_killed :: bool
  p_xstate :: int
  p_pid :: int
  p_kstack :: u64
  p_sz :: u64
  p_pagetable :: u64
  p_trapframe :: u64
  p_ofile :: "nat \<Rightarrow> nat option"
  p_cwd :: "nat option"
  p_name :: string
  p_trace_mask :: u32
  p_vma :: "nat \<Rightarrow> vm_area"
  p_priority :: int
  p_wait_time :: int
  p_cpu_time :: int
  p_dyn_priority :: int
  p_run_next :: "nat option"
  p_run_prev :: "nat option"
  p_on_runq :: bool
  p_pthread :: "nat option"
  p_ustack :: u64
  p_shm :: u32
  p_shmkeymask :: u32
  p_shmva :: "nat \<Rightarrow> u64"
  p_mqmask :: u32
  p_alarm_interval :: int
  p_alarm_handler :: u64
  p_alarm_ticks :: int
  p_alarm_trapframe :: u64
  p_alarm_goingoff :: bool

definition zero_vma :: vm_area where
  "zero_vma = \<lparr>vma_used = False, vma_addr = 0, vma_len = 0, vma_prot = 0, vma_flags = 0,
     vma_vfd = 0, vma_vfile = None, vma_offset = 0\<rparr>"

text \<open>A process table entry as the loader leaves it: all bytes zero.\<close>

definition zero_proc :: proc where
  "zero_proc = \<lparr>p_state = UNUSED, p_parent = None, p_chan = NoChan, p_killed = False,
     p_xstate = 0, p_pid = 0, p_kstack = 0, p_sz = 0, p_pagetable = 0, p_trapframe = 0,
     p_ofile = (\<lambda>_. None), p_cwd = None, p_name = [], p_trace_mask = 0,
     p_vma = (\<lambda>_. zero_vma), p_priority = 0, p_wait_time = 0, p_cpu_time = 0,
     p_dyn_priority = 0, p_run_next = None, p_run_prev = None, p_on_runq = False,
     p_pthread = None, p_ustack = 0, p_shm = 0, p_shmkeymask = 0, p_shmva = (\<lambda>_. 0),
     p_mqmask = 0, p_alarm_interval = 0, p_alarm_handler = 0, p_alarm_ticks = 0,
     p_alarm_trapframe = 0, p_alarm_goingoff = False\<rparr>"

section \<open>Page arithmetic\<close>

text \<open>Rounding down to a page keeps the page number and clears the offset.\<close>

lemma PGROUNDDOWN_push: "PGROUNDDOWN a = push_bit 12 (drop_bit 12 a)"
proof -
  have m: "(4095 :: u64) = mask 12" by (simp add: mask_eq_exp_minus_1)
  show ?thesis
    unfolding PGROUNDDOWN_def PGSIZE_def
    by (rule bit_word_eqI)
       (auto simp: m bit_simps)
qed

lemma unat_PGROUNDDOWN: "unat (PGROUNDDOWN a) = unat a div 4096 * 4096"
proof -
  have "unat (push_bit 12 (drop_bit 12 a)) = take_bit 64 (push_bit 12 (drop_bit 12 (unat a)))"
    using unat_u64_less [of a]
    by (simp add: unsigned_push_bit_eq unsigned_drop_bit_eq take_bit_nat_eq_self)
  also have "\<dots> = take_bit 64 (unat a div 4096 * 4096)"
    by (simp add: push_bit_eq_mult drop_bit_eq_div)
  also have "\<dots> = unat a div 4096 * 4096"
  proof -
    have "unat a div 4096 * 4096 \<le> unat a" by simp
    also have "unat a < 2 ^ 64" using unat_u64_less [of a] by simp
    finally show ?thesis by (simp add: take_bit_nat_eq_self)
  qed
  finally show ?thesis by (simp add: PGROUNDDOWN_push)
qed

lemma PTE2PA_PA2PTE:
  assumes "pa < 0x100000000000000" and "fl < 0x400"
  shows "PTE2PA (PA2PTE pa OR fl) = PGROUNDDOWN pa"
proof -
  have b1: "bit fl n \<Longrightarrow> n < 10" for n
    using assms(2) by (intro bit_word_small [of fl 10]) (simp_all add: word_less_nat_alt)
  have b2: "bit pa n \<Longrightarrow> n < 56" for n
    using assms(1) by (intro bit_word_small [of pa 56]) (simp_all add: word_less_nat_alt)
  show ?thesis
    unfolding PTE2PA_def PA2PTE_def PGROUNDDOWN_push
    by (rule bit_word_eqI) (auto simp: bit_simps dest: b1 b2)
qed

end
