(* ===== verification/Ctz64.thy ===== *)
theory Ctz64
  imports Kernel_Types
begin

text \<open>
  The constant-time bit scan of \<^verbatim>\<open>kernel/proc/sched_o1.c\<close>: isolate the lowest set
  bit, multiply by a de Bruijn constant and look the top six bits up in a table.
\<close>

definition debruijn_tbl :: "nat list" where
  "debruijn_tbl =
     [0,  1,  48, 2,  57, 49, 28, 3,  61, 58, 50, 42, 38, 29, 17, 4,
      62, 55, 59, 36, 53, 51, 43, 22, 45, 39, 33, 30, 24, 18, 12, 5,
      63, 47, 56, 27, 60, 41, 37, 16, 54, 35, 52, 21, 44, 32, 23, 11,
      46, 26, 40, 15, 34, 20, 31, 10, 25, 14, 19, 9,  13, 8,  7,  6]"

definition ctz64 :: "u64 \<Rightarrow> nat" where
  "ctz64 x = debruijn_tbl ! unat (drop_bit 58 ((x AND - x) * 0x03f79d71b4cb0a89))"

section \<open>Counting trailing zeros\<close>

lemma lowest_bit_isolated:
  fixes x :: "'a::len word"
  assumes k: "bit x k" and low: "\<And>j. j < k \<Longrightarrow> \<not> bit x j"
  shows "x AND - x = push_bit k 1"
proof -
  have kl: "k < LENGTH('a)" using k by (rule bit_imp_le_length)
  define r where "r = x AND NOT (mask (Suc k))"
  have split: "x = r OR push_bit k 1"
    by (rule bit_word_eqI)
      (use k low in \<open>auto simp: r_def bit_simps less_Suc_eq not_less_eq elim: linorder_neqE_nat\<close>)
  have "r + mask k = r OR mask k"
    by (rule disjunctive_add) (auto simp: r_def bit_simps)
  moreover have "x = r + push_bit k 1"
    by (subst split, rule disjunctive_add [symmetric])
      (auto simp: r_def bit_simps)
  moreover have "push_bit k 1 = (mask k :: 'a word) + 1"
    by (simp add: mask_eq_exp_minus_1 push_bit_eq_mult)
  ultimately have "x - 1 = r OR mask k"
    by simp
  then have neg: "- x = NOT (r OR mask k)"
    by (simp add: minus_eq_not_minus_1)
  show ?thesis
    unfolding neg
    by (rule bit_word_eqI)
      (use k low kl in \<open>auto simp: r_def bit_simps not_less less_Suc_eq_le\<close>)
qed

lemma ctz64_table:
  "map (\<lambda>k. debruijn_tbl ! unat (drop_bit 58 (push_bit k 1 * 0x03f79d71b4cb0a89 :: u64))) [0..<64]
     = [0..<64]"
  unfolding debruijn_tbl_def by (simp add: upt_rec drop_bit_eq_div del: upt_rec_numeral)

lemma ctz64_power:
  "k < 64 \<Longrightarrow> debruijn_tbl ! unat (drop_bit 58 (push_bit k 1 * 0x03f79d71b4cb0a89 :: u64)) = k"
  using arg_cong [OF ctz64_table, of "\<lambda>xs. xs ! k"] by (simp del: upt_rec_numeral)

lemma ctz64_spec:
  assumes "x \<noteq> 0"
  shows "ctz64 x < 64" and "bit x (ctz64 x)" and "\<And>j. bit x j \<Longrightarrow> ctz64 x \<le> j"
proof -
  obtain k where k: "k < 64" "bit x k" and low: "\<And>j. j < k \<Longrightarrow> \<not> bit x j"
    using assms by (rule least_set_bit) simp
  have "x AND - x = push_bit k 1"
    by (rule lowest_bit_isolated) (use k low in auto)
  then have eq: "ctz64 x = k"
    by (simp only: ctz64_def ctz64_power [OF k(1)])
  show "ctz64 x < 64" and "bit x (ctz64 x)" using k eq by simp_all
  show "ctz64 x \<le> j" if "bit x j" for j using that low eq by (auto simp: not_less [symmetric])
qed

text \<open>
  C3. The multiplication and table look-up of \<^verbatim>\<open>ctz64\<close> return, for every non-zero
  64-bit word, the position of its lowest set bit.
\<close>

theorem ctz64_lowest:
  assumes "x \<noteq> 0"
  shows "ctz64 x < 64 \<and> bit x (ctz64 x) \<and> (\<forall>j. bit x j \<longrightarrow> ctz64 x \<le> j)"
  using ctz64_spec [OF assms] by blast

theorem ctz64_lowest_witness:
  "ctz64 0x50 = 4 \<and> bit (0x50 :: u64) (ctz64 0x50)"
proof -
  have "ctz64 0x50 = 4" by (simp add: ctz64_def debruijn_tbl_def drop_bit_eq_div)
  moreover have "(0x50 :: u64) \<noteq> 0" by simp
  ultimately show ?thesis using ctz64_lowest [of "0x50"] by blast
qed

end
