(* ===== verification/Sched_O1.thy ===== *)
theory Sched_O1
  imports Ctz64
begin

text \<open>
  The O(1) multi-level ready queue of \<^verbatim>\<open>kernel/proc/sched_o1.c\<close>: 21 doubly
  linked lists threaded through the process table, one per dynamic priority, and a
  64-bit map of the non-empty ones (\<open>ctz64\<close> is in theory \<open>Ctz64\<close>). The state is the process table, the two arrays of
  list ends and the bit map, exactly the globals of the C file; the lock \<^verbatim>\<open>runq_lock\<close>
  brackets every operation, so an operation is one atomic state change.

  \<open>runq_rel s Q\<close> relates the linked representation \<open>s\<close> to the queues \<open>Q\<close> it
  stands for; each operation is proved to implement its list counterpart.
\<close>

section \<open>The state and the operations\<close>

definition RUNQ_LEN :: nat where "RUNQ_LEN = 21"

record runq =
  procs :: "nat \<Rightarrow> proc"
  runq_head :: "nat \<Rightarrow> nat option"
  runq_tail :: "nat \<Rightarrow> nat option"
  runq_bitmap :: u64

text \<open>\<^verbatim>\<open>p->field = v\<close> on a process-table entry.\<close>

definition upd_proc :: "nat \<Rightarrow> (proc \<Rightarrow> proc) \<Rightarrow> ('a runq_scheme) \<Rightarrow> ('a runq_scheme)" where
  "upd_proc p f s = s\<lparr>procs := (procs s)(p := f (procs s p))\<rparr>"

definition runq_dyn :: "proc \<Rightarrow> int" where
  "runq_dyn p =
     (let d = wrap32 (wrap32 (p_priority p + c_div (p_wait_time p) 5) - c_div (p_cpu_time p) 5);
          d = (if d < 0 then 0 else d)
      in if d > int RUNQ_LEN - 1 then int RUNQ_LEN - 1 else d)"

definition runq_init :: "'a runq_scheme \<Rightarrow> 'a runq_scheme" where
  "runq_init s = s\<lparr>
     runq_head := (\<lambda>i. if i < RUNQ_LEN then None else runq_head s i),
     runq_tail := (\<lambda>i. if i < RUNQ_LEN then None else runq_tail s i),
     runq_bitmap := 0\<rparr>"

text \<open>
  Enqueueing and removing, step by step as the C functions write: the neighbour's link or
  the list end, then the bit map.
\<close>

definition link_tail :: "nat \<Rightarrow> nat \<Rightarrow> 'a runq_scheme \<Rightarrow> 'a runq_scheme" where
  "link_tail i p s =
     (case runq_tail s i of
        Some t \<Rightarrow> upd_proc t (\<lambda>x. x\<lparr>p_run_next := Some p\<rparr>) s
      | None \<Rightarrow> s\<lparr>runq_head := (runq_head s)(i := Some p)\<rparr>)"

definition set_tail_bit :: "nat \<Rightarrow> nat \<Rightarrow> 'a runq_scheme \<Rightarrow> 'a runq_scheme" where
  "set_tail_bit i p s =
     s\<lparr>runq_tail := (runq_tail s)(i := Some p), runq_bitmap := runq_bitmap s OR push_bit i 1\<rparr>"

definition runq_enqueue :: "nat \<Rightarrow> 'a runq_scheme \<Rightarrow> 'a runq_scheme" where
  "runq_enqueue p s =
     (if p_on_runq (procs s p) then s
      else
        let i = nat (runq_dyn (procs s p));
            t = runq_tail s i
        in upd_proc p (\<lambda>x. x\<lparr>p_on_runq := True\<rparr>)
             (set_tail_bit i p
               (link_tail i p
                 (upd_proc p (\<lambda>x. x\<lparr>p_dyn_priority := int i, p_run_next := None,
                                     p_run_prev := t\<rparr>) s))))"

definition unlink_prev ::
  "nat \<Rightarrow> nat option \<Rightarrow> nat option \<Rightarrow> 'a runq_scheme \<Rightarrow> 'a runq_scheme" where
  "unlink_prev i pr nx s =
     (case pr of
        Some q \<Rightarrow> upd_proc q (\<lambda>x. x\<lparr>p_run_next := nx\<rparr>) s
      | None \<Rightarrow> s\<lparr>runq_head := (runq_head s)(i := nx)\<rparr>)"

definition unlink_next ::
  "nat \<Rightarrow> nat option \<Rightarrow> nat option \<Rightarrow> 'a runq_scheme \<Rightarrow> 'a runq_scheme" where
  "unlink_next i pr nx s =
     (case nx of
        Some q \<Rightarrow> upd_proc q (\<lambda>x. x\<lparr>p_run_prev := pr\<rparr>) s
      | None \<Rightarrow> s\<lparr>runq_tail := (runq_tail s)(i := pr)\<rparr>)"

definition clear_bit_if_empty :: "nat \<Rightarrow> 'a runq_scheme \<Rightarrow> 'a runq_scheme" where
  "clear_bit_if_empty i s =
     (if runq_head s i = None
      then s\<lparr>runq_bitmap := runq_bitmap s AND NOT (push_bit i 1)\<rparr> else s)"

definition runq_remove :: "nat \<Rightarrow> 'a runq_scheme \<Rightarrow> 'a runq_scheme" where
  "runq_remove p s =
     (if \<not> p_on_runq (procs s p) then s
      else
        let i = nat (p_dyn_priority (procs s p));
            nx = p_run_next (procs s p);
            pr = p_run_prev (procs s p)
        in clear_bit_if_empty i
             (upd_proc p (\<lambda>x. x\<lparr>p_run_next := None, p_run_prev := None, p_on_runq := False\<rparr>)
               (unlink_next i pr nx (unlink_prev i pr nx s))))"

text \<open>
  \<^verbatim>\<open>runq_pick\<close> dereferences the head of the chosen bucket: a null head there would
  be a kernel fault, the result \<open>None\<close> of the model. \<open>Some (None, s)\<close> is the null
  pointer returned when no process is ready.
\<close>

definition runq_pick :: "'a runq_scheme \<Rightarrow> (nat option \<times> 'a runq_scheme) option" where
  "runq_pick s =
     (if runq_bitmap s = 0 then Some (None, s)
      else case runq_head s (ctz64 (runq_bitmap s)) of
             None \<Rightarrow> None
           | Some p \<Rightarrow> Some (Some p, runq_remove p s))"

text \<open>
  The two passes of \<^verbatim>\<open>sched_tick\<close>. A walk along \<^verbatim>\<open>run_next\<close> ends only if the
  list is finite, so the walks are partial functions: a value \<open>None\<close> would be a walk
  that never ends.
\<close>

partial_function (option) age_chain ::
  "nat option \<Rightarrow> 'a runq_scheme \<Rightarrow> 'a runq_scheme option" where
  "age_chain p s =
     (case p of
        None \<Rightarrow> Some s
      | Some q \<Rightarrow>
          age_chain (p_run_next (procs s q))
            (upd_proc q (\<lambda>x. x\<lparr>p_wait_time := wrap32 (p_wait_time x + 1)\<rparr>) s))"

partial_function (option) rebucket_chain ::
  "nat \<Rightarrow> nat option \<Rightarrow> 'a runq_scheme \<Rightarrow> 'a runq_scheme option" where
  "rebucket_chain i p s =
     (case p of
        None \<Rightarrow> Some s
      | Some q \<Rightarrow>
          rebucket_chain i (p_run_next (procs s q))
            (if runq_dyn (procs s q) \<noteq> int i then runq_enqueue q (runq_remove q s) else s))"

primrec for_buckets ::
  "nat list \<Rightarrow> (nat \<Rightarrow> 's \<Rightarrow> 's option) \<Rightarrow> 's \<Rightarrow> 's option" where
  "for_buckets [] f s = Some s"
| "for_buckets (i # is) f s = Option.bind (f i s) (for_buckets is f)"

definition sched_tick :: "nat option \<Rightarrow> 'a runq_scheme \<Rightarrow> 'a runq_scheme option" where
  "sched_tick running s = do {
     s \<leftarrow> for_buckets [0..<RUNQ_LEN] (\<lambda>i s. age_chain (runq_head s i) s) s;
     s \<leftarrow> for_buckets [0..<RUNQ_LEN] (\<lambda>i s. rebucket_chain i (runq_head s i) s) s;
     case running of
       None \<Rightarrow> Some s
     | Some r \<Rightarrow> Some (upd_proc r (\<lambda>x. x\<lparr>p_cpu_time := wrap32 (p_cpu_time x + 1)\<rparr>) s)
   }"

section \<open>What each step writes\<close>

lemma upd_proc_sel [simp]:
  "runq.more (upd_proc p f s) = runq.more s"
  "procs (upd_proc p f s) = (procs s)(p := f (procs s p))"
  "runq_head (upd_proc p f s) = runq_head s"
  "runq_tail (upd_proc p f s) = runq_tail s"
  "runq_bitmap (upd_proc p f s) = runq_bitmap s"
  by (simp_all add: upd_proc_def)

lemma link_tail_sel [simp]:
  "runq.more (link_tail i p s) = runq.more s"
  "procs (link_tail i p s) =
     (\<lambda>q. if runq_tail s i = Some q then (procs s q)\<lparr>p_run_next := Some p\<rparr> else procs s q)"
  "runq_head (link_tail i p s) =
     (if runq_tail s i = None then (runq_head s)(i := Some p) else runq_head s)"
  "runq_tail (link_tail i p s) = runq_tail s"
  "runq_bitmap (link_tail i p s) = runq_bitmap s"
  by (auto simp: link_tail_def split: option.split)

lemma set_tail_bit_sel [simp]:
  "runq.more (set_tail_bit i p s) = runq.more s"
  "procs (set_tail_bit i p s) = procs s"
  "runq_head (set_tail_bit i p s) = runq_head s"
  "runq_tail (set_tail_bit i p s) = (runq_tail s)(i := Some p)"
  "runq_bitmap (set_tail_bit i p s) = runq_bitmap s OR push_bit i 1"
  by (simp_all add: set_tail_bit_def)

lemma unlink_prev_sel [simp]:
  "runq.more (unlink_prev i pr nx s) = runq.more s"
  "procs (unlink_prev i pr nx s) =
     (\<lambda>q. if pr = Some q then (procs s q)\<lparr>p_run_next := nx\<rparr> else procs s q)"
  "runq_head (unlink_prev i pr nx s) =
     (if pr = None then (runq_head s)(i := nx) else runq_head s)"
  "runq_tail (unlink_prev i pr nx s) = runq_tail s"
  "runq_bitmap (unlink_prev i pr nx s) = runq_bitmap s"
  by (auto simp: unlink_prev_def split: option.split)

lemma unlink_next_sel [simp]:
  "runq.more (unlink_next i pr nx s) = runq.more s"
  "procs (unlink_next i pr nx s) =
     (\<lambda>q. if nx = Some q then (procs s q)\<lparr>p_run_prev := pr\<rparr> else procs s q)"
  "runq_head (unlink_next i pr nx s) = runq_head s"
  "runq_tail (unlink_next i pr nx s) =
     (if nx = None then (runq_tail s)(i := pr) else runq_tail s)"
  "runq_bitmap (unlink_next i pr nx s) = runq_bitmap s"
  by (auto simp: unlink_next_def split: option.split)

lemma clear_bit_if_empty_sel [simp]:
  "runq.more (clear_bit_if_empty i s) = runq.more s"
  "procs (clear_bit_if_empty i s) = procs s"
  "runq_head (clear_bit_if_empty i s) = runq_head s"
  "runq_tail (clear_bit_if_empty i s) = runq_tail s"
  "runq_bitmap (clear_bit_if_empty i s) =
     (if runq_head s i = None then runq_bitmap s AND NOT (push_bit i 1) else runq_bitmap s)"
  by (simp_all add: clear_bit_if_empty_def)

lemma enqueue_links:
  assumes "\<not> p_on_runq (procs s p)" and "nat (runq_dyn (procs s p)) = i"
    and "runq_tail s i \<noteq> Some p"
  shows "procs (runq_enqueue p s) = (\<lambda>q.
      if q = p then (procs s p)\<lparr>p_dyn_priority := int i, p_run_next := None,
                       p_run_prev := runq_tail s i, p_on_runq := True\<rparr>
      else if runq_tail s i = Some q then (procs s q)\<lparr>p_run_next := Some p\<rparr> else procs s q)"
    and "runq_head (runq_enqueue p s) =
      (if runq_tail s i = None then (runq_head s)(i := Some p) else runq_head s)"
    and "runq_tail (runq_enqueue p s) = (runq_tail s)(i := Some p)"
    and "runq_bitmap (runq_enqueue p s) = runq_bitmap s OR push_bit i 1"
  using assms by (simp_all add: runq_enqueue_def Let_def fun_eq_iff)

lemma remove_links:
  assumes "p_on_runq (procs s p)" and "p_dyn_priority (procs s p) = int i"
    and "p_run_next (procs s p) = nx" and "p_run_prev (procs s p) = pr"
    and "pr \<noteq> Some p" and "nx \<noteq> Some p" and "pr = nx \<longrightarrow> nx = None"
  shows "procs (runq_remove p s) = (\<lambda>q.
      if q = p then (procs s p)\<lparr>p_run_next := None, p_run_prev := None, p_on_runq := False\<rparr>
      else if pr = Some q then (procs s q)\<lparr>p_run_next := nx\<rparr>
      else if nx = Some q then (procs s q)\<lparr>p_run_prev := pr\<rparr> else procs s q)"
    and "runq_head (runq_remove p s) = (if pr = None then (runq_head s)(i := nx) else runq_head s)"
    and "runq_tail (runq_remove p s) = (if nx = None then (runq_tail s)(i := pr) else runq_tail s)"
    and "runq_bitmap (runq_remove p s) =
      (if runq_head (runq_remove p s) i = None then runq_bitmap s AND NOT (push_bit i 1)
       else runq_bitmap s)"
proof -
  have "nat (p_dyn_priority (procs s p)) = i" using assms(2) by simp
  then have R: "runq_remove p s = clear_bit_if_empty i
      (upd_proc p (\<lambda>x. x\<lparr>p_run_next := None, p_run_prev := None, p_on_runq := False\<rparr>)
        (unlink_next i pr nx (unlink_prev i pr nx s)))"
    using assms(1,3,4) by (simp add: runq_remove_def)
  have p: "(if nx = Some p then f else g) = g" "(if pr = Some p then f else g) = g" for f g :: proc
    using assms(5,6) by simp_all
  have nn: "pr = Some q \<Longrightarrow> nx \<noteq> Some q" for q using assms(7) by auto
  show "procs (runq_remove p s) = (\<lambda>q.
      if q = p then (procs s p)\<lparr>p_run_next := None, p_run_prev := None, p_on_runq := False\<rparr>
      else if pr = Some q then (procs s q)\<lparr>p_run_next := nx\<rparr>
      else if nx = Some q then (procs s q)\<lparr>p_run_prev := pr\<rparr> else procs s q)"
    using nn by (intro ext) (simp add: R p)
qed (simp_all add: runq_remove_def assms)

section \<open>Doubly linked segments\<close>

text \<open>
  \<open>dseg h prev cur xs lst nxt\<close>: following \<^verbatim>\<open>run_next\<close> from \<open>cur\<close> visits \<open>xs\<close> and
  then reaches \<open>nxt\<close>; the \<^verbatim>\<open>run_prev\<close> links lead back to \<open>prev\<close>; \<open>lst\<close> is the last
  node visited.
\<close>

primrec dseg ::
  "(nat \<Rightarrow> proc) \<Rightarrow> nat option \<Rightarrow> nat option \<Rightarrow> nat list \<Rightarrow> nat option \<Rightarrow> nat option \<Rightarrow> bool"
where
  "dseg h prev cur [] lst nxt \<longleftrightarrow> cur = nxt \<and> lst = prev"
| "dseg h prev cur (x # xs) lst nxt \<longleftrightarrow>
     cur = Some x \<and> p_run_prev (h x) = prev \<and> dseg h (Some x) (p_run_next (h x)) xs lst nxt"

lemma dseg_append [simp]:
  "dseg h prev cur (xs @ ys) lst nxt \<longleftrightarrow>
     (\<exists>m c. dseg h prev cur xs m c \<and> dseg h m c ys lst nxt)"
  by (induction xs arbitrary: prev cur) auto

lemma dseg_frame:
  assumes "dseg h prev cur xs lst nxt"
    and "\<And>x. x \<in> set xs \<Longrightarrow> p_run_next (h' x) = p_run_next (h x)"
    and "\<And>x. x \<in> set xs \<Longrightarrow> p_run_prev (h' x) = p_run_prev (h x)"
  shows "dseg h' prev cur xs lst nxt"
  using assms by (induction xs arbitrary: prev cur) auto

lemma dseg_last: "dseg h prev cur xs lst nxt \<Longrightarrow> lst = (if xs = [] then prev else Some (last xs))"
  by (induction xs arbitrary: prev cur) auto

lemma dseg_first: "dseg h prev cur xs lst nxt \<Longrightarrow> cur = (if xs = [] then nxt else Some (hd xs))"
  by (cases xs) auto

text \<open>Redirecting the last node's \<^verbatim>\<open>run_next\<close>, and the first node's \<^verbatim>\<open>run_prev\<close>.\<close>

lemma dseg_retarget:
  assumes "dseg h prev cur xs lst nxt" and "distinct xs"
    and "\<And>x. x \<in> set xs \<Longrightarrow> p_run_prev (h' x) = p_run_prev (h x)"
    and "\<And>x. x \<in> set xs \<Longrightarrow> lst \<noteq> Some x \<Longrightarrow> p_run_next (h' x) = p_run_next (h x)"
    and "\<And>x. x \<in> set xs \<Longrightarrow> lst = Some x \<Longrightarrow> p_run_next (h' x) = nxt'"
  shows "dseg h' prev (if xs = [] then nxt' else cur) xs lst nxt'"
proof (cases xs rule: rev_cases)
  case Nil
  then show ?thesis using assms(1) by simp
next
  case (snoc ys t)
  with assms(1) have lst: "lst = Some t" by auto
  from snoc assms(1) obtain m where
    seg: "dseg h prev cur ys m (Some t)" "p_run_prev (h t) = m" by auto
  have "dseg h' prev cur ys m (Some t)"
    using seg(1) by (rule dseg_frame) (use assms(2-4) in \<open>auto simp: snoc lst\<close>)
  then show ?thesis using seg(2) assms(3,5) snoc lst by auto
qed

lemma dseg_reprev:
  assumes "dseg h prev cur xs lst nxt" and "distinct xs"
    and "\<And>x. x \<in> set xs \<Longrightarrow> p_run_next (h' x) = p_run_next (h x)"
    and "\<And>x. x \<in> set xs \<Longrightarrow> cur \<noteq> Some x \<Longrightarrow> p_run_prev (h' x) = p_run_prev (h x)"
    and "\<And>x. x \<in> set xs \<Longrightarrow> cur = Some x \<Longrightarrow> p_run_prev (h' x) = prev'"
  shows "dseg h' prev' cur xs (if xs = [] then prev' else lst) nxt"
proof (cases xs)
  case Nil
  then show ?thesis using assms(1) by simp
next
  case (Cons x ys)
  with assms(1) have "dseg h (Some x) (p_run_next (h x)) ys lst nxt" by simp
  then have "dseg h' (Some x) (p_run_next (h x)) ys lst nxt"
    by (rule dseg_frame) (use assms Cons in auto)
  then show ?thesis using Cons assms by auto
qed

section \<open>The queues a state stands for\<close>

definition runq_rel :: "'a runq_scheme \<Rightarrow> (nat \<Rightarrow> nat list) \<Rightarrow> bool" where
  "runq_rel s Q \<longleftrightarrow>
     (\<forall>i < RUNQ_LEN. dseg (procs s) None (runq_head s i) (Q i) (runq_tail s i) None) \<and>
     (\<forall>i. distinct (Q i)) \<and>
     (\<forall>p. p_on_runq (procs s p) \<longleftrightarrow> (\<exists>i. p \<in> set (Q i))) \<and>
     (\<forall>i. \<forall>p \<in> set (Q i). p_dyn_priority (procs s p) = int i) \<and>
     (\<forall>i. bit (runq_bitmap s) i \<longleftrightarrow> Q i \<noteq> []) \<and>
     (\<forall>i \<ge> RUNQ_LEN. Q i = [])"

lemma runq_dyn_range: "0 \<le> runq_dyn p \<and> runq_dyn p < int RUNQ_LEN"
  by (auto simp: runq_dyn_def Let_def RUNQ_LEN_def)

lemma nat_runq_dyn_less: "nat (runq_dyn p) < RUNQ_LEN"
  using runq_dyn_range [of p] by (simp add: nat_less_iff)

lemma runq_relD:
  assumes "runq_rel s Q"
  shows "\<And>i. i < RUNQ_LEN \<Longrightarrow> dseg (procs s) None (runq_head s i) (Q i) (runq_tail s i) None"
    and "\<And>i. distinct (Q i)"
    and "\<And>p. p_on_runq (procs s p) \<longleftrightarrow> (\<exists>i. p \<in> set (Q i))"
    and "\<And>i p. p \<in> set (Q i) \<Longrightarrow> p_dyn_priority (procs s p) = int i"
    and "\<And>i. bit (runq_bitmap s) i \<longleftrightarrow> Q i \<noteq> []"
    and "\<And>i. Q i \<noteq> [] \<Longrightarrow> i < RUNQ_LEN"
    and "\<And>i j p. p \<in> set (Q i) \<Longrightarrow> p \<in> set (Q j) \<Longrightarrow> i = j"
proof -
  show "i = j" if "p \<in> set (Q i)" "p \<in> set (Q j)" for i j p
    using that assms by (simp add: runq_rel_def) (metis of_nat_eq_iff)
qed (use assms in \<open>auto simp: runq_rel_def not_less [symmetric]\<close>)

lemma runq_rel_enqueue:
  assumes R: "runq_rel s Q" and off: "\<not> p_on_runq (procs s p)"
    and i: "nat (runq_dyn (procs s p)) = i"
  shows "runq_rel (runq_enqueue p s) (Q(i := Q i @ [p]))"
proof -
  note rel = runq_relD [OF R]
  have iL: "i < RUNQ_LEN" using nat_runq_dyn_less i by blast
  have pnot: "p \<notin> set (Q j)" for j using off rel(3) by blast
  have tail: "runq_tail s i = (if Q i = [] then None else Some (last (Q i)))"
    using dseg_last [OF rel(1) [OF iL]] .
  have tin: "runq_tail s i = Some x \<Longrightarrow> x \<in> set (Q i)" for x
    using tail by (auto split: if_splits)
  then have tnp: "runq_tail s i \<noteq> Some p" using pnot by blast
  note eqs = enqueue_links [OF off i tnp]
  have seg: "dseg (procs (runq_enqueue p s)) None (runq_head (runq_enqueue p s) j)
      ((Q(i := Q i @ [p])) j) (runq_tail (runq_enqueue p s) j) None" if jL: "j < RUNQ_LEN" for j
  proof (cases "j = i")
    case False
    have "dseg (procs (runq_enqueue p s)) None (runq_head s j) (Q j) (runq_tail s j) None"
      by (rule dseg_frame [OF rel(1) [OF jL]])
        (use False pnot rel(7) tin in \<open>auto simp: eqs(1)\<close>)
    then show ?thesis using False by (simp add: eqs(2,3))
  next
    case True
    have "dseg (procs (runq_enqueue p s)) None (if Q i = [] then Some p else runq_head s i)
        (Q i) (runq_tail s i) (Some p)"
      by (rule dseg_retarget [OF rel(1) [OF iL] rel(2)]) (use pnot in \<open>auto simp: eqs(1)\<close>)
    then show ?thesis using True tail by (auto simp: eqs)
  qed
  have on: "p_on_runq (procs (runq_enqueue p s) q) \<longleftrightarrow> (\<exists>j. q \<in> set ((Q(i := Q i @ [p])) j))" for q
    unfolding ex_mem_upd using rel(3) [of q] by (simp add: eqs(1)) metis
  have dyn: "p_dyn_priority (procs (runq_enqueue p s) q) = int j"
    if "q \<in> set ((Q(i := Q i @ [p])) j)" for j q
    using that rel(4) pnot by (auto simp: eqs(1) split: if_splits)
  have bits: "bit (runq_bitmap (runq_enqueue p s)) j \<longleftrightarrow> (Q(i := Q i @ [p])) j \<noteq> []" for j
    using rel(5) iL by (auto simp: eqs(4) bit_simps RUNQ_LEN_def)
  have "distinct ((Q(i := Q i @ [p])) j)" for j
    using rel(2) pnot by simp
  moreover have "(Q(i := Q i @ [p])) j = []" if "RUNQ_LEN \<le> j" for j
    using that iL rel(6) [of j] by auto
  ultimately show ?thesis unfolding runq_rel_def using seg on dyn bits by blast
qed

lemma runq_rel_remove:
  assumes R: "runq_rel s Q" and p: "p \<in> set (Q i)"
  shows "runq_rel (runq_remove p s) (Q(i := remove1 p (Q i)))"
proof -
  note rel = runq_relD [OF R]
  have iL: "i < RUNQ_LEN" using p rel(6) [of i] by fastforce
  obtain ys zs where Qi: "Q i = ys @ p # zs" and ny: "p \<notin> set ys"
    using split_list_first [OF p] by blast
  have d: "distinct (ys @ p # zs)" using rel(2) [of i] Qi by simp
  have rm: "remove1 p (Q i) = ys @ zs" using Qi ny by (simp add: remove1_append)
  define nx where "nx = p_run_next (procs s p)"
  define pr where "pr = p_run_prev (procs s p)"
  from rel(1) [OF iL] Qi have
    sy: "dseg (procs s) None (runq_head s i) ys pr (Some p)" and
    sz: "dseg (procs s) (Some p) nx zs (runq_tail s i) None"
    by (auto simp: nx_def pr_def)
  have prv: "pr = (if ys = [] then None else Some (last ys))" using dseg_last [OF sy] .
  have nxv: "nx = (if zs = [] then None else Some (hd zs))" using dseg_first [OF sz] .
  have prin: "pr = Some x \<Longrightarrow> x \<in> set ys" for x using prv by (auto split: if_splits)
  have nxin: "nx = Some x \<Longrightarrow> x \<in> set zs" for x using nxv by (auto split: if_splits)
  have on: "p_on_runq (procs s p)" using p rel(3) by blast
  have ne: "pr \<noteq> Some p" "nx \<noteq> Some p" using d prin nxin by auto
  have pn: "pr = nx \<longrightarrow> nx = None"
  proof (rule ccontr)
    assume "\<not> ?thesis"
    then obtain x where "pr = Some x" "nx = Some x" by auto
    then have "x \<in> set ys" "x \<in> set zs" using prin nxin by auto
    with d show False by auto
  qed
  note eqs = remove_links [OF on rel(4) [OF p] nx_def [symmetric] pr_def [symmetric] ne pn]
  have dy: "dseg (procs (runq_remove p s)) None (if ys = [] then nx else runq_head s i) ys pr nx"
  proof (rule dseg_retarget [OF sy])
    fix x assume "x \<in> set ys"
    then have "x \<noteq> p" "nx \<noteq> Some x" using d nxin by auto
    then show "p_run_prev (procs (runq_remove p s) x) = p_run_prev (procs s x)"
      and "pr \<noteq> Some x \<Longrightarrow> p_run_next (procs (runq_remove p s) x) = p_run_next (procs s x)"
      and "pr = Some x \<Longrightarrow> p_run_next (procs (runq_remove p s) x) = nx"
      by (simp_all add: eqs(1))
  qed (use d in simp)
  have dz: "dseg (procs (runq_remove p s)) pr nx zs (if zs = [] then pr else runq_tail s i) None"
  proof (rule dseg_reprev [OF sz])
    fix x assume "x \<in> set zs"
    then have "x \<noteq> p" "pr \<noteq> Some x" using d prin by auto
    then show "p_run_next (procs (runq_remove p s) x) = p_run_next (procs s x)"
      and "nx \<noteq> Some x \<Longrightarrow> p_run_prev (procs (runq_remove p s) x) = p_run_prev (procs s x)"
      and "nx = Some x \<Longrightarrow> p_run_prev (procs (runq_remove p s) x) = pr"
      by (simp_all add: eqs(1))
  qed (use d in simp)
  have seg: "dseg (procs (runq_remove p s)) None (runq_head (runq_remove p s) j)
      ((Q(i := remove1 p (Q i))) j) (runq_tail (runq_remove p s) j) None" if jL: "j < RUNQ_LEN" for j
  proof (cases "j = i")
    case True
    then show ?thesis using dy dz prv nxv by (auto simp: rm eqs(2,3) split: if_splits)
  next
    case False
    have "dseg (procs (runq_remove p s)) None (runq_head s j) (Q j) (runq_tail s j) None"
    proof (rule dseg_frame [OF rel(1) [OF jL]])
      fix x assume "x \<in> set (Q j)"
      then have "x \<notin> set (Q i)" using False rel(7) by blast
      then have x: "x \<noteq> p" "pr \<noteq> Some x" "nx \<noteq> Some x" using p prin nxin Qi by auto
      show "p_run_next (procs (runq_remove p s) x) = p_run_next (procs s x)"
        and "p_run_prev (procs (runq_remove p s) x) = p_run_prev (procs s x)"
        using x by (simp_all add: eqs(1))
    qed
    then show ?thesis using False by (simp add: eqs(2,3))
  qed
  have onq: "p_on_runq (procs (runq_remove p s) q) \<longleftrightarrow>
      (\<exists>j. q \<in> set ((Q(i := remove1 p (Q i))) j))" for q
  proof (cases "q = p")
    case True
    have "p \<in> set (Q j) \<Longrightarrow> j = i" for j using p rel(7) by blast
    then show ?thesis using True rel(2) by (auto simp: eqs(1))
  next
    case False
    then show ?thesis unfolding ex_mem_upd using rel(3) [of q] by (simp add: eqs(1)) metis
  qed
  have dyn: "p_dyn_priority (procs (runq_remove p s) q) = int j"
    if "q \<in> set ((Q(i := remove1 p (Q i))) j)" for j q
  proof -
    have "q \<in> set (Q j)" using that set_remove1_subset [of p "Q i"] by (auto split: if_splits)
    then show ?thesis using rel(4) by (auto simp: eqs(1))
  qed
  have h: "runq_head (runq_remove p s) i = None \<longleftrightarrow> ys @ zs = []"
    using dseg_first [OF sy] prv nxv by (auto simp: eqs(2))
  have bits: "bit (runq_bitmap (runq_remove p s)) j \<longleftrightarrow> (Q(i := remove1 p (Q i))) j \<noteq> []" for j
    unfolding rm using rel(5) [of j] iL h p
    by (auto simp: eqs(4) bit_simps RUNQ_LEN_def dest: bit_imp_le_length)
  have "distinct ((Q(i := remove1 p (Q i))) j)" for j
    using rel(2) by simp
  moreover have "(Q(i := remove1 p (Q i))) j = []" if "RUNQ_LEN \<le> j" for j
    using that iL rel(6) [of j] by auto
  ultimately show ?thesis unfolding runq_rel_def using seg onq dyn bits by blast
qed

section \<open>Picking and ageing\<close>

lemma runq_rel_pick:
  assumes R: "runq_rel s Q"
  shows "(\<forall>i. Q i = []) \<Longrightarrow> runq_pick s = Some (None, s)"
    and "Q i \<noteq> [] \<Longrightarrow> (\<And>j. j < i \<Longrightarrow> Q j = []) \<Longrightarrow>
      runq_pick s = Some (Some (hd (Q i)), runq_remove (hd (Q i)) s) \<and>
      runq_rel (runq_remove (hd (Q i)) s) (Q(i := tl (Q i)))"
proof -
  note rel = runq_relD [OF R]
  show "runq_pick s = Some (None, s)" if "\<forall>i. Q i = []"
  proof -
    have "runq_bitmap s = 0" by (rule bit_word_eqI) (use that rel(5) in simp)
    then show ?thesis by (simp add: runq_pick_def)
  qed
  assume i: "Q i \<noteq> []" and low: "\<And>j. j < i \<Longrightarrow> Q j = []"
  have b: "bit (runq_bitmap s) i" using rel(5) i by blast
  then have nz: "runq_bitmap s \<noteq> 0" by auto
  have "ctz64 (runq_bitmap s) \<le> i" using ctz64_spec(3) [OF nz b] .
  moreover have "\<not> ctz64 (runq_bitmap s) < i" using ctz64_spec(2) [OF nz] rel(5) low by blast
  ultimately have c: "ctz64 (runq_bitmap s) = i" by simp
  have "runq_head s i = Some (hd (Q i))"
    using dseg_first [OF rel(1) [OF rel(6) [OF i]]] i by simp
  moreover have "remove1 (hd (Q i)) (Q i) = tl (Q i)" using i by (cases "Q i") auto
  ultimately show "runq_pick s = Some (Some (hd (Q i)), runq_remove (hd (Q i)) s) \<and>
      runq_rel (runq_remove (hd (Q i)) s) (Q(i := tl (Q i)))"
    using nz c runq_rel_remove [OF R, of "hd (Q i)" i] i by (simp add: runq_pick_def)
qed

text \<open>\<open>off_queue x\<close> is the entry without the fields the ready queue writes.\<close>

definition off_queue :: "proc \<Rightarrow> proc" where
  "off_queue x = x\<lparr>p_run_next := None, p_run_prev := None, p_dyn_priority := 0, p_on_runq := False\<rparr>"

lemma off_queue_runq_dyn: "off_queue x = off_queue y \<Longrightarrow> runq_dyn x = runq_dyn y"
  by (cases x, cases y) (simp add: off_queue_def runq_dyn_def)

lemma off_queue_upd [simp]:
  "off_queue (x\<lparr>p_run_next := a\<rparr>) = off_queue x"
  "off_queue (x\<lparr>p_run_prev := a\<rparr>) = off_queue x"
  "off_queue (x\<lparr>p_dyn_priority := d\<rparr>) = off_queue x"
  "off_queue (x\<lparr>p_on_runq := b\<rparr>) = off_queue x"
  by (simp_all add: off_queue_def)

lemma off_queue_enqueue [simp]: "off_queue (procs (runq_enqueue p s) q) = off_queue (procs s q)"
  by (simp add: runq_enqueue_def Let_def)

lemma off_queue_remove [simp]: "off_queue (procs (runq_remove p s) q) = off_queue (procs s q)"
  by (simp add: runq_remove_def Let_def)

definition settled :: "'a runq_scheme \<Rightarrow> (nat \<Rightarrow> nat list) \<Rightarrow> nat \<Rightarrow> bool" where
  "settled s Q j \<longleftrightarrow> (\<forall>q \<in> set (Q j). runq_dyn (procs s q) = int j)"

definition same_ready :: "'a runq_scheme \<Rightarrow> 'a runq_scheme \<Rightarrow> bool" where
  "same_ready s s' \<longleftrightarrow> runq.more s' = runq.more s \<and>
     (\<forall>q. off_queue (procs s' q) = off_queue (procs s q) \<and>
          p_on_runq (procs s' q) = p_on_runq (procs s q))"

lemma same_ready_refl [simp]: "same_ready s s"
  by (simp add: same_ready_def)

lemma same_ready_trans [trans]: "same_ready s s' \<Longrightarrow> same_ready s' s'' \<Longrightarrow> same_ready s s''"
  by (simp add: same_ready_def)

lemma same_ready_dyn: "same_ready s s' \<Longrightarrow> runq_dyn (procs s' q) = runq_dyn (procs s q)"
  unfolding same_ready_def by (blast intro: off_queue_runq_dyn)

lemmas on_runq_if = if_distrib [of p_on_runq]

lemma on_runq_remove [simp]:
  "p_on_runq (procs (runq_remove p s) q) \<longleftrightarrow> p_on_runq (procs s q) \<and> q \<noteq> p"
  by (simp add: runq_remove_def Let_def on_runq_if)

lemma on_runq_enqueue [simp]:
  "p_on_runq (procs (runq_enqueue p s) q) \<longleftrightarrow> p_on_runq (procs s q) \<or> q = p"
  by (simp add: runq_enqueue_def Let_def on_runq_if)

lemma runq_more_enqueue [simp]: "runq.more (runq_enqueue p s) = runq.more s"
  by (simp add: runq_enqueue_def Let_def)

lemma runq_more_remove [simp]: "runq.more (runq_remove p s) = runq.more s"
  by (simp add: runq_remove_def Let_def)

text \<open>Moving one queued process to the bucket of its dynamic priority.\<close>

lemma rebucket_one:
  assumes R: "runq_rel s Q" and q: "q \<in> set (Q i)" and d: "nat (runq_dyn (procs s q)) = d" "d \<noteq> i"
  defines "s' \<equiv> runq_enqueue q (runq_remove q s)"
    and "Q' \<equiv> Q(i := remove1 q (Q i), d := Q d @ [q])"
  shows "runq_rel s' Q'" and "same_ready s s'"
    and "\<And>j. j \<noteq> i \<Longrightarrow> settled s Q j \<Longrightarrow> settled s' Q' j"
proof -
  let ?r = "runq_remove q s"
  have on: "p_on_runq (procs s q)" using runq_relD(3) [OF R] q by blast
  show S: "same_ready s s'"
    using on by (auto simp: same_ready_def s'_def)
  have "nat (runq_dyn (procs ?r q)) = d"
    using d off_queue_runq_dyn [OF off_queue_remove] by metis
  from runq_rel_enqueue [OF runq_rel_remove [OF R q] _ this] d
  show "runq_rel s' Q'" by (simp add: s'_def Q'_def)
  show "settled s' Q' j" if "j \<noteq> i" "settled s Q j" for j
  proof -
    have "runq_dyn (procs s q) = int d" using d runq_dyn_range [of "procs s q"] by auto
    with that show ?thesis by (auto simp: settled_def Q'_def same_ready_dyn [OF S])
  qed
qed

lemma rebucket_chain_Some:
  "runq_rel s Q \<Longrightarrow> Q i = kept @ rest \<Longrightarrow> \<forall>q \<in> set kept. runq_dyn (procs s q) = int i \<Longrightarrow>
   \<exists>s' Q'. rebucket_chain i (if rest = [] then None else Some (hd rest)) s = Some s' \<and>
     runq_rel s' Q' \<and> same_ready s s' \<and> settled s' Q' i \<and>
     (\<forall>j. j \<noteq> i \<longrightarrow> settled s Q j \<longrightarrow> settled s' Q' j)"
proof (induction rest arbitrary: s Q kept)
  case Nil
  then show ?case by (auto simp: rebucket_chain.simps settled_def)
next
  case (Cons q rest)
  note rel = runq_relD [OF Cons.prems(1)]
  have q: "q \<in> set (Q i)" and iL: "i < RUNQ_LEN" and nk: "q \<notin> set kept"
    using Cons.prems(2) rel(6) [of i] rel(2) [of i] by auto
  have nx: "p_run_next (procs s q) = (if rest = [] then None else Some (hd rest))"
    using rel(1) [OF iL] Cons.prems(2) by (auto dest: dseg_first)
  show ?case
  proof (cases "runq_dyn (procs s q) = int i")
    case True
    have "Q i = (kept @ [q]) @ rest" using Cons.prems(2) by simp
    from Cons.IH [OF Cons.prems(1) this] Cons.prems(3) True nx show ?thesis
      by (simp add: rebucket_chain.simps [of i "Some q"])
  next
    case False
    define d where "d = nat (runq_dyn (procs s q))"
    have di: "d \<noteq> i" using False runq_dyn_range [of "procs s q"] by (auto simp: d_def)
    note one = rebucket_one [OF Cons.prems(1) q d_def [symmetric] di]
    let ?s = "runq_enqueue q (runq_remove q s)" and ?Q = "Q(i := remove1 q (Q i), d := Q d @ [q])"
    have Qi: "?Q i = kept @ rest" using Cons.prems(2) nk di by (simp add: remove1_append)
    have kept: "\<forall>x \<in> set kept. runq_dyn (procs ?s x) = int i"
      using Cons.prems(3) same_ready_dyn [OF one(2)] by simp
    from Cons.IH [OF one(1) Qi kept] obtain s' Q' where
      s': "rebucket_chain i (if rest = [] then None else Some (hd rest)) ?s = Some s'"
      "runq_rel s' Q'" "same_ready ?s s'" "settled s' Q' i"
      "\<And>j. j \<noteq> i \<Longrightarrow> settled ?s ?Q j \<Longrightarrow> settled s' Q' j" by blast
    have "rebucket_chain i (Some q) s = Some s'"
      using s'(1) False nx by (simp add: rebucket_chain.simps [of i "Some q"])
    moreover have "same_ready s s'" using one(2) s'(3) by (rule same_ready_trans)
    moreover have "\<forall>j. j \<noteq> i \<longrightarrow> settled s Q j \<longrightarrow> settled s' Q' j" using one(3) s'(5) by blast
    ultimately show ?thesis using s'(2,4) by auto
  qed
qed

lemma for_buckets_append:
  "for_buckets (is @ js) f s = Option.bind (for_buckets is f s) (for_buckets js f)"
proof (induction "is" arbitrary: s)
  case (Cons i "is")
  then show ?case by (cases "f i s") simp_all
qed simp

lemma rebucket_all:
  assumes "runq_rel s Q" and "n \<le> RUNQ_LEN"
  shows "\<exists>s' Q'. for_buckets [0..<n] (\<lambda>i s. rebucket_chain i (runq_head s i) s) s = Some s' \<and>
    runq_rel s' Q' \<and> same_ready s s' \<and> (\<forall>j < n. settled s' Q' j)"
  using assms(2)
proof (induction n)
  case 0
  then show ?case using assms(1) by auto
next
  case (Suc n)
  then obtain s1 Q1 where s1: "for_buckets [0..<n] (\<lambda>i s. rebucket_chain i (runq_head s i) s) s = Some s1"
    "runq_rel s1 Q1" "same_ready s s1" "\<forall>j < n. settled s1 Q1 j" by fastforce
  have h: "runq_head s1 n = (if Q1 n = [] then None else Some (hd (Q1 n)))"
    using dseg_first [OF runq_relD(1) [OF s1(2)]] Suc.prems by simp
  obtain s2 Q2 where s2: "rebucket_chain n (runq_head s1 n) s1 = Some s2" "runq_rel s2 Q2"
    "same_ready s1 s2" "settled s2 Q2 n" "\<forall>j. j \<noteq> n \<longrightarrow> settled s1 Q1 j \<longrightarrow> settled s2 Q2 j"
    using rebucket_chain_Some [OF s1(2), of n "[]" "Q1 n"] h by auto
  have "\<forall>j < Suc n. settled s2 Q2 j" using s1(4) s2(4,5) less_Suc_eq by metis
  moreover have "same_ready s s2" using s1(3) s2(3) by (rule same_ready_trans)
  ultimately show ?case using s1(1) s2(1,2) by (auto simp: for_buckets_append)
qed

text \<open>The ageing walk touches no link, so it visits exactly the queue it starts on.\<close>

definition age :: "proc \<Rightarrow> proc" where
  "age x = x\<lparr>p_wait_time := wrap32 (p_wait_time x + 1)\<rparr>"

definition age_set :: "nat set \<Rightarrow> 'a runq_scheme \<Rightarrow> 'a runq_scheme" where
  "age_set A s = s\<lparr>procs := (\<lambda>q. if q \<in> A then age (procs s q) else procs s q)\<rparr>"

lemma age_sel [simp]:
  "p_run_next (age x) = p_run_next x" "p_run_prev (age x) = p_run_prev x"
  "p_on_runq (age x) = p_on_runq x" "p_dyn_priority (age x) = p_dyn_priority x"
  by (simp_all add: age_def)

lemma age_set_sel [simp]:
  "procs (age_set A s) = (\<lambda>q. if q \<in> A then age (procs s q) else procs s q)"
  "runq_head (age_set A s) = runq_head s" "runq_tail (age_set A s) = runq_tail s"
  "runq_bitmap (age_set A s) = runq_bitmap s" "runq.more (age_set A s) = runq.more s"
  by (simp_all add: age_set_def)

lemma age_set_links [simp]:
  "p_run_next (procs (age_set A s) q) = p_run_next (procs s q)"
  "p_run_prev (procs (age_set A s) q) = p_run_prev (procs s q)"
  "p_on_runq (procs (age_set A s) q) = p_on_runq (procs s q)"
  "p_dyn_priority (procs (age_set A s) q) = p_dyn_priority (procs s q)"
  by simp_all

lemma age_set_insert: "q \<notin> A \<Longrightarrow> age_set A (upd_proc q age s) = age_set (insert q A) s"
  by (rule runq.equality) auto

lemma age_set_Un: "A \<inter> B = {} \<Longrightarrow> age_set B (age_set A s) = age_set (A \<union> B) s"
  by (rule runq.equality) (auto simp: fun_eq_iff disjoint_iff)

lemma age_chain_Some:
  "age_chain (Some q) s = age_chain (p_run_next (procs s q)) (upd_proc q age s)"
  by (subst age_chain.simps) (simp add: age_def [abs_def])

lemma age_chain_dseg:
  "dseg (procs s) prev cur xs lst None \<Longrightarrow> distinct xs \<Longrightarrow> age_chain cur s = Some (age_set (set xs) s)"
proof (induction xs arbitrary: prev cur s)
  case Nil
  then show ?case by (simp add: age_chain.simps [of None] age_set_def)
next
  case (Cons q xs)
  have "dseg (procs (upd_proc q age s)) (Some q) (p_run_next (procs s q)) xs lst None"
    by (rule dseg_frame [of "procs s"]) (use Cons.prems in auto)
  from Cons.IH [OF this] Cons.prems show ?case
    by (simp add: age_chain_Some age_set_insert)
qed

lemma runq_rel_age_set: "runq_rel s Q \<Longrightarrow> runq_rel (age_set A s) Q"
  unfolding runq_rel_def age_set_links age_set_sel(2-4)
  by (elim conjE, intro conjI allI impI, rule dseg_frame [of "procs s"]) simp_all

lemma age_all:
  assumes R: "runq_rel s Q" and "n \<le> RUNQ_LEN"
  shows "for_buckets [0..<n] (\<lambda>i s. age_chain (runq_head s i) s) s =
    Some (age_set (\<Union>i<n. set (Q i)) s)"
  using assms(2)
proof (induction n)
  case 0
  then show ?case by (simp add: age_set_def)
next
  case (Suc n)
  let ?A = "\<Union>i<n. set (Q i)"
  note rel = runq_relD [OF runq_rel_age_set [OF R, of ?A]]
  have "age_chain (runq_head (age_set ?A s) n) (age_set ?A s) =
      Some (age_set (set (Q n)) (age_set ?A s))"
    using age_chain_dseg [OF rel(1) rel(2)] Suc.prems by simp
  moreover have "?A \<inter> set (Q n) = {}" using rel(7) by blast
  moreover have "(\<Union>i<Suc n. set (Q i)) = ?A \<union> set (Q n)" by (auto simp: less_Suc_eq)
  ultimately show ?case using Suc by (simp add: for_buckets_append age_set_Un)
qed

lemma age_ready:
  assumes R: "runq_rel s Q"
  shows "for_buckets [0..<RUNQ_LEN] (\<lambda>i s. age_chain (runq_head s i) s) s =
    Some (age_set {p. p_on_runq (procs s p)} s)"
proof -
  note rel = runq_relD [OF R]
  have "p \<in> set (Q i) \<Longrightarrow> i < RUNQ_LEN" for p i
    using rel(6) [of i] by (cases "Q i") auto
  then have "(\<Union>i<RUNQ_LEN. set (Q i)) = {p. p_on_runq (procs s p)}"
    unfolding rel(3) by blast
  then show ?thesis using age_all [OF R order_refl] by simp
qed

lemma sched_tick_Some:
  assumes R: "runq_rel s Q"
  shows "\<exists>s1 Q'. sched_tick running s = Some (case running of None \<Rightarrow> s1
        | Some r \<Rightarrow> upd_proc r (\<lambda>x. x\<lparr>p_cpu_time := wrap32 (p_cpu_time x + 1)\<rparr>) s1) \<and>
      runq_rel s1 Q' \<and> same_ready (age_set {p. p_on_runq (procs s p)} s) s1 \<and>
      (\<forall>j. settled s1 Q' j)"
proof -
  let ?s = "age_set {p. p_on_runq (procs s p)} s"
  obtain s1 Q' where s1: "for_buckets [0..<RUNQ_LEN] (\<lambda>i s. rebucket_chain i (runq_head s i) s) ?s = Some s1"
    "runq_rel s1 Q'" "same_ready ?s s1" "\<forall>j < RUNQ_LEN. settled s1 Q' j"
    using rebucket_all [OF runq_rel_age_set [OF R] order_refl] by blast
  have "\<forall>j. settled s1 Q' j"
    using s1(4) runq_relD(6) [OF s1(2)] unfolding settled_def by (metis empty_iff list.set(1))
  then show ?thesis using s1 age_ready [OF R]
    by (auto simp: sched_tick_def split: option.split)
qed

text \<open>Writing other fields of a process leaves the queues as they are.\<close>

lemma runq_rel_cong:
  assumes "runq_rel s Q"
    and "\<And>q. p_run_next (procs s' q) = p_run_next (procs s q)"
    and "\<And>q. p_run_prev (procs s' q) = p_run_prev (procs s q)"
    and "\<And>q. p_on_runq (procs s' q) = p_on_runq (procs s q)"
    and "\<And>q. p_dyn_priority (procs s' q) = p_dyn_priority (procs s q)"
    and "runq_head s' = runq_head s" "runq_tail s' = runq_tail s" "runq_bitmap s' = runq_bitmap s"
  shows "runq_rel s' Q"
proof -
  have "dseg (procs s') None (runq_head s i) (Q i) (runq_tail s i) None" if "i < RUNQ_LEN" for i
    using runq_relD(1) [OF assms(1) that] by (rule dseg_frame) (simp_all add: assms(2,3))
  then show ?thesis using assms(1) by (simp add: runq_rel_def assms(4-8))
qed

lemma runq_rel_upd_proc:
  assumes "runq_rel s Q"
    and "\<And>x. p_run_next (f x) = p_run_next x" "\<And>x. p_run_prev (f x) = p_run_prev x"
    and "\<And>x. p_on_runq (f x) = p_on_runq x" "\<And>x. p_dyn_priority (f x) = p_dyn_priority x"
  shows "runq_rel (upd_proc p f s) Q"
  by (rule runq_rel_cong [OF assms(1)]) (simp_all add: assms(2-))

lemma runq_rel_init:
  assumes "\<And>p. \<not> p_on_runq (procs s p)"
  shows "runq_rel (runq_init s) (\<lambda>_. [])"
  using assms by (simp add: runq_rel_def runq_init_def)

section \<open>The ready queue as an interface\<close>

text \<open>
  What the scheduler relies on: \<open>rel s Q\<close> says that the state holds the queues \<open>Q\<close>,
  \<open>queued s p\<close> that the process is marked as queued and \<open>prio s p\<close> the bucket it
  would be put into.
\<close>

locale ready_queue =
  fixes rel :: "'s \<Rightarrow> (nat \<Rightarrow> nat list) \<Rightarrow> bool"
    and queued :: "'s \<Rightarrow> nat \<Rightarrow> bool"
    and prio :: "'s \<Rightarrow> nat \<Rightarrow> nat"
    and enq :: "nat \<Rightarrow> 's \<Rightarrow> 's"
    and rem :: "nat \<Rightarrow> 's \<Rightarrow> 's"
    and pick :: "'s \<Rightarrow> (nat option \<times> 's) option"
  assumes queued_iff: "rel s Q \<Longrightarrow> queued s p \<longleftrightarrow> (\<exists>i. p \<in> set (Q i))"
    and distinct_queue: "rel s Q \<Longrightarrow> distinct (Q i)"
    and one_bucket: "rel s Q \<Longrightarrow> p \<in> set (Q i) \<Longrightarrow> p \<in> set (Q j) \<Longrightarrow> i = j"
    and enq_noop: "queued s p \<Longrightarrow> enq p s = s"
    and enq_rel: "rel s Q \<Longrightarrow> \<not> queued s p \<Longrightarrow>
      rel (enq p s) (Q(prio s p := Q (prio s p) @ [p]))"
    and rem_noop: "\<not> queued s p \<Longrightarrow> rem p s = s"
    and rem_rel: "rel s Q \<Longrightarrow> p \<in> set (Q i) \<Longrightarrow> rel (rem p s) (Q(i := remove1 p (Q i)))"
    and pick_none: "rel s Q \<Longrightarrow> \<forall>i. Q i = [] \<Longrightarrow> pick s = Some (None, s)"
    and pick_some: "rel s Q \<Longrightarrow> Q i \<noteq> [] \<Longrightarrow> (\<And>j. j < i \<Longrightarrow> Q j = []) \<Longrightarrow>
      pick s = Some (Some (hd (Q i)), rem (hd (Q i)) s)"
begin

definition valid :: "'s \<Rightarrow> bool" where
  "valid s \<longleftrightarrow> (\<exists>Q. rel s Q)"

lemma enq_valid: "valid s \<Longrightarrow> valid (enq p s)"
  unfolding valid_def by (cases "queued s p") (auto simp: enq_noop dest: enq_rel)

lemma rem_valid: "valid s \<Longrightarrow> valid (rem p s)"
  unfolding valid_def by (cases "queued s p") (use rem_noop queued_iff rem_rel in \<open>metis+\<close>)

lemma queued_enq:
  assumes "valid s"
  shows "queued (enq p s) q \<longleftrightarrow> queued s q \<or> q = p"
proof (cases "queued s p")
  case True
  then show ?thesis by (auto simp: enq_noop)
next
  case False
  obtain Q where Q: "rel s Q" using assms valid_def by blast
  show ?thesis
    unfolding queued_iff [OF enq_rel [OF Q False]] queued_iff [OF Q] ex_mem_upd by auto metis
qed

lemma queued_rem:
  assumes "valid s"
  shows "queued (rem p s) q \<longleftrightarrow> queued s q \<and> q \<noteq> p"
proof (cases "queued s p")
  case True
  obtain Q i where Q: "rel s Q" "p \<in> set (Q i)"
    using assms valid_def True queued_iff by metis
  have "q \<in> set (Q j) \<Longrightarrow> q = p \<Longrightarrow> j = i" for j q using Q one_bucket by blast
  then show ?thesis
    unfolding queued_iff [OF rem_rel [OF Q]] queued_iff [OF Q(1)] ex_mem_upd
    using distinct_queue [OF Q(1), of i] by auto metis
next
  case False
  then show ?thesis by (auto simp: rem_noop)
qed

text \<open>Picking never faults, returns a queued process exactly if there is one, and unqueues it.\<close>

lemma pick_total:
  assumes "valid s"
  obtains (none) "pick s = Some (None, s)" "\<And>q. \<not> queued s q"
  | (some) p where "pick s = Some (Some p, rem p s)" "queued s p"
      "\<And>q. queued (rem p s) q \<longleftrightarrow> queued s q \<and> q \<noteq> p"
proof -
  obtain Q where Q: "rel s Q" using assms valid_def by blast
  show thesis
  proof (cases "\<forall>i. Q i = []")
    case True
    then show thesis using none pick_none [OF Q] queued_iff [OF Q] by simp
  next
    case False
    define i where "i = (LEAST i. Q i \<noteq> [])"
    have i: "Q i \<noteq> []" unfolding i_def by (rule LeastI_ex) (use False in blast)
    have low: "j < i \<Longrightarrow> Q j = []" for j
      unfolding i_def using not_less_Least by blast
    have "queued s (hd (Q i))" using queued_iff [OF Q] i hd_in_set by blast
    then show thesis using some pick_some [OF Q i low] queued_rem [OF assms] by blast
  qed
qed

lemma pick_valid:
  assumes "valid s" and "pick s = Some (r, s')"
  shows "valid s'"
  using assms(1)
proof (cases rule: pick_total)
  case none
  then show ?thesis using assms by simp
next
  case (some p)
  then show ?thesis using assms rem_valid [of s p] by simp
qed

end

interpretation rq: ready_queue runq_rel "\<lambda>s p. p_on_runq (procs s p)"
  "\<lambda>s p. nat (runq_dyn (procs s p))" runq_enqueue runq_remove runq_pick
proof (unfold_locales, goal_cases)
  case (1 s Q p)
  then show ?case by (rule runq_relD(3))
next
  case (2 s Q i)
  then show ?case by (rule runq_relD(2))
next
  case (3 s Q p i j)
  then show ?case by (rule runq_relD(7))
next
  case (4 s p)
  then show ?case by (simp add: runq_enqueue_def)
next
  case (5 s Q p)
  then show ?case using runq_rel_enqueue by blast
next
  case (6 s p)
  then show ?case by (simp add: runq_remove_def)
next
  case (7 s Q p i)
  then show ?case by (rule runq_rel_remove)
next
  case (8 s Q)
  then show ?case by (rule runq_rel_pick(1))
next
  case (9 s Q i)
  then show ?case using runq_rel_pick(2) by blast
qed

section \<open>The ready queue is correct\<close>

text \<open>
  \<^verbatim>\<open>runq_enqueue\<close> appends the process to the queue of its clamped dynamic
  priority, and leaves a process that is already queued where it is.
\<close>

theorem runq_enqueue_refines:
  assumes "runq_rel s Q"
  shows "runq_rel (runq_enqueue p s)
    (if p_on_runq (procs s p) then Q
     else Q(nat (runq_dyn (procs s p)) := Q (nat (runq_dyn (procs s p))) @ [p]))"
  using assms runq_rel_enqueue by (cases "p_on_runq (procs s p)") (auto simp: rq.enq_noop)

text \<open>A concrete state: no process queued, then processes 3 and 5 of base priorities 10 and 4.\<close>

definition runq_start :: runq where
  "runq_start = runq_init \<lparr>
     procs = (\<lambda>q. zero_proc\<lparr>p_priority := (if q = 3 then 10 else if q = 5 then 4 else 0)\<rparr>),
     runq_head = (\<lambda>_. None), runq_tail = (\<lambda>_. None), runq_bitmap = 0\<rparr>"

lemma runq_start_empty: "runq_rel runq_start (\<lambda>_. [])"
  unfolding runq_start_def by (rule runq_rel_init) (simp add: zero_proc_def)

lemma runq_start_procs:
  "procs runq_start = (\<lambda>q. zero_proc\<lparr>p_priority := (if q = 3 then 10 else if q = 5 then 4 else 0)\<rparr>)"
  by (simp add: runq_start_def runq_init_def)

lemma runq_dyn_values:
  "runq_dyn (zero_proc\<lparr>p_priority := 10\<rparr>) = 10" "runq_dyn (zero_proc\<lparr>p_priority := 4\<rparr>) = 4"
  by (simp_all add: runq_dyn_def zero_proc_def RUNQ_LEN_def c_div_def wrap32_def)

lemmas runq_start_eval = runq_start_procs runq_dyn_values

definition runq_two :: runq where
  "runq_two = runq_enqueue 5 (runq_enqueue 3 runq_start)"

theorem runq_enqueue_refines_witness:
  "runq_rel (runq_enqueue 3 runq_start) ((\<lambda>_. [])(10 := [3]))"
  using runq_enqueue_refines [OF runq_start_empty, of 3]
  by (simp add: runq_start_eval zero_proc_def [THEN arg_cong, of p_on_runq])

lemma runq_one: "runq_rel (runq_enqueue 3 runq_start) ((\<lambda>_. [])(10 := [3]))"
  by (rule runq_rel_enqueue [OF runq_start_empty, THEN back_subst [of "runq_rel _"]])
     (simp_all add: runq_start_eval zero_proc_def [THEN arg_cong, of p_on_runq])

lemma runq_two_queues: "runq_rel runq_two ((\<lambda>_. [])(10 := [3], 4 := [5]))"
proof -
  let ?s = "runq_enqueue 3 runq_start"
  have off: "\<not> p_on_runq (procs ?s 5)" by (simp add: runq_start_eval zero_proc_def)
  have "runq_dyn (procs ?s 5) = runq_dyn (procs runq_start 5)"
    by (rule off_queue_runq_dyn) simp
  then have "nat (runq_dyn (procs ?s 5)) = 4" by (simp add: runq_start_eval)
  then show ?thesis using runq_rel_enqueue [OF runq_one off] by (fastforce simp add: runq_two_def)
qed

text \<open>
  \<^verbatim>\<open>runq_remove\<close> unlinks exactly the given process: the bucket holding it
  keeps its other processes in order, the other buckets are untouched, and a process that
  is not queued is left alone.
\<close>

theorem runq_remove_refines:
  assumes "runq_rel s Q"
  shows "runq_rel (runq_remove p s) (\<lambda>i. remove1 p (Q i))"
proof (cases "p_on_runq (procs s p)")
  case True
  then obtain i where i: "p \<in> set (Q i)" using runq_relD(3) [OF assms] by blast
  have "p \<in> set (Q j) \<Longrightarrow> j = i" for j using i runq_relD(7) [OF assms] by blast
  then have "(\<lambda>j. remove1 p (Q j)) = Q(i := remove1 p (Q i))"
    by (intro ext) (metis fun_upd_apply remove1_idem)
  then show ?thesis using runq_rel_remove [OF assms i] by simp
next
  case False
  then have "p \<notin> set (Q i)" for i using runq_relD(3) [OF assms] by blast
  then show ?thesis using assms False by (simp add: rq.rem_noop remove1_idem)
qed

theorem runq_remove_refines_witness:
  "runq_rel (runq_remove 3 runq_two) ((\<lambda>_. [])(4 := [5]))"
  by (rule runq_remove_refines [OF runq_two_queues, of 3, THEN back_subst [of "runq_rel _"]]) auto

text \<open>
  C2. \<^verbatim>\<open>runq_pick\<close> never dereferences a null bucket. It returns null exactly if
  no process is queued; otherwise it removes and returns the first process of the
  non-empty bucket with the \<^emph>\<open>smallest\<close> index, so every queued process waits in a
  bucket at least as large as the one served.
\<close>

theorem runq_pick_lowest:
  assumes "runq_rel s Q"
  shows "(\<forall>i. Q i = []) \<and> runq_pick s = Some (None, s) \<or>
    (\<exists>i p ps s'. Q i = p # ps \<and> runq_pick s = Some (Some p, s') \<and> runq_rel s' (Q(i := ps)) \<and>
       (\<forall>q. p_on_runq (procs s q) \<longrightarrow> int i \<le> p_dyn_priority (procs s q)))"
proof (cases "\<forall>i. Q i = []")
  case True
  then show ?thesis using runq_rel_pick(1) [OF assms] by simp
next
  case False
  define i where "i = (LEAST i. Q i \<noteq> [])"
  have i: "Q i \<noteq> []" unfolding i_def by (rule LeastI_ex) (use False in blast)
  have low: "j < i \<Longrightarrow> Q j = []" for j unfolding i_def using not_less_Least by blast
  then have "q \<in> set (Q j) \<Longrightarrow> i \<le> j" for q j by (metis empty_iff list.set(1) not_less)
  then have "\<forall>q. p_on_runq (procs s q) \<longrightarrow> int i \<le> p_dyn_priority (procs s q)"
    using runq_relD(3,4) [OF assms] by (metis of_nat_le_iff)
  then show ?thesis
    using runq_rel_pick(2) [OF assms i low] i by (metis list.exhaust_sel)
qed

theorem runq_pick_lowest_witness:
  "\<exists>s'. runq_pick runq_two = Some (Some 5, s') \<and> runq_rel s' ((\<lambda>_. [])(10 := [3]))"
proof -
  let ?Q = "(\<lambda>_. [])(10 := [3], 4 := [5]) :: nat \<Rightarrow> nat list"
  obtain i p ps s' where r: "?Q i = p # ps" "runq_pick runq_two = Some (Some p, s')"
    "runq_rel s' (?Q(i := ps))"
    "\<forall>q. p_on_runq (procs runq_two q) \<longrightarrow> int i \<le> p_dyn_priority (procs runq_two q)"
    using runq_pick_lowest [OF runq_two_queues] by (auto split: if_splits)
  have "p_on_runq (procs runq_two 5)" by (simp add: runq_two_def)
  moreover have "p_dyn_priority (procs runq_two 5) = 4"
    using runq_relD(4) [OF runq_two_queues, of 5 4] by simp
  ultimately have "i \<le> 4" using r(4) by force
  with r(1) have "i = 4" "p = 5" "ps = []" by (auto split: if_splits)
  moreover have "?Q(4 := []) = (\<lambda>_. [])(10 := [3])" by auto
  ultimately show ?thesis using r(2,3) by simp
qed

text \<open>
  C1. A clock tick ends. It adds one to the wait time of exactly the queued processes and
  one to the CPU time of the running one, changes nothing else but the queue links, queues
  and unqueues nobody, and leaves every queued process (the running one apart, whose CPU
  time changes last) in the bucket of its new dynamic priority.
\<close>

theorem sched_tick_correct:
  fixes s :: "'a runq_scheme"
  assumes "runq_rel s Q"
  shows "\<exists>s' Q'. sched_tick running s = Some s' \<and> runq_rel s' Q' \<and> (\<forall>p.
    off_queue (procs s' p) = off_queue (procs s p)\<lparr>
      p_wait_time := (if p_on_runq (procs s p) then wrap32 (p_wait_time (procs s p) + 1)
                      else p_wait_time (procs s p)),
      p_cpu_time := (if running = Some p then wrap32 (p_cpu_time (procs s p) + 1)
                     else p_cpu_time (procs s p))\<rparr> \<and>
    p_on_runq (procs s' p) = p_on_runq (procs s p) \<and>
    (running \<noteq> Some p \<longrightarrow> (\<forall>i. p \<in> set (Q' i) \<longrightarrow> runq_dyn (procs s' p) = int i)))"
proof -
  let ?c = "\<lambda>x. x\<lparr>p_cpu_time := wrap32 (p_cpu_time x + 1)\<rparr>"
  let ?a = "age_set {p. p_on_runq (procs s p)} s"
  define fin where "fin = (\<lambda>s1 :: 'a runq_scheme. case running of None \<Rightarrow> s1 | Some r \<Rightarrow> upd_proc r ?c s1)"
  obtain s1 Q' where s1: "sched_tick running s = Some (fin s1)" "runq_rel s1 Q'"
    "same_ready ?a s1" "\<forall>j. settled s1 Q' j"
    using sched_tick_Some [OF assms, of running] unfolding fin_def by blast
  have fin: "procs (fin s1) p = (if running = Some p then ?c (procs s1 p) else procs s1 p)" for p
    by (auto simp: fin_def split: option.split)
  have off: "off_queue (procs s1 p) = off_queue (procs ?a p)"
    and on: "p_on_runq (procs s1 p) = p_on_runq (procs s p)" for p
    using s1(3) by (simp_all add: same_ready_def)
  have "runq_rel (fin s1) Q'"
    using s1(2) by (auto simp: fin_def intro: runq_rel_upd_proc split: option.split)
  moreover have "off_queue (procs (fin s1) p) = off_queue (procs s p)\<lparr>
      p_wait_time := (if p_on_runq (procs s p) then wrap32 (p_wait_time (procs s p) + 1)
                      else p_wait_time (procs s p)),
      p_cpu_time := (if running = Some p then wrap32 (p_cpu_time (procs s p) + 1)
                     else p_cpu_time (procs s p))\<rparr>" for p
  proof -
    have "off_queue (?c x) = (off_queue x)\<lparr>p_cpu_time := wrap32 (p_cpu_time (off_queue x) + 1)\<rparr>" for x
      by (simp add: off_queue_def)
    then show ?thesis using off [of p] by (simp add: fin) (simp add: off_queue_def age_def)
  qed
  moreover have "runq_dyn (procs (fin s1) p) = int i" if "running \<noteq> Some p" "p \<in> set (Q' i)" for p i
    using s1(4) that by (simp add: fin settled_def)
  moreover have "p_on_runq (procs (fin s1) p) = p_on_runq (procs s p)" for p
    by (simp add: fin on)
  ultimately show ?thesis using s1(1) by blast
qed

theorem sched_tick_correct_witness:
  "\<exists>s'. sched_tick (Some 7) runq_two = Some s' \<and>
    p_wait_time (procs s' 3) = 1 \<and> p_wait_time (procs s' 7) = 0 \<and> p_cpu_time (procs s' 7) = 1"
proof -
  have w: "p_wait_time x = p_wait_time (off_queue x)" "p_cpu_time x = p_cpu_time (off_queue x)" for x
    by (simp_all add: off_queue_def)
  have off: "off_queue (procs runq_two q) = off_queue (procs runq_start q)" for q
    by (simp add: runq_two_def)
  have on: "p_on_runq (procs runq_two q) \<longleftrightarrow> q \<in> {3, 5}" for q
    by (auto simp: runq_two_def runq_start_eval zero_proc_def)
  obtain s' where s': "sched_tick (Some 7) runq_two = Some s'" "\<And>p. off_queue (procs s' p) =
    off_queue (procs runq_two p)\<lparr>
      p_wait_time := (if p_on_runq (procs runq_two p) then wrap32 (p_wait_time (procs runq_two p) + 1)
                      else p_wait_time (procs runq_two p)),
      p_cpu_time := (if Some 7 = Some p then wrap32 (p_cpu_time (procs runq_two p) + 1)
                     else p_cpu_time (procs runq_two p))\<rparr>"
    using sched_tick_correct [OF runq_two_queues, of "Some 7"] by blast
  have "p_wait_time (procs runq_start q) = 0" "p_cpu_time (procs runq_start q) = 0" for q
    by (simp_all add: runq_start_eval zero_proc_def)
  then have "p_wait_time (procs runq_two q) = 0" "p_cpu_time (procs runq_two q) = 0" for q
    using off [of q] by (metis w)+
  then show ?thesis
    using s' by (subst (1 2) w(1), subst w(2)) (simp add: on wrap32_def)
qed

end
