(* ===== verification/Blocks.thy ===== *)
theory Blocks
  imports Prelude
begin

text \<open>
  Disk blocks as the file system reads and writes them: the \<^verbatim>\<open>BSIZE\<close> data bytes of a
  buffer, with the little-endian 16- and 32-bit fields that the casts of \<^verbatim>\<open>b->data\<close> to
  the structures of \<^verbatim>\<open>kernel/include/fs.h\<close> access, and copies of byte ranges.
\<close>

type_synonym block = "nat \<Rightarrow> u8"

definition BSIZE :: nat where "BSIZE = 1024"

definition get16 :: "nat \<Rightarrow> block \<Rightarrow> u16" where
  "get16 i d = ucast (d i) OR push_bit 8 (ucast (d (i + 1)))"

definition put16 :: "nat \<Rightarrow> u16 \<Rightarrow> block \<Rightarrow> block" where
  "put16 i v d = d(i := ucast v, i + 1 := ucast (drop_bit 8 v))"

definition get32 :: "nat \<Rightarrow> block \<Rightarrow> u32" where
  "get32 i d = ucast (d i) OR push_bit 8 (ucast (d (i + 1))) OR
     push_bit 16 (ucast (d (i + 2))) OR push_bit 24 (ucast (d (i + 3)))"

definition put32 :: "nat \<Rightarrow> u32 \<Rightarrow> block \<Rightarrow> block" where
  "put32 i v d = d(i := ucast v, i + 1 := ucast (drop_bit 8 v),
     i + 2 := ucast (drop_bit 16 v), i + 3 := ucast (drop_bit 24 v))"

lemma get16_put16 [simp]: "get16 i (put16 i v d) = v"
  by (rule bit_word_eqI) (auto simp: get16_def put16_def bit_simps)

lemma get32_put32 [simp]: "get32 i (put32 i v d) = v"
proof (rule bit_word_eqI)
  fix n assume "n < LENGTH(32)"
  then show "bit (get32 i (put32 i v d)) n = bit v n"
    by (cases "n < 24"; cases "n < 16") (auto simp: get32_def put32_def bit_simps)
qed

lemma put32_outside: "j < i \<or> i + 4 \<le> j \<Longrightarrow> put32 i v d j = d j"
  by (auto simp: put32_def)

lemma put16_outside: "j < i \<or> i + 2 \<le> j \<Longrightarrow> put16 i v d j = d j"
  by (auto simp: put16_def)

lemma get32_put32_other [simp]: "i + 4 \<le> j \<or> j + 4 \<le> i \<Longrightarrow> get32 j (put32 i v d) = get32 j d"
  by (auto simp: get32_def put32_outside)

lemma get16_put16_other [simp]: "i + 2 \<le> j \<or> j + 2 \<le> i \<Longrightarrow> get16 j (put16 i v d) = get16 j d"
  by (auto simp: get16_def put16_outside)

lemma get16_put32_other [simp]: "i + 4 \<le> j \<or> j + 2 \<le> i \<Longrightarrow> get16 j (put32 i v d) = get16 j d"
  by (auto simp: get16_def put32_outside)

lemma get32_put16_other [simp]: "i + 2 \<le> j \<or> j + 4 \<le> i \<Longrightarrow> get32 j (put16 i v d) = get32 j d"
  by (auto simp: get32_def put16_outside)

text \<open>Writing a byte list at an offset, and reading one.\<close>

definition put_bytes :: "nat \<Rightarrow> u8 list \<Rightarrow> block \<Rightarrow> block" where
  "put_bytes i xs d = (\<lambda>j. if i \<le> j \<and> j < i + length xs then xs ! (j - i) else d j)"

definition get_bytes :: "nat \<Rightarrow> nat \<Rightarrow> block \<Rightarrow> u8 list" where
  "get_bytes i n d = map (\<lambda>k. d (i + k)) [0..<n]"

lemma get_put_bytes [simp]: "get_bytes i (length xs) (put_bytes i xs d) = xs"
  by (rule nth_equalityI) (simp_all add: get_bytes_def put_bytes_def)

lemma length_get_bytes [simp]: "length (get_bytes i n d) = n"
  by (simp add: get_bytes_def)

end
