(* ===== verification/Locks.thy ===== *)
theory Locks
  imports Kernel_Types
begin

text \<open>
  Spin locks and sleep locks: \<^verbatim>\<open>kernel/lock/spinlock.c\<close> and
  \<^verbatim>\<open>kernel/lock/sleeplock.c\<close>, with the per-CPU interrupt nesting of
  \<^verbatim>\<open>push_off\<close> and \<^verbatim>\<open>pop_off\<close>.

  The state holds every CPU's interrupt flag and nesting count and every lock's word and
  owner. \<^verbatim>\<open>acquire\<close> and \<^verbatim>\<open>release\<close> are split at their atomic
  instructions, so that CPUs interleave inside them; \<open>lock_step\<close> is one such step.
  \<open>None\<close> is a panic. All other components treat the section between
  \<^verbatim>\<open>acquire\<close> and \<^verbatim>\<open>release\<close> as one atomic step, which is what the
  mutual exclusion proved here justifies.
\<close>

section \<open>Spin locks\<close>

record cpu =
  c_intr :: bool
  c_noff :: int
  c_intena :: bool

record spinlock =
  locked :: bool
  lk_cpu :: "nat option"

record lockst =
  cpus :: "nat \<Rightarrow> cpu"
  lks :: "nat \<Rightarrow> spinlock"

definition upd_cpu :: "nat \<Rightarrow> (cpu \<Rightarrow> cpu) \<Rightarrow> lockst \<Rightarrow> lockst" where
  "upd_cpu c f s = s\<lparr>cpus := (cpus s)(c := f (cpus s c))\<rparr>"

definition upd_lock :: "nat \<Rightarrow> (spinlock \<Rightarrow> spinlock) \<Rightarrow> lockst \<Rightarrow> lockst" where
  "upd_lock l f s = s\<lparr>lks := (lks s)(l := f (lks s l))\<rparr>"

definition initlock :: "nat \<Rightarrow> lockst \<Rightarrow> lockst" where
  "initlock l s = upd_lock l (\<lambda>k. k\<lparr>locked := False, lk_cpu := None\<rparr>) s"

definition holding :: "nat \<Rightarrow> nat \<Rightarrow> lockst \<Rightarrow> bool" where
  "holding c l s \<longleftrightarrow> locked (lks s l) \<and> lk_cpu (lks s l) = Some c"

definition push_off :: "nat \<Rightarrow> lockst \<Rightarrow> lockst" where
  "push_off c s =
     (let old = c_intr (cpus s c)
      in upd_cpu c (\<lambda>k. k\<lparr>c_intr := False,
           c_intena := (if c_noff k = 0 then old else c_intena k),
           c_noff := c_noff k + 1\<rparr>) s)"

definition pop_off :: "nat \<Rightarrow> lockst \<Rightarrow> lockst option" where
  "pop_off c s =
     (if c_intr (cpus s c) then None
      else if c_noff (cpus s c) < 1 then None
      else Some (upd_cpu c (\<lambda>k. k\<lparr>c_noff := c_noff k - 1,
             c_intr := (c_noff k - 1 = 0 \<and> c_intena k)\<rparr>) s))"

text \<open>
  \<^verbatim>\<open>acquire\<close> up to the loop, one round of the atomic swap, and what follows it.
\<close>

definition acquire_begin :: "nat \<Rightarrow> nat \<Rightarrow> lockst \<Rightarrow> lockst option" where
  "acquire_begin c l s = (let s = push_off c s in if holding c l s then None else Some s)"

definition test_and_set :: "nat \<Rightarrow> lockst \<Rightarrow> bool \<times> lockst" where
  "test_and_set l s = (locked (lks s l), upd_lock l (\<lambda>k. k\<lparr>locked := True\<rparr>) s)"

definition acquire_end :: "nat \<Rightarrow> nat \<Rightarrow> lockst \<Rightarrow> lockst" where
  "acquire_end c l s = upd_lock l (\<lambda>k. k\<lparr>lk_cpu := Some c\<rparr>) s"

text \<open>\<^verbatim>\<open>release\<close> up to the atomic store, and the store with the \<^verbatim>\<open>pop_off\<close>.\<close>

definition release_begin :: "nat \<Rightarrow> nat \<Rightarrow> lockst \<Rightarrow> lockst option" where
  "release_begin c l s =
     (if \<not> holding c l s then None else Some (upd_lock l (\<lambda>k. k\<lparr>lk_cpu := None\<rparr>) s))"

definition release_end :: "nat \<Rightarrow> nat \<Rightarrow> lockst \<Rightarrow> lockst option" where
  "release_end c l s = pop_off c (upd_lock l (\<lambda>k. k\<lparr>locked := False\<rparr>) s)"

text \<open>Both functions when no other CPU interferes; spinning for ever is \<open>None\<close>.\<close>

definition acquire :: "nat \<Rightarrow> nat \<Rightarrow> lockst \<Rightarrow> lockst option" where
  "acquire c l s = do {
     s \<leftarrow> acquire_begin c l s;
     let (old, s) = test_and_set l s;
     if old then None else Some (acquire_end c l s)
   }"

definition release :: "nat \<Rightarrow> nat \<Rightarrow> lockst \<Rightarrow> lockst option" where
  "release c l s = Option.bind (release_begin c l s) (release_end c l)"

section \<open>Interleaved CPUs\<close>

text \<open>
  Where a CPU is, and (as history) which locks it has acquired and not begun to release.
  Between calls a CPU that holds no lock may switch interrupts on or off.
\<close>

datatype pc = Running | Spin nat | Swapped nat | Unlocking nat

record lock_sys =
  core :: lockst
  pcs :: "nat \<Rightarrow> pc"
  held :: "nat \<Rightarrow> nat set"

inductive lock_step :: "lock_sys \<Rightarrow> lock_sys \<Rightarrow> bool" where
  acquire_call: "lock_step S (S\<lparr>core := s, pcs := (pcs S)(c := Spin l)\<rparr>)"
    if "pcs S c = Running" and "acquire_begin c l (core S) = Some s"
| spin: "lock_step S (S\<lparr>core := s\<rparr>)"
    if "pcs S c = Spin l" and "test_and_set l (core S) = (True, s)"
| swap: "lock_step S (S\<lparr>core := s, pcs := (pcs S)(c := Swapped l)\<rparr>)"
    if "pcs S c = Spin l" and "test_and_set l (core S) = (False, s)"
| acquired: "lock_step S (S\<lparr>core := acquire_end c l (core S), pcs := (pcs S)(c := Running),
      held := (held S)(c := insert l (held S c))\<rparr>)"
    if "pcs S c = Swapped l"
| release_call: "lock_step S (S\<lparr>core := s, pcs := (pcs S)(c := Unlocking l),
      held := (held S)(c := held S c - {l})\<rparr>)"
    if "pcs S c = Running" and "release_begin c l (core S) = Some s"
| unlock: "lock_step S (S\<lparr>core := s, pcs := (pcs S)(c := Running)\<rparr>)"
    if "pcs S c = Unlocking l" and "release_end c l (core S) = Some s"
| irq: "lock_step S (S\<lparr>core := upd_cpu c (\<lambda>k. k\<lparr>c_intr := b\<rparr>) (core S)\<rparr>)"
    if "pcs S c = Running" and "c_noff (cpus (core S) c) = 0"

inductive_cases lock_stepE: "lock_step S S'"

definition lock_init :: "lock_sys \<Rightarrow> bool" where
  "lock_init S \<longleftrightarrow> (\<forall>c. pcs S c = Running \<and> held S c = {} \<and> c_noff (cpus (core S) c) = 0) \<and>
     (\<forall>l. \<not> locked (lks (core S) l) \<and> lk_cpu (lks (core S) l) = None)"

section \<open>The invariant\<close>

definition owns :: "lock_sys \<Rightarrow> nat \<Rightarrow> nat \<Rightarrow> bool" where
  "owns S c l \<longleftrightarrow> l \<in> held S c \<or> pcs S c = Swapped l \<or> pcs S c = Unlocking l"

definition in_call :: "pc \<Rightarrow> int" where
  "in_call p = (if p = Running then 0 else 1)"

definition lock_inv :: "lock_sys \<Rightarrow> bool" where
  "lock_inv S \<longleftrightarrow>
     (\<forall>l. locked (lks (core S) l) \<longleftrightarrow> (\<exists>c. owns S c l)) \<and>
     (\<forall>c c' l. owns S c l \<longrightarrow> owns S c' l \<longrightarrow> c = c') \<and>
     (\<forall>c l. lk_cpu (lks (core S) l) = Some c \<longleftrightarrow> l \<in> held S c) \<and>
     (\<forall>c l. l \<in> held S c \<longrightarrow> pcs S c \<notin> {Spin l, Swapped l, Unlocking l}) \<and>
     (\<forall>c. finite (held S c)) \<and>
     (\<forall>c. c_noff (cpus (core S) c) = int (card (held S c)) + in_call (pcs S c)) \<and>
     (\<forall>c. 0 < c_noff (cpus (core S) c) \<longrightarrow> \<not> c_intr (cpus (core S) c))"

lemma lock_invD:
  assumes "lock_inv S"
  shows "\<And>l. locked (lks (core S) l) \<longleftrightarrow> (\<exists>c. owns S c l)"
    and "\<And>c c' l. owns S c l \<Longrightarrow> owns S c' l \<Longrightarrow> c = c'"
    and "\<And>c l. lk_cpu (lks (core S) l) = Some c \<longleftrightarrow> l \<in> held S c"
    and "\<And>c l. l \<in> held S c \<Longrightarrow> pcs S c \<notin> {Spin l, Swapped l, Unlocking l}"
    and "\<And>c. finite (held S c)"
    and "\<And>c. c_noff (cpus (core S) c) = int (card (held S c)) + in_call (pcs S c)"
    and "\<And>c. 0 < c_noff (cpus (core S) c) \<Longrightarrow> \<not> c_intr (cpus (core S) c)"
  using assms unfolding lock_inv_def by blast+

lemma lock_invI:
  assumes "\<And>l. locked (lks (core S) l) \<longleftrightarrow> (\<exists>c. owns S c l)"
    and "\<And>c c' l. owns S c l \<Longrightarrow> owns S c' l \<Longrightarrow> c = c'"
    and "\<And>c l. lk_cpu (lks (core S) l) = Some c \<longleftrightarrow> l \<in> held S c"
    and "\<And>c l. l \<in> held S c \<Longrightarrow> pcs S c \<notin> {Spin l, Swapped l, Unlocking l}"
    and "\<And>c. finite (held S c)"
    and "\<And>c. c_noff (cpus (core S) c) = int (card (held S c)) + in_call (pcs S c)"
    and "\<And>c. 0 < c_noff (cpus (core S) c) \<Longrightarrow> \<not> c_intr (cpus (core S) c)"
  shows "lock_inv S"
  unfolding lock_inv_def using assms by blast

lemmas lock_ops = acquire_begin_def test_and_set_def acquire_end_def release_begin_def
  release_end_def push_off_def pop_off_def upd_cpu_def upd_lock_def Let_def

lemma holding_held: "lock_inv S \<Longrightarrow> holding c l (core S) \<longleftrightarrow> l \<in> held S c"
  unfolding holding_def using lock_invD(1,3) [of S] by (auto simp: owns_def)

lemma lock_inv_init: "lock_init S \<Longrightarrow> lock_inv S"
  by (auto simp: lock_init_def lock_inv_def owns_def in_call_def)

lemma lock_inv_acquire_call:
  assumes I: "lock_inv S" and r: "pcs S c = Running" and b: "acquire_begin c l (core S) = Some s"
  shows "lock_inv (S\<lparr>core := s, pcs := (pcs S)(c := Spin l)\<rparr>)" (is "lock_inv ?S")
proof -
  note inv = lock_invD [OF I]
  have s: "s = push_off c (core S)" and nh: "\<not> holding c l (core S)"
    using b by (auto simp: lock_ops holding_def split: if_splits)
  have own: "owns ?S = owns S" using r by (auto simp: owns_def fun_eq_iff)
  have nh': "l \<notin> held S c" using nh holding_held [OF I] by simp
  show ?thesis
  proof (rule lock_invI)
    show "x \<in> held ?S d \<Longrightarrow> pcs ?S d \<notin> {Spin x, Swapped x, Unlocking x}" for d x
      using inv(4) nh' by (auto split: if_splits)
    show "c_noff (cpus (core ?S) d) = int (card (held ?S d)) + in_call (pcs ?S d)" for d
      using inv(6) [of d] r by (cases "d = c") (simp_all add: s lock_ops in_call_def)
    show "0 < c_noff (cpus (core ?S) d) \<Longrightarrow> \<not> c_intr (cpus (core ?S) d)" for d
      using inv(7) [of d] by (cases "d = c") (simp_all add: s lock_ops)
    show "locked (lks (core ?S) x) \<longleftrightarrow> (\<exists>d. owns ?S d x)" for x
      unfolding own using inv(1) by (simp add: s lock_ops)
    show "owns ?S d x \<Longrightarrow> owns ?S d' x \<Longrightarrow> d = d'" for d d' x unfolding own by (rule inv(2))
  qed (use inv(3,5) in \<open>simp_all add: s lock_ops\<close>)
qed

lemma lock_inv_swap:
  assumes I: "lock_inv S" and r: "pcs S c = Spin l" and b: "test_and_set l (core S) = (False, s)"
  shows "lock_inv (S\<lparr>core := s, pcs := (pcs S)(c := Swapped l)\<rparr>)" (is "lock_inv ?S")
proof -
  note inv = lock_invD [OF I]
  have s: "s = upd_lock l (\<lambda>k. k\<lparr>locked := True\<rparr>) (core S)" and free: "\<not> locked (lks (core S) l)"
    using b by (simp_all add: test_and_set_def)
  have no: "\<not> owns S d l" for d using inv(1) free by blast
  have own: "owns ?S d x \<longleftrightarrow> owns S d x \<or> d = c \<and> x = l" for d x using r by (auto simp: owns_def)
  show ?thesis
  proof (rule lock_invI)
    show "x \<in> held ?S d \<Longrightarrow> pcs ?S d \<notin> {Spin x, Swapped x, Unlocking x}" for d x
      using inv(4) [of x d] no [of d] by (auto simp: owns_def split: if_splits)
    show "c_noff (cpus (core ?S) d) = int (card (held ?S d)) + in_call (pcs ?S d)" for d
      using inv(6) [of d] r by (cases "d = c") (simp_all add: s lock_ops in_call_def)
    show "locked (lks (core ?S) x) \<longleftrightarrow> (\<exists>d. owns ?S d x)" for x
      unfolding own using inv(1) by (auto simp: s lock_ops)
    show "owns ?S d x \<Longrightarrow> owns ?S d' x \<Longrightarrow> d = d'" for d d' x unfolding own using inv(2) no by blast
  qed (use inv(3,5,7) in \<open>simp_all add: s lock_ops\<close>)
qed

lemma lock_inv_acquired:
  assumes I: "lock_inv S" and r: "pcs S c = Swapped l"
  shows "lock_inv (S\<lparr>core := acquire_end c l (core S), pcs := (pcs S)(c := Running),
    held := (held S)(c := insert l (held S c))\<rparr>)" (is "lock_inv ?S")
proof -
  note inv = lock_invD [OF I]
  have oc: "owns S c l" using r by (simp add: owns_def)
  have other: "l \<notin> held S d" for d
    using inv(2) [OF oc, of d] inv(4) [of l c] r by (auto simp: owns_def)
  have own: "owns ?S d x \<longleftrightarrow> owns S d x" for d x using r by (auto simp: owns_def)
  show ?thesis
  proof (rule lock_invI)
    show "x \<in> held ?S d \<Longrightarrow> pcs ?S d \<notin> {Spin x, Swapped x, Unlocking x}" for d x
      using inv(4) [of x d] by (auto split: if_splits)
    show "c_noff (cpus (core ?S) d) = int (card (held ?S d)) + in_call (pcs ?S d)" for d
      using inv(5,6) [of d] r other by (cases "d = c") (simp_all add: lock_ops in_call_def)
    show "locked (lks (core ?S) x) \<longleftrightarrow> (\<exists>d. owns ?S d x)" for x
      unfolding own using inv(1) by (simp add: lock_ops)
    show "owns ?S d x \<Longrightarrow> owns ?S d' x \<Longrightarrow> d = d'" for d d' x unfolding own by (rule inv(2))
    show "lk_cpu (lks (core ?S) x) = Some d \<longleftrightarrow> x \<in> held ?S d" for d x
      using inv(3) other by (auto simp: lock_ops)
  qed (use inv(5,7) in \<open>auto simp: lock_ops\<close>)
qed

lemma lock_inv_release_call:
  assumes I: "lock_inv S" and r: "pcs S c = Running" and b: "release_begin c l (core S) = Some s"
  shows "lock_inv (S\<lparr>core := s, pcs := (pcs S)(c := Unlocking l),
    held := (held S)(c := held S c - {l})\<rparr>)" (is "lock_inv ?S")
proof -
  note inv = lock_invD [OF I]
  have s: "s = upd_lock l (\<lambda>k. k\<lparr>lk_cpu := None\<rparr>) (core S)" and h: "l \<in> held S c"
    using b holding_held [OF I] by (auto simp: release_begin_def split: if_splits)
  have oc: "owns S c l" using h by (simp add: owns_def)
  have other: "d \<noteq> c \<Longrightarrow> l \<notin> held S d" for d using inv(2) [OF oc, of d] by (auto simp: owns_def)
  have own: "owns ?S d x \<longleftrightarrow> owns S d x" for d x using r h by (auto simp: owns_def)
  show ?thesis
  proof (rule lock_invI)
    show "x \<in> held ?S d \<Longrightarrow> pcs ?S d \<notin> {Spin x, Swapped x, Unlocking x}" for d x
      using inv(4) [of x d] by (auto split: if_splits)
    show "c_noff (cpus (core ?S) d) = int (card (held ?S d)) + in_call (pcs ?S d)" for d
    proof (cases "d = c")
      case True
      have "0 < card (held S c)" using h inv(5) by (auto simp: card_gt_0_iff)
      then show ?thesis using inv(6) [of c] r h True inv(5) [of c] by (auto simp: s lock_ops in_call_def)
    qed (use inv(6) in \<open>simp add: s lock_ops\<close>)
    show "locked (lks (core ?S) x) \<longleftrightarrow> (\<exists>d. owns ?S d x)" for x
      unfolding own using inv(1) by (simp add: s lock_ops)
    show "owns ?S d x \<Longrightarrow> owns ?S d' x \<Longrightarrow> d = d'" for d d' x unfolding own by (rule inv(2))
    show "lk_cpu (lks (core ?S) x) = Some d \<longleftrightarrow> x \<in> held ?S d" for d x
      using inv(3) [of x d] other by (auto simp: s lock_ops)
  qed (use inv(5,7) in \<open>auto simp: s lock_ops\<close>)
qed

lemma lock_inv_unlock:
  assumes I: "lock_inv S" and r: "pcs S c = Unlocking l" and b: "release_end c l (core S) = Some s"
  shows "lock_inv (S\<lparr>core := s, pcs := (pcs S)(c := Running)\<rparr>)" (is "lock_inv ?S")
proof -
  note inv = lock_invD [OF I]
  have s: "pop_off c (upd_lock l (\<lambda>k. k\<lparr>locked := False\<rparr>) (core S)) = Some s"
    using b by (simp add: release_end_def)
  then have l: "lks s = (lks (core S))(l := (lks (core S) l)\<lparr>locked := False\<rparr>)"
    and c: "cpus s = (cpus (core S))(c := (cpus (core S) c)\<lparr>c_noff := c_noff (cpus (core S) c) - 1,
      c_intr := (c_noff (cpus (core S) c) - 1 = 0 \<and> c_intena (cpus (core S) c))\<rparr>)"
    by (auto simp: lock_ops split: if_splits)
  have oc: "owns S c l" using r by (simp add: owns_def)
  have own: "owns ?S d x \<longleftrightarrow> owns S d x \<and> x \<noteq> l" for d x
  proof (cases "d = c")
    case True
    have "l \<notin> held S c" using inv(4) [of l c] r by auto
    then show ?thesis using True r by (auto simp: owns_def)
  next
    case False
    then have "\<not> owns S d l" using inv(2) [OF oc, of d] by blast
    then show ?thesis using False by (auto simp: owns_def)
  qed
  show ?thesis
  proof (rule lock_invI)
    show "x \<in> held ?S d \<Longrightarrow> pcs ?S d \<notin> {Spin x, Swapped x, Unlocking x}" for d x
      using inv(4) [of x d] by (auto split: if_splits)
    show "c_noff (cpus (core ?S) d) = int (card (held ?S d)) + in_call (pcs ?S d)" for d
      using inv(6) [of d] r by (cases "d = c") (simp_all add: c in_call_def)
    show "0 < c_noff (cpus (core ?S) d) \<Longrightarrow> \<not> c_intr (cpus (core ?S) d)" for d
      using inv(7) [of d] by (cases "d = c") (simp_all add: c)
    show "locked (lks (core ?S) x) \<longleftrightarrow> (\<exists>d. owns ?S d x)" for x
      unfolding own using inv(1) by (simp add: l)
    show "owns ?S d x \<Longrightarrow> owns ?S d' x \<Longrightarrow> d = d'" for d d' x unfolding own using inv(2) by blast
  qed (use inv(3,5) in \<open>simp_all add: l\<close>)
qed

lemma lock_inv_step: "lock_step S S' \<Longrightarrow> lock_inv S \<Longrightarrow> lock_inv S'"
proof (induction rule: lock_step.induct)
  case (spin S c l s)
  then have "s = core S" by (auto simp: test_and_set_def upd_lock_def fun_upd_idem)
  then show ?case using spin by simp
next
  case (irq S c b)
  let ?S = "S\<lparr>core := upd_cpu c (\<lambda>k. k\<lparr>c_intr := b\<rparr>) (core S)\<rparr>"
  have "owns ?S = owns S" by (auto simp: owns_def fun_eq_iff)
  then show ?case using irq by (auto simp: lock_inv_def upd_cpu_def)
qed (simp_all add: lock_inv_acquire_call lock_inv_swap lock_inv_acquired lock_inv_release_call lock_inv_unlock)

lemma lock_inv_reachable: "lock_step\<^sup>*\<^sup>* S S' \<Longrightarrow> lock_init S \<Longrightarrow> lock_inv S'"
  by (induction rule: rtranclp_induct) (auto simp: lock_inv_init lock_inv_step)

section \<open>Sleep locks\<close>

record sleeplock =
  sl_locked :: bool
  sl_pid :: int

definition initsleeplock :: "sleeplock \<Rightarrow> sleeplock" where
  "initsleeplock lk = lk\<lparr>sl_locked := False, sl_pid := 0\<rparr>"

text \<open>
  One evaluation of the loop condition of \<^verbatim>\<open>acquiresleep\<close> under the inner spin lock:
  \<open>None\<close> if the caller goes to sleep on the lock, otherwise the lock taken.
\<close>

definition acquiresleep :: "int \<Rightarrow> sleeplock \<Rightarrow> sleeplock option" where
  "acquiresleep pid lk = (if sl_locked lk then None else Some (lk\<lparr>sl_locked := True, sl_pid := pid\<rparr>))"

definition releasesleep :: "sleeplock \<Rightarrow> sleeplock" where
  "releasesleep lk = lk\<lparr>sl_locked := False, sl_pid := 0\<rparr>"

definition holdingsleep :: "int \<Rightarrow> sleeplock \<Rightarrow> bool" where
  "holdingsleep pid lk \<longleftrightarrow> sl_locked lk \<and> sl_pid lk = pid"

text \<open>
  Processes around one sleep lock: outside, asleep on it, woken up and about to test it
  again, or inside. \<^verbatim>\<open>sleep\<close> gives up the inner spin lock atomically with going to
  sleep, and \<^verbatim>\<open>wakeup\<close> makes every sleeper runnable.
\<close>

datatype sl_where = Outside | Asleep | Retry | Inside

definition wake_all :: "(int \<Rightarrow> sl_where) \<Rightarrow> int \<Rightarrow> sl_where" where
  "wake_all ps = (\<lambda>p. if ps p = Asleep then Retry else ps p)"

inductive sleep_step :: "sleeplock \<times> (int \<Rightarrow> sl_where) \<Rightarrow> sleeplock \<times> (int \<Rightarrow> sl_where) \<Rightarrow> bool" where
  go_to_sleep: "sleep_step (lk, ps) (lk, ps(p := Asleep))"
    if "ps p \<in> {Outside, Retry}" and "acquiresleep p lk = None"
| take: "sleep_step (lk, ps) (lk', ps(p := Inside))"
    if "ps p \<in> {Outside, Retry}" and "acquiresleep p lk = Some lk'"
| leave: "sleep_step (lk, ps) (releasesleep lk, wake_all (ps(p := Outside)))"
    if "ps p = Inside"

definition sleep_inv :: "sleeplock \<times> (int \<Rightarrow> sl_where) \<Rightarrow> bool" where
  "sleep_inv = (\<lambda>(lk, ps).
     (\<forall>p. ps p = Inside \<longrightarrow> holdingsleep p lk) \<and>
     (sl_locked lk \<longrightarrow> ps (sl_pid lk) = Inside) \<and>
     ((\<exists>p. ps p = Asleep) \<longrightarrow> sl_locked lk))"

lemma sleep_inv_step: "sleep_step S S' \<Longrightarrow> sleep_inv S \<Longrightarrow> sleep_inv S'"
proof (induction rule: sleep_step.induct)
  case (go_to_sleep ps p lk)
  then have l: "sl_locked lk" by (simp add: acquiresleep_def split: if_splits)
  then have "ps (sl_pid lk) = Inside" using go_to_sleep(3) by (simp add: sleep_inv_def)
  then have "sl_pid lk \<noteq> p" using go_to_sleep(1) by auto
  then show ?case using go_to_sleep(3) l by (simp add: sleep_inv_def)
next
  case (take ps p lk lk')
  then have l: "\<not> sl_locked lk" "lk' = lk\<lparr>sl_locked := True, sl_pid := p\<rparr>"
    by (simp_all add: acquiresleep_def split: if_splits)
  then have "ps q \<noteq> Inside" for q using take(3) by (auto simp: sleep_inv_def holdingsleep_def)
  then show ?case using l by (simp add: sleep_inv_def holdingsleep_def)
next
  case (leave ps p lk)
  then have "\<forall>q. ps q = Inside \<longrightarrow> q = p" by (auto simp: sleep_inv_def holdingsleep_def)
  then show ?case by (auto simp: sleep_inv_def holdingsleep_def releasesleep_def wake_all_def split: if_splits)
qed

lemma sleep_inv_reachable:
  "sleep_step\<^sup>*\<^sup>* S S' \<Longrightarrow> sleep_inv S \<Longrightarrow> sleep_inv S'"
  by (induction rule: rtranclp_induct) (auto intro: sleep_inv_step)

section \<open>Locks are correct\<close>

text \<open>
  C9. Spin locks exclude each other: however the CPUs interleave inside
  \<^verbatim>\<open>acquire\<close> and \<^verbatim>\<open>release\<close>, no two CPUs hold the same lock, the owner field
  names the holder, and a CPU that holds a lock has its interrupts off.
\<close>

theorem spinlock_mutual_exclusion:
  assumes "lock_init S" and "lock_step\<^sup>*\<^sup>* S S'" and "l \<in> held S' c"
  shows "(l \<in> held S' d \<longleftrightarrow> d = c) \<and> holding c l (core S') \<and> \<not> c_intr (cpus (core S') c)"
proof -
  have I: "lock_inv S'" using lock_inv_reachable [OF assms(2,1)] .
  note inv = lock_invD [OF I]
  have "0 < card (held S' c)" using assms(3) inv(5) by (auto simp: card_gt_0_iff)
  then have "\<not> c_intr (cpus (core S') c)" using inv(6,7) [of c] by (simp add: in_call_def)
  moreover have "l \<in> held S' d \<longleftrightarrow> d = c" using inv(2) [of c l d] assms(3) by (auto simp: owns_def)
  ultimately show ?thesis using assms(3) holding_held [OF I] by blast
qed

definition lock_start :: lock_sys where
  "lock_start = \<lparr>core = \<lparr>cpus = (\<lambda>_. \<lparr>c_intr = True, c_noff = 0, c_intena = False\<rparr>),
     lks = (\<lambda>_. \<lparr>locked = False, lk_cpu = None\<rparr>)\<rparr>, pcs = (\<lambda>_. Running), held = (\<lambda>_. {})\<rparr>"

text \<open>CPU 0 acquires lock 7.\<close>

lemma lock_start_run:
  "\<exists>S. lock_step\<^sup>*\<^sup>* lock_start S \<and> held S 0 = {7} \<and> pcs S 0 = Running"
proof -
  define s1 where "s1 = push_off 0 (core lock_start)"
  define S1 where "S1 = lock_start\<lparr>core := s1, pcs := (pcs lock_start)(0 := Spin 7)\<rparr>"
  define s2 where "s2 = snd (test_and_set 7 s1)"
  define S2 where "S2 = S1\<lparr>core := s2, pcs := (pcs S1)(0 := Swapped 7)\<rparr>"
  define S3 where "S3 = S2\<lparr>core := acquire_end 0 7 (core S2), pcs := (pcs S2)(0 := Running),
    held := (held S2)(0 := insert 7 (held S2 0))\<rparr>"
  have "lock_step lock_start S1" unfolding S1_def
    by (rule acquire_call) (simp_all add: lock_start_def s1_def lock_ops holding_def)
  moreover have "lock_step S1 S2" unfolding S2_def
    by (rule swap) (simp_all add: S1_def s1_def s2_def lock_start_def lock_ops)
  moreover have "lock_step S2 S3" unfolding S3_def by (rule acquired) (simp add: S2_def)
  ultimately have "lock_step\<^sup>*\<^sup>* lock_start S3" by (meson converse_rtranclp_into_rtranclp rtranclp.rtrancl_refl)
  moreover have "held S3 0 = {7}" "pcs S3 0 = Running"
    by (simp_all add: S3_def S2_def S1_def lock_start_def)
  ultimately show ?thesis by blast
qed

lemma lock_start_init: "lock_init lock_start"
  by (simp add: lock_init_def lock_start_def)

theorem spinlock_mutual_exclusion_witness:
  "\<exists>S :: lock_sys. held S 0 = {7} \<and> held S 1 \<inter> {7} = {} \<and> holding 0 7 (core S)"
proof -
  obtain S where S: "lock_step\<^sup>*\<^sup>* lock_start S" "held S 0 = {7}" using lock_start_run by blast
  then show ?thesis
    using spinlock_mutual_exclusion [OF lock_start_init S(1), of 7 0 1] by (intro exI [of _ S]) simp
qed

text \<open>
  The panics of the lock code, in every reachable state: \<^verbatim>\<open>acquire\<close> panics
  exactly on a lock its own CPU already holds, \<^verbatim>\<open>release\<close> panics exactly on a lock
  its CPU does not hold, and the \<^verbatim>\<open>pop_off\<close> at the end of a release never panics.
\<close>

theorem spinlock_panics:
  assumes "lock_init S" and "lock_step\<^sup>*\<^sup>* S S'"
  shows "(acquire_begin c l (core S') = None \<longleftrightarrow> l \<in> held S' c) \<and>
    (release_begin c l (core S') = None \<longleftrightarrow> l \<notin> held S' c) \<and>
    (pcs S' c = Unlocking l \<longrightarrow> release_end c l (core S') \<noteq> None)"
proof -
  have I: "lock_inv S'" using lock_inv_reachable [OF assms(2,1)] .
  note inv = lock_invD [OF I]
  have "holding c l (push_off c (core S')) = holding c l (core S')"
    by (simp add: holding_def lock_ops)
  then have "acquire_begin c l (core S') = None \<longleftrightarrow> l \<in> held S' c"
    using holding_held [OF I] by (simp add: acquire_begin_def)
  moreover have "release_begin c l (core S') = None \<longleftrightarrow> l \<notin> held S' c"
    using holding_held [OF I] by (simp add: release_begin_def)
  moreover have "release_end c l (core S') \<noteq> None" if "pcs S' c = Unlocking l"
    using inv(6,7) [of c] that by (simp add: lock_ops in_call_def)
  ultimately show ?thesis by blast
qed

theorem spinlock_panics_witness:
  "\<exists>S. lock_step\<^sup>*\<^sup>* lock_start S \<and> acquire_begin 0 7 (core S) = None"
proof -
  obtain S where S: "lock_step\<^sup>*\<^sup>* lock_start S" "held S 0 = {7}" using lock_start_run by blast
  then show ?thesis using spinlock_panics [OF lock_start_init S(1), of 0 7] by auto
qed

definition pop_n :: "nat \<Rightarrow> nat \<Rightarrow> lockst \<Rightarrow> lockst option" where
  "pop_n c n s = ((\<lambda>o'. Option.bind o' (pop_off c)) ^^ n) (Some s)"

lemma push_n_state:
  assumes "c_noff (cpus s c) = 0" and "0 < n"
  shows "cpus ((push_off c ^^ n) s) c = (cpus s c)\<lparr>c_intr := False, c_noff := int n, c_intena := c_intr (cpus s c)\<rparr>"
  using assms(2)
proof (induction n)
  case (Suc n)
  then show ?case using assms(1) by (cases "n = 0") (simp_all add: push_off_def upd_cpu_def)
qed simp

lemma pop_n_Suc: "pop_n c (Suc n) s = Option.bind (pop_off c s) (pop_n c n)"
proof -
  let ?f = "\<lambda>o'. Option.bind o' (pop_off c)"
  have none: "(?f ^^ n) None = None" by (induction n) simp_all
  have "pop_n c (Suc n) s = (?f ^^ n) (?f (Some s))" unfolding pop_n_def funpow_Suc_right by simp
  then show ?thesis by (cases "pop_off c s") (simp_all add: none pop_n_def)
qed

lemma pop_n_state:
  assumes "c_noff (cpus s c) = int n" and "0 < n" and "\<not> c_intr (cpus s c)"
  shows "\<exists>s'. pop_n c n s = Some s' \<and> cpus s' c = (cpus s c)\<lparr>c_noff := 0, c_intr := c_intena (cpus s c)\<rparr>"
  using assms
proof (induction n arbitrary: s)
  case (Suc n)
  let ?s = "upd_cpu c (\<lambda>k. k\<lparr>c_noff := c_noff k - 1, c_intr := (c_noff k - 1 = 0 \<and> c_intena k)\<rparr>) s"
  have p: "pop_off c s = Some ?s" using Suc.prems by (simp add: pop_off_def)
  show ?case
  proof (cases "n = 0")
    case True
    then show ?thesis using Suc.prems p by (simp add: pop_n_Suc upd_cpu_def) (simp add: pop_n_def)
  next
    case False
    then have "\<exists>s'. pop_n c n ?s = Some s' \<and> cpus s' c = (cpus ?s c)\<lparr>c_noff := 0, c_intr := c_intena (cpus ?s c)\<rparr>"
      using Suc.prems by (intro Suc.IH) (simp_all add: upd_cpu_def)
    then show ?thesis using p by (auto simp: pop_n_Suc upd_cpu_def)
  qed
qed simp

text \<open>
  \<^verbatim>\<open>push_off\<close> and \<^verbatim>\<open>pop_off\<close> are matched: after any number of nested
  \<^verbatim>\<open>push_off\<close>s the same number of \<^verbatim>\<open>pop_off\<close>s succeeds and restores the
  interrupt flag and the nesting count the CPU started with; in between interrupts are off.
\<close>

theorem push_pop_matched:
  assumes "c_noff (cpus s c) = 0"
  shows "\<exists>s'. pop_n c n ((push_off c ^^ n) s) = Some s' \<and>
    c_intr (cpus s' c) = c_intr (cpus s c) \<and> c_noff (cpus s' c) = 0 \<and>
    (n = 0 \<or> \<not> c_intr (cpus ((push_off c ^^ n) s) c))"
proof (cases "n = 0")
  case True
  then show ?thesis using assms by (simp add: pop_n_def)
next
  case False
  then show ?thesis
    using push_n_state [OF assms, of n] pop_n_state [of "(push_off c ^^ n) s" c n] by auto
qed

theorem push_pop_matched_witness:
  "\<exists>s'. pop_n 2 3 ((push_off 2 ^^ 3) (core lock_start)) = Some s' \<and> c_intr (cpus s' 2)"
  using push_pop_matched [of "core lock_start" 2 3] by (auto simp: lock_start_def)

text \<open>
  C10. Sleep locks: from a free lock with every process outside, at most one process is ever
  inside and \<^verbatim>\<open>holdingsleep\<close> answers yes exactly for that one; and no wake-up is lost,
  a process is asleep on the lock only while the lock is taken.
\<close>

theorem sleeplock_exclusion:
  assumes "\<not> sl_locked lk" and "\<And>p. ps p = Outside" and "sleep_step\<^sup>*\<^sup>* (lk, ps) (lk', ps')"
  shows "(ps' p = Inside \<longleftrightarrow> holdingsleep p lk') \<and> (ps' p = Asleep \<longrightarrow> sl_locked lk') \<and>
    (ps' p = Inside \<longrightarrow> ps' q = Inside \<longrightarrow> p = q)"
proof -
  have "sleep_inv (lk, ps)" using assms(1,2) by (simp add: sleep_inv_def)
  from sleep_inv_reachable [OF assms(3) this] show ?thesis
    by (auto simp: sleep_inv_def holdingsleep_def)
qed

theorem sleeplock_exclusion_witness:
  "\<exists>lk ps. sleep_step\<^sup>*\<^sup>* (\<lparr>sl_locked = False, sl_pid = 0\<rparr>, \<lambda>_. Outside) (lk, ps) \<and>
    ps 3 = Inside \<and> holdingsleep 3 lk"
proof -
  let ?lk = "\<lparr>sl_locked = False, sl_pid = 0\<rparr>" and ?lk' = "\<lparr>sl_locked = True, sl_pid = 3\<rparr>"
  have "sleep_step (?lk, \<lambda>_. Outside) (?lk', (\<lambda>_. Outside)(3 := Inside))"
    by (rule take) (simp_all add: acquiresleep_def)
  then have r: "sleep_step\<^sup>*\<^sup>* (?lk, \<lambda>_. Outside) (?lk', (\<lambda>_. Outside)(3 := Inside))" by blast
  have "holdingsleep 3 ?lk'"
    using sleeplock_exclusion [of ?lk "\<lambda>_. Outside" ?lk' "(\<lambda>_. Outside)(3 := Inside)" 3 3] r by simp
  then show ?thesis using r
    by (intro exI [of _ ?lk'] exI [of _ "(\<lambda>_. Outside)(3 := Inside)"] conjI) simp_all
qed

end
