(* ===== verification/Bio.thy ===== *)
theory Bio
  imports Blocks Locks
begin

text \<open>
  The buffer cache, \<^verbatim>\<open>kernel/filesystem/bio.c\<close>. The cache holds
  \<^verbatim>\<open>NBUF\<close> buffers in \<^verbatim>\<open>NBUCKET\<close> hash buckets. A bucket is the list of
  buffer numbers met from its head node along \<^verbatim>\<open>next\<close>; unlinking a buffer removes its
  number and inserting behind the head puts it in front. The disk is the block contents that
  \<^verbatim>\<open>virtio_disk_rw\<close> transfers; the driver ignores the device number. A buffer
  operation holds the bucket lock and is one atomic step.
\<close>

section \<open>The cache\<close>

definition NBUCKET :: nat where "NBUCKET = 13"

definition HASH :: "nat \<Rightarrow> nat" where
  "HASH n = n mod NBUCKET"

record buf =
  b_valid :: bool
  b_dev :: nat
  b_blockno :: nat
  b_lock :: sleeplock
  b_refcnt :: u32
  b_data :: block
  b_timestamp :: u32

record bcache =
  bufs :: "nat \<Rightarrow> buf"
  buckets :: "nat \<Rightarrow> nat list"
  disk :: "nat \<Rightarrow> block"
  bticks :: u32

definition upd_buf :: "nat \<Rightarrow> (buf \<Rightarrow> buf) \<Rightarrow> bcache \<Rightarrow> bcache" where
  "upd_buf i f s = s\<lparr>bufs := (bufs s)(i := f (bufs s i))\<rparr>"

definition insert_head :: "nat \<Rightarrow> nat \<Rightarrow> bcache \<Rightarrow> bcache" where
  "insert_head k b s = s\<lparr>buckets := (buckets s)(k := b # buckets s k)\<rparr>"

definition unlink_buf :: "nat \<Rightarrow> nat \<Rightarrow> bcache \<Rightarrow> bcache" where
  "unlink_buf k b s = s\<lparr>buckets := (buckets s)(k := remove1 b (buckets s k))\<rparr>"

definition binit :: "bcache \<Rightarrow> bcache" where
  "binit s =
     fold (\<lambda>b s. insert_head 0 b (upd_buf b (\<lambda>x. x\<lparr>b_lock := initsleeplock (b_lock x)\<rparr>) s))
       [0..<NBUF] (s\<lparr>buckets := (\<lambda>i. if i < NBUCKET then [] else buckets s i)\<rparr>)"

text \<open>The search for a cached block, and the scan of one bucket for the oldest unused buffer.\<close>

definition lookup_buf :: "nat \<Rightarrow> nat \<Rightarrow> bcache \<Rightarrow> nat option" where
  "lookup_buf dev blockno s =
     find (\<lambda>b. b_dev (bufs s b) = dev \<and> b_blockno (bufs s b) = blockno) (buckets s (HASH blockno))"

definition lru_better :: "bcache \<Rightarrow> nat \<Rightarrow> nat option \<Rightarrow> nat option" where
  "lru_better s tmp b =
     (if b_refcnt (bufs s tmp) = 0 \<and>
         (case b of None \<Rightarrow> True | Some b \<Rightarrow> b_timestamp (bufs s tmp) < b_timestamp (bufs s b))
      then Some tmp else b)"

definition lru_scan :: "bcache \<Rightarrow> nat list \<Rightarrow> nat option" where
  "lru_scan s xs = fold (lru_better s) xs None"

text \<open>The walk over the buckets from the block's own one; the first bucket with a candidate wins.\<close>

fun find_unused :: "bcache \<Rightarrow> nat list \<Rightarrow> (nat \<times> nat) option" where
  "find_unused s [] = None"
| "find_unused s (i # is) =
     (case lru_scan s (buckets s i) of Some b \<Rightarrow> Some (i, b) | None \<Rightarrow> find_unused s is)"

definition bucket_order :: "nat \<Rightarrow> nat list" where
  "bucket_order bid = map (\<lambda>k. (bid + k) mod NBUCKET) [0..<NBUCKET]"

definition recycle :: "nat \<Rightarrow> nat \<Rightarrow> nat \<Rightarrow> nat \<Rightarrow> bcache \<Rightarrow> bcache" where
  "recycle i b dev blockno s =
     (let bid = HASH blockno;
          s = (if i \<noteq> bid then insert_head bid b (unlink_buf i b s) else s)
      in upd_buf b (\<lambda>x. x\<lparr>b_dev := dev, b_blockno := blockno, b_valid := False, b_refcnt := 1,
           b_timestamp := bticks s\<rparr>) s)"

text \<open>
  \<^verbatim>\<open>bget\<close> without its final \<^verbatim>\<open>acquiresleep\<close>; \<open>None\<close> is the panic
  \<^verbatim>\<open>"bget: no buffers"\<close>.
\<close>

definition bget_ref :: "nat \<Rightarrow> nat \<Rightarrow> bcache \<Rightarrow> (nat \<times> bcache) option" where
  "bget_ref dev blockno s =
     (case lookup_buf dev blockno s of
        Some b \<Rightarrow> Some (b, upd_buf b (\<lambda>x. x\<lparr>b_refcnt := b_refcnt x + 1, b_timestamp := bticks s\<rparr>) s)
      | None \<Rightarrow>
          (case find_unused s (bucket_order (HASH blockno)) of
             None \<Rightarrow> None
           | Some (i, b) \<Rightarrow> Some (b, recycle i b dev blockno s)))"

text \<open>
  Taking the buffer's sleep lock. \<open>Waits b s\<close>: another process holds buffer \<open>b\<close>, the
  caller sleeps in \<^verbatim>\<open>acquiresleep\<close> with the reference already counted.
\<close>

datatype bget_result = NoBuffers | Waits nat bcache | Got nat bcache

definition lock_buf :: "int \<Rightarrow> nat \<Rightarrow> bcache \<Rightarrow> bget_result" where
  "lock_buf pid b s =
     (case acquiresleep pid (b_lock (bufs s b)) of
        None \<Rightarrow> Waits b s
      | Some lk \<Rightarrow> Got b (upd_buf b (\<lambda>x. x\<lparr>b_lock := lk\<rparr>) s))"

definition bget :: "int \<Rightarrow> nat \<Rightarrow> nat \<Rightarrow> bcache \<Rightarrow> bget_result" where
  "bget pid dev blockno s =
     (case bget_ref dev blockno s of None \<Rightarrow> NoBuffers | Some (b, s) \<Rightarrow> lock_buf pid b s)"

definition disk_read :: "nat \<Rightarrow> bcache \<Rightarrow> bcache" where
  "disk_read b s = upd_buf b (\<lambda>x. x\<lparr>b_data := disk s (b_blockno x)\<rparr>) s"

definition disk_write :: "nat \<Rightarrow> bcache \<Rightarrow> bcache" where
  "disk_write b s = s\<lparr>disk := (disk s)(b_blockno (bufs s b) := b_data (bufs s b))\<rparr>"

definition fill_buf :: "nat \<Rightarrow> bcache \<Rightarrow> bcache" where
  "fill_buf b s =
     (if b_valid (bufs s b) then s
      else upd_buf b (\<lambda>x. x\<lparr>b_valid := True\<rparr>) (disk_read b s))"

definition bread :: "int \<Rightarrow> nat \<Rightarrow> nat \<Rightarrow> bcache \<Rightarrow> bget_result" where
  "bread pid dev blockno s =
     (case bget pid dev blockno s of
        NoBuffers \<Rightarrow> NoBuffers
      | Waits b s \<Rightarrow> Waits b s
      | Got b s \<Rightarrow> Got b (fill_buf b s))"

definition bwrite :: "int \<Rightarrow> nat \<Rightarrow> bcache \<Rightarrow> bcache option" where
  "bwrite pid b s = (if \<not> holdingsleep pid (b_lock (bufs s b)) then None else Some (disk_write b s))"

definition brelse :: "int \<Rightarrow> nat \<Rightarrow> bcache \<Rightarrow> bcache option" where
  "brelse pid b s =
     (if \<not> holdingsleep pid (b_lock (bufs s b)) then None
      else Some (upd_buf b (\<lambda>x. x\<lparr>b_lock := releasesleep (b_lock x), b_refcnt := b_refcnt x - 1,
             b_timestamp := bticks s\<rparr>) s))"

definition bpin :: "nat \<Rightarrow> bcache \<Rightarrow> bcache" where
  "bpin b s = upd_buf b (\<lambda>x. x\<lparr>b_refcnt := b_refcnt x + 1\<rparr>) s"

definition bunpin :: "nat \<Rightarrow> bcache \<Rightarrow> bcache" where
  "bunpin b s = upd_buf b (\<lambda>x. x\<lparr>b_refcnt := b_refcnt x - 1\<rparr>) s"

section \<open>The invariant\<close>

text \<open>
  Every buffer is in exactly one bucket, the one of its block number, and no block of a
  device is cached twice. The device number 0 marks buffers that were never assigned.
\<close>

definition cache_inv :: "bcache \<Rightarrow> bool" where
  "cache_inv s \<longleftrightarrow>
     (\<forall>i < NBUCKET. distinct (buckets s i) \<and>
        (\<forall>b \<in> set (buckets s i). b < NBUF \<and> HASH (b_blockno (bufs s b)) = i)) \<and>
     (\<forall>b < NBUF. b \<in> set (buckets s (HASH (b_blockno (bufs s b))))) \<and>
     (\<forall>b < NBUF. \<forall>c < NBUF. b_dev (bufs s b) \<noteq> 0 \<longrightarrow> b_dev (bufs s b) = b_dev (bufs s c) \<longrightarrow>
        b_blockno (bufs s b) = b_blockno (bufs s c) \<longrightarrow> b = c)"

lemma cache_invD:
  assumes "cache_inv s"
  shows "\<And>i. i < NBUCKET \<Longrightarrow> distinct (buckets s i)"
    and "\<And>i b. i < NBUCKET \<Longrightarrow> b \<in> set (buckets s i) \<Longrightarrow> b < NBUF"
    and "\<And>i b. i < NBUCKET \<Longrightarrow> b \<in> set (buckets s i) \<Longrightarrow> HASH (b_blockno (bufs s b)) = i"
    and "\<And>b. b < NBUF \<Longrightarrow> b \<in> set (buckets s (HASH (b_blockno (bufs s b))))"
    and "\<And>b c. b < NBUF \<Longrightarrow> c < NBUF \<Longrightarrow> b_dev (bufs s b) \<noteq> 0 \<Longrightarrow>
      b_dev (bufs s b) = b_dev (bufs s c) \<Longrightarrow> b_blockno (bufs s b) = b_blockno (bufs s c) \<Longrightarrow> b = c"
  using assms unfolding cache_inv_def by blast+

lemma HASH_less [simp]: "HASH n < NBUCKET"
  by (simp add: HASH_def NBUCKET_def)

lemma upd_buf_sel [simp]:
  "bufs (upd_buf i f s) = (bufs s)(i := f (bufs s i))" "buckets (upd_buf i f s) = buckets s"
  "disk (upd_buf i f s) = disk s" "bticks (upd_buf i f s) = bticks s"
  by (simp_all add: upd_buf_def)

lemma insert_head_sel [simp]:
  "bufs (insert_head k b s) = bufs s"
  "buckets (insert_head k b s) = (buckets s)(k := b # buckets s k)"
  "disk (insert_head k b s) = disk s" "bticks (insert_head k b s) = bticks s"
  by (simp_all add: insert_head_def)

lemma unlink_buf_sel [simp]:
  "bufs (unlink_buf k b s) = bufs s"
  "buckets (unlink_buf k b s) = (buckets s)(k := remove1 b (buckets s k))"
  "disk (unlink_buf k b s) = disk s" "bticks (unlink_buf k b s) = bticks s"
  by (simp_all add: unlink_buf_def)

lemma find_Some_set: "find P xs = Some x \<Longrightarrow> x \<in> set xs \<and> P x"
  by (induction xs) (auto split: if_splits)

text \<open>A hit is found exactly if the block is cached.\<close>

lemma lookup_buf_Some:
  assumes "lookup_buf dev blockno s = Some b"
  shows "b \<in> set (buckets s (HASH blockno))" and "b_dev (bufs s b) = dev"
    and "b_blockno (bufs s b) = blockno"
  using find_Some_set [OF assms [unfolded lookup_buf_def]] by simp_all

lemma lookup_buf_None:
  assumes "cache_inv s" and "lookup_buf dev blockno s = None" and "b < NBUF"
  shows "\<not> (b_dev (bufs s b) = dev \<and> b_blockno (bufs s b) = blockno)"
proof
  assume h: "b_dev (bufs s b) = dev \<and> b_blockno (bufs s b) = blockno"
  then have "b \<in> set (buckets s (HASH blockno))" using cache_invD(4) [OF assms(1,3)] by simp
  then show False using assms(2) h by (auto simp: lookup_buf_def find_None_iff)
qed

text \<open>The scan returns an unused buffer of the list with the smallest time stamp.\<close>

lemma lru_better_le:
  assumes "b0 = Some c \<or> c = x \<and> b_refcnt (bufs s x) = 0"
  shows "\<exists>d. lru_better s x b0 = Some d \<and> b_timestamp (bufs s d) \<le> b_timestamp (bufs s c)"
  using assms by (auto simp: lru_better_def split: option.splits)

lemma lru_fold:
  "fold (lru_better s) xs b0 = Some b \<Longrightarrow>
   (Some b = b0 \<or> b \<in> set xs \<and> b_refcnt (bufs s b) = 0) \<and>
   (\<forall>c \<in> set xs. b_refcnt (bufs s c) = 0 \<longrightarrow> b_timestamp (bufs s b) \<le> b_timestamp (bufs s c)) \<and>
   (\<forall>c. b0 = Some c \<longrightarrow> b_timestamp (bufs s b) \<le> b_timestamp (bufs s c))"
proof (induction xs arbitrary: b0)
  case (Cons x xs)
  let ?b1 = "lru_better s x b0"
  from Cons.prems have f: "fold (lru_better s) xs ?b1 = Some b" by simp
  note ih = Cons.IH [OF f]
  have cand: "\<And>c. ?b1 = Some c \<Longrightarrow> c = x \<and> b_refcnt (bufs s x) = 0 \<or> b0 = Some c"
    by (auto simp: lru_better_def split: if_splits option.splits)
  have le: "b_timestamp (bufs s b) \<le> b_timestamp (bufs s c)"
    if c: "b0 = Some c \<or> c = x \<and> b_refcnt (bufs s x) = 0" for c
  proof -
    obtain d where d: "?b1 = Some d" "b_timestamp (bufs s d) \<le> b_timestamp (bufs s c)"
      using lru_better_le [OF c] by auto
    have "b_timestamp (bufs s b) \<le> b_timestamp (bufs s d)" using ih d(1) by simp
    then show ?thesis using d(2) by (rule order_trans)
  qed
  have "Some b = b0 \<or> b \<in> set (x # xs) \<and> b_refcnt (bufs s b) = 0" using ih cand [of b] by auto
  moreover have "\<forall>c \<in> set (x # xs). b_refcnt (bufs s c) = 0 \<longrightarrow>
      b_timestamp (bufs s b) \<le> b_timestamp (bufs s c)" using ih le by simp
  ultimately show ?case using le by blast
qed simp

lemma lru_scan_Some:
  assumes "lru_scan s xs = Some b"
  shows "b \<in> set xs" and "b_refcnt (bufs s b) = 0"
    and "\<And>c. c \<in> set xs \<Longrightarrow> b_refcnt (bufs s c) = 0 \<Longrightarrow> b_timestamp (bufs s b) \<le> b_timestamp (bufs s c)"
  using lru_fold [OF assms [unfolded lru_scan_def]] by auto

lemma lru_fold_None: "fold (lru_better s) xs b0 = None \<Longrightarrow> b0 = None \<and> (\<forall>c \<in> set xs. b_refcnt (bufs s c) \<noteq> 0)"
proof (induction xs arbitrary: b0)
  case (Cons x xs)
  then have "lru_better s x b0 = None" "\<forall>c \<in> set xs. b_refcnt (bufs s c) \<noteq> 0" by auto
  then show ?case by (auto simp: lru_better_def split: if_splits option.splits)
qed simp

lemma find_unused_Some:
  assumes "find_unused s is = Some (i, b)"
  shows "i \<in> set is" and "lru_scan s (buckets s i) = Some b"
  using assms by (induction "is") (auto split: option.splits)

lemma find_unused_None:
  "find_unused s is = None \<Longrightarrow> i \<in> set is \<Longrightarrow> b \<in> set (buckets s i) \<Longrightarrow> b_refcnt (bufs s b) \<noteq> 0"
  by (induction "is") (auto split: option.splits simp: lru_scan_def dest: lru_fold_None)

lemma bucket_order_set: "set (bucket_order bid) = {..<NBUCKET}"
proof -
  have "i \<in> set (bucket_order bid)" if "i < 13" for i
  proof -
    have "i = (bid + (i + 13 * bid - bid) mod 13) mod 13" using that by (simp add: mod_add_right_eq)
    moreover have "(i + 13 * bid - bid) mod 13 < 13" by simp
    ultimately show ?thesis unfolding bucket_order_def NBUCKET_def by force
  qed
  then show ?thesis by (auto simp: NBUCKET_def bucket_order_def)
qed

text \<open>The contents of a block as the kernel sees them: the cached ones, else those of the disk.\<close>

definition view :: "nat \<Rightarrow> nat \<Rightarrow> bcache \<Rightarrow> block" where
  "view dev n s =
     (case lookup_buf dev n s of
        Some b \<Rightarrow> if b_valid (bufs s b) then b_data (bufs s b) else disk s n
      | None \<Rightarrow> disk s n)"

text \<open>Buffers nobody refers to agree with the disk, so that reusing them loses nothing.\<close>

definition clean :: "bcache \<Rightarrow> bool" where
  "clean s \<longleftrightarrow> (\<forall>b < NBUF. b_refcnt (bufs s b) = 0 \<longrightarrow> b_valid (bufs s b) \<longrightarrow>
     b_data (bufs s b) = disk s (b_blockno (bufs s b)))"

abbreviation key :: "bcache \<Rightarrow> nat \<Rightarrow> nat \<times> nat" where
  "key s b \<equiv> (b_dev (bufs s b), b_blockno (bufs s b))"

lemma lookup_buf_iff:
  assumes "cache_inv s" and "dev \<noteq> 0"
  shows "lookup_buf dev n s = Some b \<longleftrightarrow> b < NBUF \<and> key s b = (dev, n)"
proof
  assume l: "lookup_buf dev n s = Some b"
  show "b < NBUF \<and> key s b = (dev, n)"
    using cache_invD(2) [OF assms(1) HASH_less lookup_buf_Some(1) [OF l]] lookup_buf_Some(2,3) [OF l] by simp
next
  assume b: "b < NBUF \<and> key s b = (dev, n)"
  then obtain c where c: "lookup_buf dev n s = Some c"
    using lookup_buf_None [OF assms(1)] by (cases "lookup_buf dev n s") auto
  have "c = b"
    using cache_invD(5) [OF assms(1), of c b] cache_invD(2) [OF assms(1) HASH_less lookup_buf_Some(1) [OF c]]
      lookup_buf_Some(2,3) [OF c] b assms(2) by simp
  then show "lookup_buf dev n s = Some b" using c by simp
qed

lemma view_cached:
  assumes "cache_inv s" and "b < NBUF" and "key s b = (dev, n)" and "dev \<noteq> 0"
  shows "view dev n s = (if b_valid (bufs s b) then b_data (bufs s b) else disk s n)"
  using assms lookup_buf_iff [of s dev n b] by (simp add: view_def)

lemma view_uncached:
  assumes "cache_inv s" and "\<And>b. b < NBUF \<Longrightarrow> key s b \<noteq> (dev, n)" and "dev \<noteq> 0"
  shows "view dev n s = disk s n"
  using assms lookup_buf_iff [of s dev n] by (auto simp: view_def split: option.splits)

text \<open>Updates that keep the key of a buffer keep the invariant.\<close>

lemma cache_inv_upd_buf:
  assumes "\<And>x. b_dev (f x) = b_dev x" and "\<And>x. b_blockno (f x) = b_blockno x"
  shows "cache_inv (upd_buf b f s) \<longleftrightarrow> cache_inv s"
proof -
  have d: "b_dev (bufs (upd_buf b f s) c) = b_dev (bufs s c)"
    and n: "b_blockno (bufs (upd_buf b f s) c) = b_blockno (bufs s c)" for c
    using assms by simp_all
  show ?thesis unfolding cache_inv_def d n by simp
qed

lemma lookup_upd_buf:
  assumes "\<And>x. b_dev (f x) = b_dev x" and "\<And>x. b_blockno (f x) = b_blockno x"
  shows "lookup_buf dev n (upd_buf b f s) = lookup_buf dev n s"
  using assms unfolding lookup_buf_def by (intro find_cong) auto

lemma view_upd_buf:
  assumes "\<And>x. b_dev (f x) = b_dev x" and "\<And>x. b_blockno (f x) = b_blockno x"
    and "\<And>x. b_valid (f x) = b_valid x" and "\<And>x. b_data (f x) = b_data x"
  shows "view dev n (upd_buf b f s) = view dev n s"
  using assms by (simp add: view_def lookup_upd_buf split: option.splits)

lemmas buf_upd_frame = cache_inv_upd_buf lookup_upd_buf view_upd_buf

lemma recycle_sel:
  "bufs (recycle i b dev n s) = (bufs s)(b := (bufs s b)\<lparr>b_dev := dev, b_blockno := n, b_valid := False,
     b_refcnt := 1, b_timestamp := bticks s\<rparr>)"
  "buckets (recycle i b dev n s) =
     (if i \<noteq> HASH n then (buckets s)(i := remove1 b (buckets s i), HASH n := b # buckets s (HASH n))
      else buckets s)"
  "disk (recycle i b dev n s) = disk s"
  by (auto simp: recycle_def Let_def)

lemma recycle_inv:
  assumes inv: "cache_inv s" and b: "b \<in> set (buckets s i)" and i: "i < NBUCKET"
    and new: "\<And>c. c < NBUF \<Longrightarrow> key s c \<noteq> (dev, n)"
  shows "cache_inv (recycle i b dev n s)"
proof -
  note D = cache_invD [OF inv]
  let ?t = "recycle i b dev n s"
  have bn: "b < NBUF" and hb: "HASH (b_blockno (bufs s b)) = i" using D(2,3) [OF i b] by auto
  have other: "b \<notin> set (buckets s k)" if "k < NBUCKET" "k \<noteq> i" for k
    using D(3) [OF that(1)] that(2) hb by blast
  have sets: "set (buckets ?t k) =
      (if k = HASH n then insert b (set (buckets s k)) else set (buckets s k) - {b})"
    if k: "k < NBUCKET" for k
    using other [OF k] other [OF HASH_less, of n] b D(1) [OF i] by (auto simp: recycle_sel)
  have dist: "distinct (buckets ?t k)" if k: "k < NBUCKET" for k
    using D(1) [OF k] D(1) [OF i] other [OF HASH_less, of n] by (auto simp: recycle_sel)
  show ?thesis unfolding cache_inv_def
  proof (intro conjI allI impI)
    fix k assume k: "k < NBUCKET"
    show "distinct (buckets ?t k)" by (rule dist [OF k])
    show "\<forall>c \<in> set (buckets ?t k). c < NBUF \<and> HASH (b_blockno (bufs ?t c)) = k"
      using D(2,3) [OF k] bn by (auto simp: sets [OF k] recycle_sel(1))
  next
    fix c assume c: "c < NBUF"
    show "c \<in> set (buckets ?t (HASH (b_blockno (bufs ?t c))))"
      using D(4) [OF c] by (auto simp: sets [OF HASH_less] recycle_sel(1))
  next
    fix c d assume "c < NBUF" "d < NBUF" "b_dev (bufs ?t c) \<noteq> 0" "b_dev (bufs ?t c) = b_dev (bufs ?t d)"
      "b_blockno (bufs ?t c) = b_blockno (bufs ?t d)"
    then show "c = d" using D(5) [of c d] new [of c] new [of d]
      by (simp add: recycle_sel(1) split: if_splits)
  qed
qed

lemma recycle_view:
  assumes inv: "cache_inv s" and cl: "clean s" and b: "b \<in> set (buckets s i)" and i: "i < NBUCKET"
    and z: "b_refcnt (bufs s b) = 0" and new: "\<And>c. c < NBUF \<Longrightarrow> key s c \<noteq> (dev, n)" and d: "d \<noteq> 0"
  shows "view d m (recycle i b dev n s) = view d m s"
proof -
  let ?t = "recycle i b dev n s"
  have inv': "cache_inv ?t" by (rule recycle_inv [OF inv b i new])
  have bn: "b < NBUF" by (rule cache_invD(2) [OF inv i b])
  show ?thesis
  proof (cases "\<exists>c < NBUF. key s c = (d, m)")
    case True
    then obtain c where c: "c < NBUF" "key s c = (d, m)" by blast
    show ?thesis
    proof (cases "c = b")
      case True
      have un: "key ?t e \<noteq> (d, m)" if e: "e < NBUF" for e
      proof (cases "e = b")
        case e1: True
        have "(d, m) \<noteq> (dev, n)" using new [OF c(1)] unfolding c(2) .
        then show ?thesis using e1 by (auto simp: recycle_sel(1))
      next
        case e2: False
        then have "key s e \<noteq> (d, m)" using cache_invD(5) [OF inv e bn] c(2) True d by auto
        then show ?thesis using e2 by (simp add: recycle_sel(1))
      qed
      have cb: "b_valid (bufs s b) \<longrightarrow> b_data (bufs s b) = disk s (b_blockno (bufs s b))"
        using cl bn z unfolding clean_def by blast
      have "view d m s = disk s m"
        unfolding view_cached [OF inv c(1,2) d] using cb c(2) True by simp
      then show ?thesis using view_uncached [OF inv' un d] by (simp add: recycle_sel(3))
    next
      case False
      then have k: "key ?t c = (d, m)" using c by (simp add: recycle_sel(1))
      show ?thesis using view_cached [OF inv c(1,2) d] view_cached [OF inv' c(1) k d] False
        by (simp add: recycle_sel)
    qed
  next
    case False
    then have un: "view d m s = disk s m" using view_uncached [OF inv _ d] by blast
    show ?thesis
    proof (cases "(d, m) = (dev, n)")
      case True
      then have "key ?t b = (d, m)" by (simp add: recycle_sel(1))
      then show ?thesis using view_cached [OF inv' bn _ d] un by (simp add: recycle_sel)
    next
      case F: False
      have "key ?t e \<noteq> (d, m)" if "e < NBUF" for e
        using False F that by (auto simp: recycle_sel(1))
      then show ?thesis using view_uncached [OF inv' _ d] un by (simp add: recycle_sel)
    qed
  qed
qed

text \<open>The reference \<^verbatim>\<open>bget\<close> returns, before the sleep lock is taken.\<close>

lemma bget_ref_cases:
  assumes inv: "cache_inv s" and g: "bget_ref dev n s = Some (b, t)"
  obtains (hit) "b < NBUF" "key s b = (dev, n)"
      "t = upd_buf b (\<lambda>x. x\<lparr>b_refcnt := b_refcnt x + 1, b_timestamp := bticks s\<rparr>) s"
  | (miss) i where "i < NBUCKET" "lru_scan s (buckets s i) = Some b" "t = recycle i b dev n s"
      "\<And>c. c < NBUF \<Longrightarrow> key s c \<noteq> (dev, n)" "b < NBUF" "b_refcnt (bufs s b) = 0"
proof (cases "lookup_buf dev n s")
  case None
  with g obtain i where i: "find_unused s (bucket_order (HASH n)) = Some (i, b)" "t = recycle i b dev n s"
    by (auto simp: bget_ref_def split: option.splits)
  have ib: "i < NBUCKET" using find_unused_Some(1) [OF i(1)] by (simp add: bucket_order_set)
  have l: "lru_scan s (buckets s i) = Some b" by (rule find_unused_Some(2) [OF i(1)])
  have k: "key s c \<noteq> (dev, n)" if "c < NBUF" for c using lookup_buf_None [OF inv None that] by simp
  show ?thesis using miss [OF ib l i(2) k cache_invD(2) [OF inv ib lru_scan_Some(1) [OF l]] lru_scan_Some(2) [OF l]] by blast
next
  case (Some c)
  with g have e: "c = b" "t = upd_buf b (\<lambda>x. x\<lparr>b_refcnt := b_refcnt x + 1, b_timestamp := bticks s\<rparr>) s"
    by (auto simp: bget_ref_def)
  show ?thesis using hit [OF _ _ e(2)] cache_invD(2) [OF inv HASH_less lookup_buf_Some(1) [OF Some]]
    lookup_buf_Some(2,3) [OF Some] e(1) by simp
qed

lemma bget_ref_ok:
  assumes inv: "cache_inv s" and g: "bget_ref dev n s = Some (b, t)"
  shows "cache_inv t" and "b < NBUF" and "key t b = (dev, n)" and "disk t = disk s"
    and "\<And>d m. clean s \<Longrightarrow> d \<noteq> 0 \<Longrightarrow> view d m t = view d m s"
    and "\<And>c. c \<noteq> b \<Longrightarrow> bufs t c = bufs s c"
    and "b_refcnt (bufs s b) \<noteq> 0 \<Longrightarrow> bufs t b = (bufs s b)\<lparr>b_refcnt := b_refcnt (bufs s b) + 1, b_timestamp := bticks s\<rparr>"
    and "b_lock (bufs t b) = b_lock (bufs s b)"
proof -
  have "cache_inv t \<and> b < NBUF \<and> key t b = (dev, n) \<and> disk t = disk s \<and>
    (\<forall>d m. clean s \<longrightarrow> d \<noteq> 0 \<longrightarrow> view d m t = view d m s) \<and> (\<forall>c. c \<noteq> b \<longrightarrow> bufs t c = bufs s c) \<and>
    (b_refcnt (bufs s b) \<noteq> 0 \<longrightarrow> bufs t b = (bufs s b)\<lparr>b_refcnt := b_refcnt (bufs s b) + 1, b_timestamp := bticks s\<rparr>) \<and>
    b_lock (bufs t b) = b_lock (bufs s b)"
    using inv g
  proof (cases rule: bget_ref_cases)
    case hit
    then show ?thesis using inv by (simp add: buf_upd_frame)
  next
    case (miss i)
    note bi = lru_scan_Some(1) [OF miss(2)]
    show ?thesis
      using recycle_inv [OF inv bi miss(1,4)] recycle_view [OF inv _ bi miss(1,6,4)] miss
      by (simp add: recycle_sel)
  qed
  then show "cache_inv t" and "b < NBUF" and "key t b = (dev, n)" and "disk t = disk s"
    and "\<And>d m. clean s \<Longrightarrow> d \<noteq> 0 \<Longrightarrow> view d m t = view d m s"
    and "\<And>c. c \<noteq> b \<Longrightarrow> bufs t c = bufs s c"
    and "b_refcnt (bufs s b) \<noteq> 0 \<Longrightarrow> bufs t b = (bufs s b)\<lparr>b_refcnt := b_refcnt (bufs s b) + 1, b_timestamp := bticks s\<rparr>"
    and "b_lock (bufs t b) = b_lock (bufs s b)" by blast+
qed

lemma bread_Got:
  assumes "bread pid dev n s = Got b t"
  obtains u where "bget_ref dev n s = Some (b, u)" and "\<not> sl_locked (b_lock (bufs u b))"
    and "t = fill_buf b (upd_buf b (\<lambda>x. x\<lparr>b_lock := b_lock x\<lparr>sl_locked := True, sl_pid := pid\<rparr>\<rparr>) u)"
proof -
  from assms obtain c u where r: "bget_ref dev n s = Some (c, u)" and l: "bread pid dev n s = (case lock_buf pid c u of
      NoBuffers \<Rightarrow> NoBuffers | Waits b s \<Rightarrow> Waits b s | Got b s \<Rightarrow> Got b (fill_buf b s))"
    by (cases "bget_ref dev n s") (auto simp: bread_def bget_def)
  show ?thesis
  proof (cases "sl_locked (b_lock (bufs u c))")
    case True
    then show ?thesis using l assms by (simp add: lock_buf_def acquiresleep_def)
  next
    case False
    then show ?thesis using that r l assms by (simp add: lock_buf_def acquiresleep_def upd_buf_def)
  qed
qed

lemma cache_inv_disk [simp]: "cache_inv (s\<lparr>disk := d\<rparr>) = cache_inv s"
  by (simp add: cache_inv_def)

lemma lookup_buf_disk [simp]: "lookup_buf dev n (s\<lparr>disk := d\<rparr>) = lookup_buf dev n s"
  by (simp add: lookup_buf_def)

lemma fill_buf_sel [simp]:
  "disk (fill_buf b s) = disk s" "buckets (fill_buf b s) = buckets s"
  "c \<noteq> b \<Longrightarrow> bufs (fill_buf b s) c = bufs s c" "b_valid (bufs (fill_buf b s) b)"
  "b_refcnt (bufs (fill_buf b s) c) = b_refcnt (bufs s c)" "key (fill_buf b s) c = key s c"
  "b_lock (bufs (fill_buf b s) c) = b_lock (bufs s c)"
  "b_data (bufs (fill_buf b s) b) =
     (if b_valid (bufs s b) then b_data (bufs s b) else disk s (b_blockno (bufs s b)))"
  by (auto simp: fill_buf_def disk_read_def)

lemma fill_buf_inv [simp]: "cache_inv (fill_buf b s) = cache_inv s"
  by (simp add: fill_buf_def disk_read_def buf_upd_frame)

lemma fill_buf_view [simp]:
  assumes "cache_inv s" and "b < NBUF" and "d \<noteq> 0"
  shows "view d m (fill_buf b s) = view d m s"
proof (cases "\<exists>c < NBUF. key s c = (d, m)")
  case True
  then obtain c where c: "c < NBUF" "key s c = (d, m)" by blast
  then have c': "key (fill_buf b s) c = (d, m)" by simp
  show ?thesis using view_cached [OF _ c(1) c' assms(3)] view_cached [OF assms(1) c assms(3)] assms(1) c(2)
    by (cases "c = b") auto
next
  case False
  then show ?thesis using view_uncached [of s d m] view_uncached [of "fill_buf b s" d m] assms by auto
qed

lemma bread_facts:
  assumes "cache_inv s" and "clean s" and "dev \<noteq> 0" and "bread pid dev n s = Got b t"
  shows "b < NBUF" and "key t b = (dev, n)" and "b_valid (bufs t b)"
    and "b_data (bufs t b) = view dev n s" and "holdingsleep pid (b_lock (bufs t b))"
    and "cache_inv t" and "disk t = disk s" and "d \<noteq> 0 \<Longrightarrow> view d m t = view d m s"
    and "b_refcnt (bufs s c) \<noteq> 0 \<Longrightarrow> key t c = key s c"
proof -
  obtain u where u: "bget_ref dev n s = Some (b, u)"
    and t: "t = fill_buf b (upd_buf b (\<lambda>x. x\<lparr>b_lock := b_lock x\<lparr>sl_locked := True, sl_pid := pid\<rparr>\<rparr>) u)"
    using bread_Got [OF assms(4)] by blast
  note ok = bget_ref_ok [OF assms(1) u]
  show "b < NBUF" and k: "key t b = (dev, n)" and "b_valid (bufs t b)" and "disk t = disk s"
    and "holdingsleep pid (b_lock (bufs t b))" and inv: "cache_inv t"
    using ok by (simp_all add: t buf_upd_frame holdingsleep_def)
  show v: "view d m t = view d m s" if "d \<noteq> 0" for d m
    using ok(1,2) ok(5) [OF assms(2) that] that by (simp add: t buf_upd_frame)
  show "b_data (bufs t b) = view dev n s"
    using view_cached [OF inv ok(2) k assms(3)] v [OF assms(3), of n] by (simp add: t)
  show "key t c = key s c" if "b_refcnt (bufs s c) \<noteq> 0"
    using ok(6) [of c] ok(7) that by (cases "c = b") (simp_all add: t)
qed

text \<open>
  C11. The buffer cache is transparent: \<^verbatim>\<open>bread\<close> returns, locked by the caller, a buffer
  for the requested block whose data are the contents of that block as the kernel sees them,
  it changes the contents of no block, whichever buffer it reuses, and it keeps the invariant
  that a block is cached at most once. A buffer somebody refers to is never reused.
\<close>

theorem bread_transparent:
  assumes "cache_inv s" and "clean s" and "dev \<noteq> 0" and "bread pid dev n s = Got b t"
  shows "b < NBUF \<and> key t b = (dev, n) \<and> b_valid (bufs t b) \<and>
    b_data (bufs t b) = view dev n s \<and> holdingsleep pid (b_lock (bufs t b)) \<and>
    cache_inv t \<and> disk t = disk s \<and> (\<forall>d m. d \<noteq> 0 \<longrightarrow> view d m t = view d m s) \<and>
    (\<forall>c. b_refcnt (bufs s c) \<noteq> 0 \<longrightarrow> key t c = key s c)"
  using bread_facts [OF assms] by blast

lemma bucket_order_own: "bucket_order (HASH n) = HASH n # tl (bucket_order (HASH n))"
  by (simp add: bucket_order_def NBUCKET_def upt_rec HASH_def)

lemma find_unused_own:
  assumes "cache_inv s" and f: "find_unused s (bucket_order (HASH n)) = Some (i, b)"
    and "c < NBUF" and "HASH (b_blockno (bufs s c)) = HASH n" and "b_refcnt (bufs s c) = 0"
  shows "i = HASH n"
proof -
  have "c \<in> set (buckets s (HASH n))" using cache_invD(4) [OF assms(1,3)] assms(4) by simp
  then have "lru_scan s (buckets s (HASH n)) \<noteq> None"
    using lru_fold_None [of s "buckets s (HASH n)" None] assms(5) unfolding lru_scan_def by blast
  then show ?thesis using f by (subst (asm) bucket_order_own) auto
qed

lemma bget_choice:
  assumes "cache_inv s"
  shows "bget pid dev n s = NoBuffers \<longleftrightarrow>
      (\<forall>b < NBUF. key s b \<noteq> (dev, n) \<and> b_refcnt (bufs s b) \<noteq> 0)"
    and "bget_ref dev n s = Some (b, t) \<Longrightarrow> key s b \<noteq> (dev, n) \<Longrightarrow>
      b_refcnt (bufs s b) = 0 \<and>
      (\<forall>c < NBUF. HASH (b_blockno (bufs s c)) = HASH (b_blockno (bufs s b)) \<longrightarrow> b_refcnt (bufs s c) = 0 \<longrightarrow>
         b_timestamp (bufs s b) \<le> b_timestamp (bufs s c)) \<and>
      ((\<exists>c < NBUF. HASH (b_blockno (bufs s c)) = HASH n \<and> b_refcnt (bufs s c) = 0) \<longrightarrow>
         HASH (b_blockno (bufs s b)) = HASH n)"
proof -
  note D = cache_invD [OF assms]
  have nb: "bget pid dev n s = NoBuffers \<longleftrightarrow> bget_ref dev n s = None"
    by (auto simp: bget_def lock_buf_def split: option.splits)
  show "bget pid dev n s = NoBuffers \<longleftrightarrow> (\<forall>b < NBUF. key s b \<noteq> (dev, n) \<and> b_refcnt (bufs s b) \<noteq> 0)"
  proof
    assume "bget pid dev n s = NoBuffers"
    then have l: "lookup_buf dev n s = None" and f: "find_unused s (bucket_order (HASH n)) = None"
      using nb by (auto simp: bget_ref_def split: option.splits)
    show "\<forall>b < NBUF. key s b \<noteq> (dev, n) \<and> b_refcnt (bufs s b) \<noteq> 0"
      using lookup_buf_None [OF assms l] find_unused_None [OF f _ D(4)] by (simp add: bucket_order_set)
  next
    assume a: "\<forall>b < NBUF. key s b \<noteq> (dev, n) \<and> b_refcnt (bufs s b) \<noteq> 0"
    have "bget_ref dev n s = None"
    proof (rule ccontr)
      assume "bget_ref dev n s \<noteq> None"
      then obtain b t where g: "bget_ref dev n s = Some (b, t)" by auto
      show False using assms g by (cases rule: bget_ref_cases) (use a in auto)
    qed
    then show "bget pid dev n s = NoBuffers" using nb by simp
  qed
  show "b_refcnt (bufs s b) = 0 \<and>
      (\<forall>c < NBUF. HASH (b_blockno (bufs s c)) = HASH (b_blockno (bufs s b)) \<longrightarrow> b_refcnt (bufs s c) = 0 \<longrightarrow>
         b_timestamp (bufs s b) \<le> b_timestamp (bufs s c)) \<and>
      ((\<exists>c < NBUF. HASH (b_blockno (bufs s c)) = HASH n \<and> b_refcnt (bufs s c) = 0) \<longrightarrow>
         HASH (b_blockno (bufs s b)) = HASH n)"
    if g: "bget_ref dev n s = Some (b, t)" and k: "key s b \<noteq> (dev, n)"
  proof -
    have l: "lookup_buf dev n s = None" using g k lookup_buf_Some(2,3)
      by (cases "lookup_buf dev n s") (auto simp: bget_ref_def)
    then obtain i where f: "find_unused s (bucket_order (HASH n)) = Some (i, b)"
      using g by (auto simp: bget_ref_def split: option.splits)
    have i: "i < NBUCKET" using find_unused_Some(1) [OF f] by (simp add: bucket_order_set)
    note L = lru_scan_Some [OF find_unused_Some(2) [OF f]]
    have hb: "HASH (b_blockno (bufs s b)) = i" by (rule D(3) [OF i L(1)])
    have "c \<in> set (buckets s i)" if "c < NBUF" "HASH (b_blockno (bufs s c)) = i" for c
      using D(4) [OF that(1)] that(2) by simp
    then show ?thesis using L(2) L(3) hb find_unused_own [OF assms f] by auto
  qed
qed

text \<open>
  \<^verbatim>\<open>bget\<close> panics with \<^verbatim>\<open>"bget: no buffers"\<close> exactly if the block is
  not cached and every one of the \<^verbatim>\<open>NBUF\<close> buffers is referred to. On a miss it takes an
  unused buffer that is the least recently used of its bucket, and it takes one of the block's
  own bucket if that has an unused one.
\<close>

theorem bget_no_buffers:
  assumes "cache_inv s"
  shows "(bget pid dev n s = NoBuffers \<longleftrightarrow>
      (\<forall>b < NBUF. key s b \<noteq> (dev, n) \<and> b_refcnt (bufs s b) \<noteq> 0)) \<and>
    (\<forall>b t. bget_ref dev n s = Some (b, t) \<longrightarrow> key s b \<noteq> (dev, n) \<longrightarrow>
      b_refcnt (bufs s b) = 0 \<and>
      (\<forall>c < NBUF. HASH (b_blockno (bufs s c)) = HASH (b_blockno (bufs s b)) \<longrightarrow> b_refcnt (bufs s c) = 0 \<longrightarrow>
         b_timestamp (bufs s b) \<le> b_timestamp (bufs s c)) \<and>
      ((\<exists>c < NBUF. HASH (b_blockno (bufs s c)) = HASH n \<and> b_refcnt (bufs s c) = 0) \<longrightarrow>
         HASH (b_blockno (bufs s b)) = HASH n))"
  using bget_choice [OF assms] by blast

section \<open>The life of the cache\<close>

lemma binit_fold:
  "n \<le> NBUF \<Longrightarrow> cs = fold (\<lambda>b s. insert_head 0 b (upd_buf b (\<lambda>x. x\<lparr>b_lock := initsleeplock (b_lock x)\<rparr>) s)) [0..<n] s \<Longrightarrow>
   buckets cs = (buckets s)(0 := rev [0..<n] @ buckets s 0) \<and> disk cs = disk s \<and>
   bufs cs = (\<lambda>b. if b < n then (bufs s b)\<lparr>b_lock := initsleeplock (b_lock (bufs s b))\<rparr> else bufs s b)"
proof (induction n arbitrary: cs)
  case (Suc n)
  then show ?case by (auto simp: fun_eq_iff)
qed (simp add: fun_eq_iff)

lemma binit_sel:
  "buckets (binit s) = (\<lambda>i. if i = 0 then rev [0..<NBUF] else if i < NBUCKET then [] else buckets s i)"
  "bufs (binit s) = (\<lambda>b. if b < NBUF then (bufs s b)\<lparr>b_lock := initsleeplock (b_lock (bufs s b))\<rparr> else bufs s b)"
  "disk (binit s) = disk s"
  using binit_fold [OF order_refl refl, of "s\<lparr>buckets := \<lambda>i. if i < NBUCKET then [] else buckets s i\<rparr>"]
  by (auto simp: binit_def fun_eq_iff NBUCKET_def)

text \<open>The static buffers are all zero before \<^verbatim>\<open>binit\<close>.\<close>

definition zeroed :: "bcache \<Rightarrow> bool" where
  "zeroed s \<longleftrightarrow> (\<forall>b < NBUF. key s b = (0, 0) \<and> \<not> b_valid (bufs s b) \<and> b_refcnt (bufs s b) = 0)"

lemma binit_inv: "zeroed s \<Longrightarrow> cache_inv (binit s) \<and> clean (binit s)"
  by (auto simp: cache_inv_def clean_def zeroed_def binit_sel HASH_def)

text \<open>
  The operations the kernel applies to the cache, in any order. The holder of a buffer may
  also change its data, and a process that waited for a buffer gets it later.
\<close>

inductive bio_step :: "bcache \<Rightarrow> bcache \<Rightarrow> bool" where
  step_bread: "dev \<noteq> 0 \<Longrightarrow> bread pid dev n s = Got b t \<Longrightarrow> bio_step s t"
| step_wait: "dev \<noteq> 0 \<Longrightarrow> bread pid dev n s = Waits b t \<Longrightarrow> bio_step s t"
| step_wakeup: "lock_buf pid b s = Got b t \<Longrightarrow> bio_step s (fill_buf b t)"
| step_write_data: "holdingsleep pid (b_lock (bufs s b)) \<Longrightarrow> bio_step s (upd_buf b (\<lambda>x. x\<lparr>b_data := d\<rparr>) s)"
| step_bwrite: "bwrite pid b s = Some t \<Longrightarrow> bio_step s t"
| step_brelse: "brelse pid b s = Some t \<Longrightarrow> bio_step s t"
| step_bpin: "bio_step s (bpin b s)"
| step_bunpin: "bio_step s (bunpin b s)"
| step_tick: "bio_step s (s\<lparr>bticks := bticks s + 1\<rparr>)"

inductive_cases bio_stepE: "bio_step s t"

lemma bread_Waits:
  assumes "bread pid dev n s = Waits b t"
  shows "bget_ref dev n s = Some (b, t)"
  using assms by (auto simp: bread_def bget_def lock_buf_def split: option.splits bget_result.splits prod.splits)

lemma cache_inv_bticks [simp]: "cache_inv (s\<lparr>bticks := n\<rparr>) = cache_inv s"
  by (simp add: cache_inv_def)

lemma bio_step_inv:
  assumes "bio_step s t" and "cache_inv s"
  shows "cache_inv t"
  using assms
proof cases
  case (step_bread dev pid n b)
  obtain u where "bget_ref dev n s = Some (b, u)"
    "t = fill_buf b (upd_buf b (\<lambda>x. x\<lparr>b_lock := b_lock x\<lparr>sl_locked := True, sl_pid := pid\<rparr>\<rparr>) u)"
    using bread_Got [OF step_bread(2)] by blast
  then show ?thesis using bget_ref_ok(1) [OF assms(2)] by (simp add: buf_upd_frame)
next
  case (step_wait dev pid n b)
  then show ?thesis using bget_ref_ok(1) [OF assms(2) bread_Waits] by blast
next
  case (step_wakeup pid b u)
  then show ?thesis using assms(2) by (auto simp: lock_buf_def buf_upd_frame split: option.splits)
qed (use assms(2) in \<open>auto simp: bwrite_def brelse_def bpin_def bunpin_def disk_write_def buf_upd_frame
      split: if_splits\<close>)

lemma cached_once:
  assumes "zeroed s" and "bio_step\<^sup>*\<^sup>* (binit s) t" and "b < NBUF" and "c < NBUF"
    and "key t b = (dev, n)" and "key t c = (dev, n)" and "dev \<noteq> 0"
  shows "b = c" and "lookup_buf dev n t = Some b"
proof -
  have inv: "cache_inv t" using assms(2)
    by (induction rule: rtranclp_induct) (use binit_inv [OF assms(1)] bio_step_inv in auto)
  show "b = c" using cache_invD(5) [OF inv assms(3,4)] assms(5-7) by simp
  show "lookup_buf dev n t = Some b" using lookup_buf_iff [OF inv assms(7)] assms(3,5) by simp
qed

text \<open>
  C12. However the kernel uses the cache after \<^verbatim>\<open>binit\<close>, every buffer stays in the bucket
  of its block and no block of a device is ever held by two buffers, so the sleep lock of a
  buffer serialises all accesses to its block.
\<close>

theorem block_cached_once:
  assumes "zeroed s" and "bio_step\<^sup>*\<^sup>* (binit s) t" and "b < NBUF" and "c < NBUF"
    and "key t b = (dev, n)" and "key t c = (dev, n)" and "dev \<noteq> 0"
  shows "b = c \<and> lookup_buf dev n t = Some b"
  using cached_once [OF assms] by blast

section \<open>A running example\<close>

definition demo_cache :: bcache where
  "demo_cache = binit \<lparr>bufs = (\<lambda>_. \<lparr>b_valid = False, b_dev = 0, b_blockno = 0,
       b_lock = \<lparr>sl_locked = False, sl_pid = 0\<rparr>, b_refcnt = 0, b_data = (\<lambda>_. 0), b_timestamp = 0\<rparr>),
     buckets = (\<lambda>_. []), disk = (\<lambda>n _. of_nat n), bticks = 9\<rparr>"

lemma demo_cache_inv: "cache_inv demo_cache" "clean demo_cache"
  using binit_inv unfolding demo_cache_def by (auto simp: zeroed_def)

lemma demo_sel:
  "buckets demo_cache 0 = rev [0..<NBUF]"
  "bufs demo_cache b = \<lparr>b_valid = False, b_dev = 0, b_blockno = 0,
     b_lock = \<lparr>sl_locked = False, sl_pid = 0\<rparr>, b_refcnt = 0, b_data = (\<lambda>_. 0), b_timestamp = 0\<rparr>"
  "disk demo_cache n = (\<lambda>_. of_nat n)"
  by (simp_all add: demo_cache_def binit_sel initsleeplock_def)

lemma demo_lru: "lru_scan demo_cache (x # xs) = Some x"
proof -
  have "fold (lru_better demo_cache) xs (Some x) = Some x"
    by (induction xs) (simp_all add: lru_better_def demo_sel)
  then show ?thesis by (simp add: lru_scan_def lru_better_def demo_sel)
qed

lemma demo_unused: "find_unused demo_cache (bucket_order (HASH 26)) = Some (0, 29)"
proof -
  have "rev [0..<NBUF] = 29 # rev [0..<29]" using upt_Suc_append [of 0 29] by (simp add: NBUF_def MAXOPBLOCKS_def)
  then show ?thesis by (subst bucket_order_own) (simp add: HASH_def NBUCKET_def demo_sel demo_lru)
qed

lemma demo_bread:
  "case bread 4 1 26 demo_cache of Got b t \<Rightarrow> b_data (bufs t b) = (\<lambda>_. 26) \<and> key t b = (1, 26) \<and> b = 29 | _ \<Rightarrow> False"
proof -
  have "lookup_buf 1 26 demo_cache = None"
    by (simp add: lookup_buf_def find_None_iff demo_sel)
  then show ?thesis
    by (simp add: bread_def bget_def bget_ref_def demo_unused recycle_sel lock_buf_def acquiresleep_def
        demo_sel fill_buf_def disk_read_def)
qed

lemma demo_bread_Got:
  obtains t where "bread 4 1 26 demo_cache = Got 29 t"
  using demo_bread by (auto split: bget_result.splits)

theorem bread_transparent_witness:
  "\<exists>t. bread 4 1 26 demo_cache = Got 29 t \<and> b_data (bufs t 29) = view 1 26 demo_cache \<and> cache_inv t \<and>
     view 1 2 t = view 1 2 demo_cache"
proof -
  obtain t where t: "bread 4 1 26 demo_cache = Got 29 t" by (rule demo_bread_Got)
  show ?thesis using bread_transparent [OF demo_cache_inv _ t] t by simp
qed

theorem bget_no_buffers_witness:
  "\<not> (\<forall>b < NBUF. key demo_cache b \<noteq> (1, 26) \<and> b_refcnt (bufs demo_cache b) \<noteq> 0)"
proof -
  have "bget 4 1 26 demo_cache \<noteq> NoBuffers" using demo_bread by (auto simp: bread_def)
  then show ?thesis using bget_no_buffers [OF demo_cache_inv(1)] by blast
qed

theorem block_cached_once_witness:
  "\<exists>t. bio_step\<^sup>*\<^sup>* demo_cache t \<and> lookup_buf 1 26 t = Some 29"
proof -
  obtain t where t: "bread 4 1 26 demo_cache = Got 29 t" by (rule demo_bread_Got)
  have k: "key t 29 = (1, 26)" using demo_bread unfolding t by simp
  have r: "bio_step\<^sup>*\<^sup>* demo_cache t" using step_bread [OF _ t] by auto
  show ?thesis
    using block_cached_once [OF _ r [unfolded demo_cache_def], of 29 29 1 26] k r
    by (auto simp: zeroed_def NBUF_def MAXOPBLOCKS_def)
qed

text \<open>
  The destination buffer of \<^verbatim>\<open>install_trans\<close> during recovery is unpinned although
  nothing pinned it. Starting from a block that is not cached, reading, unpinning and releasing
  its buffer leaves the reference count at \<open>2^32 - 1\<close>, so the buffer is never reused while
  idle; the next \<^verbatim>\<open>bread\<close> of the block wraps the count to 0 while its caller holds the
  buffer.
\<close>

theorem recovery_unpin_underflow:
  assumes "cache_inv s" and "dev \<noteq> 0" and "\<And>c. c < NBUF \<Longrightarrow> key s c \<noteq> (dev, n)"
    and "bread pid dev n s = Got b t"
  shows "\<exists>u v. brelse pid b (bunpin b t) = Some u \<and> b_refcnt (bufs u b) = - 1 \<and>
    bread pid' dev n u = Got b v \<and> b_refcnt (bufs v b) = 0 \<and> holdingsleep pid' (b_lock (bufs v b))"
proof -
  obtain w where w: "bget_ref dev n s = Some (b, w)"
    and t: "t = fill_buf b (upd_buf b (\<lambda>x. x\<lparr>b_lock := b_lock x\<lparr>sl_locked := True, sl_pid := pid\<rparr>\<rparr>) w)"
    using bread_Got [OF assms(4)] by blast
  note ok = bget_ref_ok [OF assms(1) w]
  have r1: "b_refcnt (bufs w b) = 1"
    using assms(1) w by (cases rule: bget_ref_cases) (use assms(3) in \<open>auto simp: recycle_sel\<close>)
  let ?u = "upd_buf b (\<lambda>x. x\<lparr>b_lock := releasesleep (b_lock x), b_refcnt := b_refcnt x - 1,
             b_timestamp := bticks t\<rparr>) (bunpin b t)"
  have u: "brelse pid b (bunpin b t) = Some ?u"
    by (simp add: brelse_def bunpin_def t holdingsleep_def)
  have ru: "b_refcnt (bufs ?u b) = - 1" using r1 by (simp add: bunpin_def t)
  have inv: "cache_inv ?u" using ok(1) by (simp add: bunpin_def t buf_upd_frame)
  have "key ?u b = (dev, n)" using ok(3) by (simp add: bunpin_def t)
  then have l: "lookup_buf dev n ?u = Some b" using lookup_buf_iff [OF inv assms(2)] ok(2) by blast
  have lk: "\<not> sl_locked (b_lock (bufs ?u b))" by (simp add: releasesleep_def)
  obtain v where "bread pid' dev n ?u = Got b v" "b_refcnt (bufs v b) = 0" "holdingsleep pid' (b_lock (bufs v b))"
    using lk ru by (simp add: bread_def bget_def bget_ref_def l lock_buf_def acquiresleep_def holdingsleep_def)
  then show ?thesis using u ru by blast
qed

theorem recovery_unpin_underflow_witness:
  "\<exists>t u v. bread 4 1 26 demo_cache = Got 29 t \<and> brelse 4 29 (bunpin 29 t) = Some u \<and>
     bread 5 1 26 u = Got 29 v \<and> b_refcnt (bufs v 29) = 0 \<and> holdingsleep 5 (b_lock (bufs v 29))"
proof -
  obtain t where t: "bread 4 1 26 demo_cache = Got 29 t" by (rule demo_bread_Got)
  show ?thesis using recovery_unpin_underflow [OF demo_cache_inv(1) _ _ t, of 5] t by (auto simp: demo_sel)
qed

end
