(* ===== verification/Log.thy ===== *)
theory Log
  imports Blocks Kernel_Types "HOL-Library.Multiset"
begin

text \<open>
  The redo log, \<^verbatim>\<open>kernel/filesystem/log.c\<close>. The log runs on top of the buffer cache,
  which is transparent (theory \<open>Bio\<close>), so a block has two contents here: what is on the
  disk, \<open>l_disk\<close>, and what the kernel sees through the cache, \<open>l_view\<close>.
  \<^verbatim>\<open>bwrite\<close> makes the first equal to the second; a crash loses the second. \<open>l_hist\<close>
  records the disk after every \<^verbatim>\<open>bwrite\<close>, that is, every state a crash can leave
  behind. \<open>l_pin\<close> is the log's share of the reference count of a block's buffer.
\<close>

section \<open>State\<close>

record logst =
  l_start :: nat
  l_size :: int
  l_outstanding :: int
  l_committing :: bool
  l_n :: int
  l_block :: "nat \<Rightarrow> u32"
  l_disk :: "nat \<Rightarrow> block"
  l_view :: "nat \<Rightarrow> block"
  l_pin :: "nat \<Rightarrow> u32"
  l_hist :: "(nat \<Rightarrow> block) list"

definition bwrite_at :: "nat \<Rightarrow> logst \<Rightarrow> logst" where
  "bwrite_at n s =
     (let d = (l_disk s)(n := l_view s n) in s\<lparr>l_disk := d, l_hist := l_hist s @ [d]\<rparr>)"

definition set_view :: "nat \<Rightarrow> block \<Rightarrow> logst \<Rightarrow> logst" where
  "set_view n d s = s\<lparr>l_view := (l_view s)(n := d)\<rparr>"

abbreviation home :: "logst \<Rightarrow> nat \<Rightarrow> nat" where
  "home s i \<equiv> unat (l_block s i)"

section \<open>Operations\<close>

definition install_one :: "nat \<Rightarrow> logst \<Rightarrow> logst" where
  "install_one tail s =
     (let s = bwrite_at (home s tail) (set_view (home s tail) (l_view s (l_start s + tail + 1)) s)
      in s\<lparr>l_pin := (l_pin s)(home s tail := l_pin s (home s tail) - 1)\<rparr>)"

definition install_trans :: "logst \<Rightarrow> logst" where
  "install_trans s = fold install_one [0..<nat (l_n s)] s"

text \<open>
  \<open>None\<close>: a header with more than \<^verbatim>\<open>LOGSIZE\<close> entries would be copied past the end of
  \<^verbatim>\<open>log.lh.block\<close>.
\<close>

definition read_head :: "logst \<Rightarrow> logst option" where
  "read_head s =
     (let lh = l_view s (l_start s); n = sint (get32 0 lh)
      in if n > int LOGSIZE then None
         else Some (s\<lparr>l_n := n,
           l_block := (\<lambda>i. if int i < n then get32 (4 + 4 * i) lh else l_block s i)\<rparr>))"

definition put_head :: "int \<Rightarrow> (nat \<Rightarrow> u32) \<Rightarrow> block \<Rightarrow> block" where
  "put_head n bl hb = fold (\<lambda>i. put32 (4 + 4 * i) (bl i)) [0..<nat n] (put32 0 (word_of_int n) hb)"

definition write_head :: "logst \<Rightarrow> logst" where
  "write_head s =
     bwrite_at (l_start s) (set_view (l_start s) (put_head (l_n s) (l_block s) (l_view s (l_start s))) s)"

definition recover_from_log :: "logst \<Rightarrow> logst option" where
  "recover_from_log s =
     (case read_head s of
        None \<Rightarrow> None
      | Some s \<Rightarrow> Some (write_head ((install_trans s)\<lparr>l_n := 0\<rparr>)))"

definition initlog :: "nat \<Rightarrow> int \<Rightarrow> logst \<Rightarrow> logst option" where
  "initlog logstart nlog s =
     (if 4 + 4 * LOGSIZE \<ge> BSIZE then None
      else recover_from_log (s\<lparr>l_start := logstart, l_size := nlog\<rparr>))"

text \<open>One turn of the loop of \<^verbatim>\<open>begin_op\<close>; \<open>None\<close>: the caller sleeps on the log.\<close>

definition begin_op :: "logst \<Rightarrow> logst option" where
  "begin_op s =
     (if l_committing s then None
      else if l_n s + (l_outstanding s + 1) * int MAXOPBLOCKS > int LOGSIZE then None
      else Some (s\<lparr>l_outstanding := l_outstanding s + 1\<rparr>))"

definition write_log_one :: "nat \<Rightarrow> logst \<Rightarrow> logst" where
  "write_log_one tail s =
     bwrite_at (l_start s + tail + 1) (set_view (l_start s + tail + 1) (l_view s (home s tail)) s)"

definition write_log :: "logst \<Rightarrow> logst" where
  "write_log s = fold write_log_one [0..<nat (l_n s)] s"

definition commit :: "logst \<Rightarrow> logst" where
  "commit s =
     (if l_n s > 0
      then write_head ((install_trans (write_head (write_log s)))\<lparr>l_n := 0\<rparr>)
      else s)"

text \<open>
  \<^verbatim>\<open>end_op\<close> in its two critical sections: \<open>end_op_begin\<close> returns whether the caller
  commits, \<open>end_op_finish\<close> commits and lets the others in. \<open>None\<close> is the panic.
\<close>

definition end_op_begin :: "logst \<Rightarrow> (bool \<times> logst) option" where
  "end_op_begin s =
     (let s = s\<lparr>l_outstanding := l_outstanding s - 1\<rparr>
      in if l_committing s then None
         else if l_outstanding s = 0 then Some (True, s\<lparr>l_committing := True\<rparr>)
         else Some (False, s))"

definition end_op_finish :: "logst \<Rightarrow> logst" where
  "end_op_finish s = (commit s)\<lparr>l_committing := False\<rparr>"

definition end_op :: "logst \<Rightarrow> logst option" where
  "end_op s =
     (case end_op_begin s of
        None \<Rightarrow> None
      | Some (do_commit, s) \<Rightarrow> Some (if do_commit then end_op_finish s else s))"

text \<open>\<^verbatim>\<open>log_write\<close> for the buffer of block \<open>b\<close>; \<open>None\<close> is a panic.\<close>

definition log_slot :: "u32 \<Rightarrow> logst \<Rightarrow> nat" where
  "log_slot b s = (case find (\<lambda>i. l_block s i = b) [0..<nat (l_n s)] of Some i \<Rightarrow> i | None \<Rightarrow> nat (l_n s))"

definition log_write :: "u32 \<Rightarrow> logst \<Rightarrow> logst option" where
  "log_write b s =
     (if l_n s \<ge> int LOGSIZE \<or> l_n s \<ge> l_size s - 1 then None
      else if l_outstanding s < 1 then None
      else
        let i = log_slot b s;
            s' = s\<lparr>l_block := (l_block s)(i := b)\<rparr>
        in Some (if int i = l_n s
                 then s'\<lparr>l_pin := (l_pin s')(unat b := l_pin s' (unat b) + 1), l_n := l_n s' + 1\<rparr>
                 else s'))"

section \<open>The steps of a commit, on the disk\<close>

lemma bwrite_at_sel [simp]:
  "l_start (bwrite_at n s) = l_start s" "l_size (bwrite_at n s) = l_size s" "l_n (bwrite_at n s) = l_n s"
  "l_block (bwrite_at n s) = l_block s" "l_view (bwrite_at n s) = l_view s" "l_pin (bwrite_at n s) = l_pin s"
  "l_disk (bwrite_at n s) = (l_disk s)(n := l_view s n)"
  "l_hist (bwrite_at n s) = l_hist s @ [(l_disk s)(n := l_view s n)]"
  "l_outstanding (bwrite_at n s) = l_outstanding s" "l_committing (bwrite_at n s) = l_committing s"
  by (simp_all add: bwrite_at_def Let_def)

lemma set_view_sel [simp]:
  "l_start (set_view n d s) = l_start s" "l_size (set_view n d s) = l_size s" "l_n (set_view n d s) = l_n s"
  "l_block (set_view n d s) = l_block s" "l_view (set_view n d s) = (l_view s)(n := d)"
  "l_pin (set_view n d s) = l_pin s" "l_disk (set_view n d s) = l_disk s" "l_hist (set_view n d s) = l_hist s"
  "l_outstanding (set_view n d s) = l_outstanding s" "l_committing (set_view n d s) = l_committing s"
  by (simp_all add: set_view_def)

text \<open>The blocks of the log area; all other blocks belong to the file system.\<close>

definition in_log :: "logst \<Rightarrow> nat \<Rightarrow> bool" where
  "in_log s b \<longleftrightarrow> l_start s \<le> b \<and> int b < int (l_start s) + l_size s"

definition homes_ok :: "logst \<Rightarrow> bool" where
  "homes_ok s \<longleftrightarrow> 0 \<le> l_n s \<and> l_n s \<le> int LOGSIZE \<and> l_n s < l_size s \<and>
     (\<forall>i. int i < l_n s \<longrightarrow> \<not> in_log s (home s i)) \<and>
     (\<forall>i j. int i < l_n s \<longrightarrow> int j < l_n s \<longrightarrow> l_block s i = l_block s j \<longrightarrow> i = j)"

lemma homes_okD:
  assumes "homes_ok s" and "int i < l_n s"
  shows "\<not> in_log s (home s i)" and "in_log s (l_start s + i + 1)"
    and "\<And>j. int j < l_n s \<Longrightarrow> home s i = home s j \<longleftrightarrow> i = j"
proof -
  show "\<not> in_log s (home s i)" "in_log s (l_start s + i + 1)"
    using assms by (auto simp: homes_ok_def in_log_def)
  show "home s i = home s j \<longleftrightarrow> i = j" if "int j < l_n s" for j
    using assms that word_unat_eq_iff [of "l_block s i" "l_block s j"] unfolding homes_ok_def by auto
qed

text \<open>Contents that differ from \<open>d\<close> only on the first \<open>k\<close> logged blocks, where they have the new value.\<close>

definition installed :: "logst \<Rightarrow> nat \<Rightarrow> (nat \<Rightarrow> block) \<Rightarrow> nat \<Rightarrow> block" where
  "installed s k d = fold (\<lambda>i d. d(home s i := l_view s (l_start s + i + 1))) [0..<k] d"

lemma installed_Suc:
  "installed s (Suc k) d = (installed s k d)(home s k := l_view s (l_start s + k + 1))"
  by (simp add: installed_def)

lemma installed_0 [simp]: "installed s 0 d = d"
  by (simp add: installed_def)

lemma installed_other: "(\<And>i. i < k \<Longrightarrow> home s i \<noteq> b) \<Longrightarrow> installed s k d b = d b"
proof (induction k)
  case (Suc k)
  from Suc.prems [of k] have "home s k \<noteq> b" by simp
  moreover have "installed s k d b = d b" using Suc.prems by (intro Suc.IH) simp
  ultimately show ?case by (simp add: installed_Suc)
qed simp

lemma installed_log:
  assumes "homes_ok s" and "int k \<le> l_n s" and "in_log s b"
  shows "installed s k d b = d b"
  using assms homes_okD(1) [OF assms(1)] by (intro installed_other) force

text \<open>The result of installing the first \<open>k\<close> blocks, and the disks on the way.\<close>

lemma install_fold:
  assumes "homes_ok s" and "int k \<le> l_n s"
  defines "t \<equiv> fold install_one [0..<k] s"
  shows "l_disk t = installed s k (l_disk s) \<and> l_view t = installed s k (l_view s) \<and>
    l_start t = l_start s \<and> l_size t = l_size s \<and> l_n t = l_n s \<and> l_block t = l_block s \<and>
    l_outstanding t = l_outstanding s \<and> l_committing t = l_committing s \<and>
    l_hist t = l_hist s @ map (\<lambda>j. installed s (Suc j) (l_disk s)) [0..<k]"
  using assms(2) unfolding t_def
proof (induction k)
  case (Suc k)
  let ?u = "fold install_one [0..<k] s"
  have k: "int k < l_n s" using Suc.prems by simp
  have v: "installed s k (l_view s) (Suc (l_start s + k)) = l_view s (Suc (l_start s + k))"
    using installed_log [OF assms(1) _ homes_okD(2) [OF assms(1) k], of k "l_view s"] k by simp
  show ?case using Suc k v by (simp add: install_one_def Let_def installed_Suc fun_upd_same del: fun_upd_apply)
qed simp

lemma installed_home:
  assumes "homes_ok s" and "int k \<le> l_n s" and "i < k"
  shows "installed s k d (home s i) = l_view s (l_start s + i + 1)"
  using assms(2,3)
proof (induction k)
  case (Suc k)
  show ?case
  proof (cases "i = k")
    case False
    then have "home s i \<noteq> home s k" using homes_okD(3) [OF assms(1), of i k] Suc.prems by simp
    then show ?thesis using Suc False by (simp add: installed_Suc)
  qed (simp add: installed_Suc)
qed simp

text \<open>Writing the log touches the log area only.\<close>

definition logged :: "logst \<Rightarrow> nat \<Rightarrow> (nat \<Rightarrow> block) \<Rightarrow> nat \<Rightarrow> block" where
  "logged s k d = (\<lambda>b.
     if l_start s < b \<and> b \<le> l_start s + k then l_view s (home s (b - l_start s - 1)) else d b)"

lemma logged_0 [simp]: "logged s 0 d = d"
  by (rule ext) (auto simp: logged_def)

lemma logged_Suc: "logged s (Suc k) d = (logged s k d)(l_start s + k + 1 := l_view s (home s k))"
  by (auto simp: logged_def fun_eq_iff)

lemma logged_home:
  assumes "homes_ok s" and "int k \<le> l_n s" and "\<not> in_log s b"
  shows "logged s k d b = d b"
  using assms by (auto simp: logged_def in_log_def homes_ok_def)

lemma write_log_fold:
  assumes "homes_ok s" and "int k \<le> l_n s"
  defines "t \<equiv> fold write_log_one [0..<k] s"
  shows "l_disk t = logged s k (l_disk s) \<and> l_view t = logged s k (l_view s) \<and>
    l_start t = l_start s \<and> l_size t = l_size s \<and> l_n t = l_n s \<and> l_block t = l_block s \<and>
    l_outstanding t = l_outstanding s \<and> l_committing t = l_committing s \<and> l_pin t = l_pin s \<and>
    l_hist t = l_hist s @ map (\<lambda>j. logged s (Suc j) (l_disk s)) [0..<k]"
  using assms(2) unfolding t_def
proof (induction k)
  case (Suc k)
  have k: "int k < l_n s" using Suc.prems by simp
  have v: "logged s k (l_view s) (home s k) = l_view s (home s k)"
    using logged_home [OF assms(1) _ homes_okD(1) [OF assms(1) k], of k "l_view s"] k by simp
  show ?case using Suc k v by (simp add: write_log_one_def logged_Suc fun_upd_same del: fun_upd_apply)
qed simp

text \<open>The header that \<^verbatim>\<open>write_head\<close> writes is the one \<^verbatim>\<open>read_head\<close> reads.\<close>

lemma put_head_fold:
  "get32 0 (fold (\<lambda>i. put32 (4 + 4 * i) (bl i)) [0..<k] h) = get32 0 h \<and>
   (\<forall>i < k. get32 (4 + 4 * i) (fold (\<lambda>i. put32 (4 + 4 * i) (bl i)) [0..<k] h) = bl i)"
proof (induction k)
  case (Suc k)
  have "get32 (4 + 4 * i) (put32 (4 + 4 * k) (bl k) h') = (if i = k then bl k else get32 (4 + 4 * i) h')" for i h'
    by (cases "i < k"; cases "i = k") auto
  then show ?case using Suc by auto
qed simp

lemma put_head_n: "0 \<le> n \<Longrightarrow> n \<le> int LOGSIZE \<Longrightarrow> sint (get32 0 (put_head n bl h)) = n"
proof -
  assume "0 \<le> n" "n \<le> int LOGSIZE"
  then have "0 \<le> n" "n < 2 ^ 31" by (simp_all add: LOGSIZE_def MAXOPBLOCKS_def)
  then show ?thesis using put_head_fold [of bl "nat n" "put32 0 (word_of_int n) h"]
    by (simp add: put_head_def sint_sbintrunc' signed_take_bit_int_eq_self)
qed

lemma put_head_block: "int i < n \<Longrightarrow> get32 (4 + 4 * i) (put_head n bl h) = bl i"
  using put_head_fold [of bl "nat n"] by (auto simp: put_head_def)

section \<open>Crashes and recovery\<close>

text \<open>
  The state after a crash that left disk \<open>d\<close> behind: the in-memory log is zero and the
  cache holds nothing.
\<close>

definition reboot :: "(nat \<Rightarrow> block) \<Rightarrow> logst \<Rightarrow> logst" where
  "reboot d s = s\<lparr>l_disk := d, l_view := d, l_pin := (\<lambda>_. 0), l_hist := [], l_n := 0,
     l_block := (\<lambda>_. 0), l_outstanding := 0, l_committing := False\<rparr>"

definition same_files :: "logst \<Rightarrow> (nat \<Rightarrow> block) \<Rightarrow> (nat \<Rightarrow> block) \<Rightarrow> bool" where
  "same_files s d e \<longleftrightarrow> (\<forall>b. \<not> in_log s b \<longrightarrow> d b = e b)"

text \<open>
  The state between two file-system calls or inside one: the header on disk is empty, and a
  block that differs from its disk contents is recorded in the log.
\<close>

definition log_wf :: "logst \<Rightarrow> bool" where
  "log_wf s \<longleftrightarrow> homes_ok s \<and> get32 0 (l_disk s (l_start s)) = 0 \<and>
     (\<forall>b. \<not> in_log s b \<longrightarrow> (\<forall>i. int i < l_n s \<longrightarrow> home s i \<noteq> b) \<longrightarrow> l_view s b = l_disk s b)"

lemma in_log_cong: "l_start s = l_start t \<Longrightarrow> l_size s = l_size t \<Longrightarrow> in_log s = in_log t"
  by (simp add: in_log_def fun_eq_iff)

lemma write_head_sel [simp]:
  "l_start (write_head s) = l_start s" "l_size (write_head s) = l_size s" "l_n (write_head s) = l_n s"
  "l_block (write_head s) = l_block s" "l_pin (write_head s) = l_pin s"
  "l_outstanding (write_head s) = l_outstanding s" "l_committing (write_head s) = l_committing s"
  "l_view (write_head s) = (l_view s)(l_start s := put_head (l_n s) (l_block s) (l_view s (l_start s)))"
  "l_disk (write_head s) = (l_disk s)(l_start s := put_head (l_n s) (l_block s) (l_view s (l_start s)))"
  "l_hist (write_head s) = l_hist s @ [l_disk (write_head s)]"
  by (simp_all add: write_head_def)

lemma homes_ok_start: "homes_ok s \<Longrightarrow> in_log s (l_start s)"
  by (auto simp: homes_ok_def in_log_def)

lemma put_head_0 [simp]: "get32 0 (put_head 0 bl h) = 0"
  by (simp add: put_head_def)

lemma install_trans_sel:
  assumes "homes_ok s"
  shows "l_disk (install_trans s) = installed s (nat (l_n s)) (l_disk s)"
    and "l_view (install_trans s) = installed s (nat (l_n s)) (l_view s)"
    and "l_start (install_trans s) = l_start s" and "l_size (install_trans s) = l_size s"
    and "l_block (install_trans s) = l_block s"
    and "l_outstanding (install_trans s) = l_outstanding s" and "l_committing (install_trans s) = l_committing s"
    and "l_hist (install_trans s) = l_hist s @ map (\<lambda>j. installed s (Suc j) (l_disk s)) [0..<nat (l_n s)]"
  using install_fold [OF assms, of "nat (l_n s)"] assms by (simp_all add: install_trans_def homes_ok_def)

text \<open>Recovery copies the logged blocks home, in one pass over the header, and clears the header.\<close>

lemma recover_gen:
  assumes "read_head (reboot d s) = Some h" and "homes_ok h"
  obtains t e where "recover_from_log (reboot d s) = Some t"
    and "l_hist t = map (\<lambda>j. installed h (Suc j) d) [0..<nat (l_n h)] @ [e]"
    and "l_disk t = e" and "same_files s e (installed h (nat (l_n h)) d)" and "get32 0 (e (l_start s)) = 0"
proof -
  let ?t = "write_head ((install_trans h)\<lparr>l_n := 0\<rparr>)"
  have h: "l_start h = l_start s" "l_size h = l_size s" "l_disk h = d" "l_hist h = []"
    using assms(1) by (auto simp: read_head_def reboot_def Let_def split: if_splits)
  have st: "in_log s (l_start s)" using homes_ok_start [OF assms(2)] in_log_cong [OF h(1,2)] h(1) by simp
  show thesis
  proof
    show "recover_from_log (reboot d s) = Some ?t" using assms(1) by (simp add: recover_from_log_def)
    show "l_hist ?t = map (\<lambda>j. installed h (Suc j) d) [0..<nat (l_n h)] @ [l_disk ?t]"
      by (simp add: install_trans_sel [OF assms(2)] h)
    show "same_files s (l_disk ?t) (installed h (nat (l_n h)) d)"
      using st by (auto simp: same_files_def install_trans_sel [OF assms(2)] h)
    show "get32 0 (l_disk ?t (l_start s)) = 0" by (simp add: install_trans_sel [OF assms(2)] h)
  qed simp
qed

lemma reboot_sel [simp]:
  "l_start (reboot d s) = l_start s" "l_size (reboot d s) = l_size s" "l_view (reboot d s) = d"
  "l_disk (reboot d s) = d" "l_n (reboot d s) = 0" "l_block (reboot d s) i = 0"
  by (simp_all add: reboot_def)

lemma in_log_reboot [simp]: "in_log (reboot d s) = in_log s"
  by (rule in_log_cong) simp_all

lemma recover_idle:
  assumes "get32 0 (d (l_start s)) = 0" and "0 < l_size s"
  shows "\<exists>t. recover_from_log (reboot d s) = Some t \<and> same_files s (l_disk t) d"
proof -
  let ?h = "(reboot d s)\<lparr>l_block := \<lambda>i. l_block (reboot d s) i\<rparr>"
  have r: "read_head (reboot d s) = Some ?h" using assms(1) by (simp add: read_head_def reboot_def)
  have ok: "homes_ok ?h" using assms(2) by (simp add: homes_ok_def)
  obtain t e where "recover_from_log (reboot d s) = Some t" "l_disk t = e"
    "same_files s e (installed ?h (nat (l_n ?h)) d)" by (rule recover_gen [OF r ok])
  then show ?thesis by simp
qed

text \<open>A disk with a committed log recovers to the committed contents.\<close>

definition committed :: "logst \<Rightarrow> (nat \<Rightarrow> block) \<Rightarrow> bool" where
  "committed s d \<longleftrightarrow> (\<exists>x. d (l_start s) = put_head (l_n s) (l_block s) x) \<and>
     (\<forall>i. int i < l_n s \<longrightarrow> d (l_start s + i + 1) = l_view s (home s i)) \<and>
     (\<forall>b. \<not> in_log s b \<longrightarrow> (\<forall>i. int i < l_n s \<longrightarrow> home s i \<noteq> b) \<longrightarrow> d b = l_view s b)"

lemma committed_head:
  assumes ok: "homes_ok s" and c: "committed s d"
  defines "h \<equiv> (reboot d s)\<lparr>l_n := l_n s, l_block := \<lambda>i. if int i < l_n s then l_block s i else 0\<rparr>"
  shows "read_head (reboot d s) = Some h" and "homes_ok h"
proof -
  obtain x where x: "d (l_start s) = put_head (l_n s) (l_block s) x" using c by (auto simp: committed_def)
  have n: "sint (get32 0 (d (l_start s))) = l_n s" using ok x put_head_n by (simp add: homes_ok_def)
  have bl: "(\<lambda>i. if int i < l_n s then get32 (4 + 4 * i) (d (l_start s)) else 0) =
      (\<lambda>i. if int i < l_n s then l_block s i else 0)" by (rule ext) (simp add: x put_head_block)
  show "read_head (reboot d s) = Some h"
    unfolding read_head_def reboot_sel Let_def n bl using ok by (simp add: homes_ok_def h_def)
  have il: "in_log h = in_log s" by (rule in_log_cong) (simp_all add: h_def)
  show "homes_ok h" using ok unfolding homes_ok_def il by (simp add: h_def)
qed

lemma recover_committed:
  assumes ok: "homes_ok s" and c: "committed s d"
  shows "\<exists>t. recover_from_log (reboot d s) = Some t \<and> same_files s (l_disk t) (l_view s)"
proof -
  let ?h = "(reboot d s)\<lparr>l_n := l_n s, l_block := \<lambda>i. if int i < l_n s then l_block s i else 0\<rparr>"
  note r = committed_head(1) [OF ok c] and okh = committed_head(2) [OF ok c]
  obtain t e where t: "recover_from_log (reboot d s) = Some t" "l_disk t = e"
    "same_files s e (installed ?h (nat (l_n ?h)) d)" by (rule recover_gen [OF r okh])
  have "installed ?h (nat (l_n s)) d b = l_view s b" if b: "\<not> in_log s b" for b
  proof (cases "\<exists>i. int i < l_n s \<and> home s i = b")
    case True
    then obtain i where i: "int i < l_n s" "home s i = b" by blast
    then have "home ?h i = b" by simp
    then show ?thesis using installed_home [OF okh, of "nat (l_n s)" i d] i c ok
      by (simp add: committed_def homes_ok_def)
  next
    case False
    then have "installed ?h (nat (l_n s)) d b = d b" by (intro installed_other) auto
    then show ?thesis using c b False by (auto simp: committed_def)
  qed
  then show ?thesis using t by (auto simp: same_files_def)
qed

text \<open>The four phases of a commit. After the second, every disk on the way is committed.\<close>

lemma write_log_sel:
  assumes "homes_ok s"
  shows "l_disk (write_log s) = logged s (nat (l_n s)) (l_disk s)"
    and "l_view (write_log s) = logged s (nat (l_n s)) (l_view s)"
    and "l_start (write_log s) = l_start s" and "l_size (write_log s) = l_size s"
    and "l_n (write_log s) = l_n s" and "l_block (write_log s) = l_block s"
    and "l_outstanding (write_log s) = l_outstanding s" and "l_committing (write_log s) = l_committing s"
    and "l_hist (write_log s) = l_hist s @ map (\<lambda>j. logged s (Suc j) (l_disk s)) [0..<nat (l_n s)]"
  using write_log_fold [OF assms, of "nat (l_n s)"] assms by (simp_all add: write_log_def homes_ok_def)

lemma homes_ok_cong:
  "l_start s = l_start t \<Longrightarrow> l_size s = l_size t \<Longrightarrow> l_n s = l_n t \<Longrightarrow> l_block s = l_block t \<Longrightarrow>
   homes_ok s = homes_ok t"
  by (simp add: homes_ok_def in_log_def)

lemma after_write_head:
  assumes "homes_ok s"
  defines "u \<equiv> write_head (write_log s)"
  shows "homes_ok u" and "l_start u = l_start s" and "l_size u = l_size s" and "l_n u = l_n s"
    and "l_block u = l_block s" and "in_log u = in_log s"
    and "\<And>i. int i < l_n s \<Longrightarrow> l_view u (l_start s + i + 1) = l_view s (home s i)"
    and "\<And>i. int i < l_n s \<Longrightarrow> l_disk u (l_start s + i + 1) = l_view s (home s i)"
    and "\<And>b. \<not> in_log s b \<Longrightarrow> l_disk u b = l_disk s b"
    and "\<exists>x. l_disk u (l_start s) = put_head (l_n s) (l_block s) x"
proof -
  note W = write_log_sel [OF assms(1)]
  show st: "l_start u = l_start s" "l_size u = l_size s" "l_n u = l_n s" "l_block u = l_block s"
    by (simp_all add: u_def W)
  then show "homes_ok u" "in_log u = in_log s" using assms(1) homes_ok_cong in_log_cong by metis+
  show "l_view u (l_start s + i + 1) = l_view s (home s i)"
    "l_disk u (l_start s + i + 1) = l_view s (home s i)" if "int i < l_n s" for i
    using that by (auto simp: u_def W logged_def)
  show "l_disk u b = l_disk s b" if "\<not> in_log s b" for b
    using that homes_ok_start [OF assms(1)] logged_home [OF assms(1) _ that, of "nat (l_n s)"] assms(1)
    by (auto simp: u_def W homes_ok_def)
  show "\<exists>x. l_disk u (l_start s) = put_head (l_n s) (l_block s) x" by (auto simp: u_def W)
qed

lemma committed_installed:
  assumes "log_wf s" and k: "int k \<le> l_n s"
  shows "committed s (installed (write_head (write_log s)) k (l_disk (write_head (write_log s))))"
proof -
  let ?u = "write_head (write_log s)"
  have ok: "homes_ok s" using assms(1) by (simp add: log_wf_def)
  note A = after_write_head [OF ok]
  have il: "installed ?u k d b = d b" if "in_log s b" for b d
    using installed_log [OF A(1), of k b d] k that A(4,6) by simp
  have other: "installed ?u k (l_disk ?u) b = l_view s b"
    if "\<not> in_log s b" "\<forall>i. int i < l_n s \<longrightarrow> home s i \<noteq> b" for b
  proof -
    have "installed ?u k (l_disk ?u) b = l_disk ?u b" using that(2) k A(5) by (intro installed_other) auto
    then show ?thesis using A(9) [OF that(1)] assms(1) that by (simp add: log_wf_def)
  qed
  show ?thesis unfolding committed_def
    using il [OF homes_ok_start [OF ok]] il [OF homes_okD(2) [OF ok]] A(8,10) other by auto
qed

lemma commit_phases:
  assumes "log_wf s" and "0 < l_n s"
  defines "u \<equiv> write_head (write_log s)" and "N \<equiv> nat (l_n s)"
  shows "l_hist (commit s) = l_hist s @ map (\<lambda>j. logged s (Suc j) (l_disk s)) [0..<N] @
      map (\<lambda>j. installed u j (l_disk u)) [0..<Suc N] @ [l_disk (commit s)]"
    and "same_files s (l_disk (commit s)) (l_view s)"
    and "same_files s (l_view (commit s)) (l_view s)"
    and "get32 0 (l_disk (commit s) (l_start s)) = 0"
    and "l_n (commit s) = 0" and "l_start (commit s) = l_start s" and "l_size (commit s) = l_size s"
    and "l_outstanding (commit s) = l_outstanding s" and "l_committing (commit s) = l_committing s"
proof -
  have ok: "homes_ok s" using assms(1) by (simp add: log_wf_def)
  note A = after_write_head [OF ok, folded u_def] and W = write_log_sel [OF ok]
  note I = install_trans_sel [OF A(1)]
  have c: "commit s = write_head ((install_trans u)\<lparr>l_n := 0\<rparr>)" using assms(2) by (simp add: commit_def u_def)
  show "l_hist (commit s) = l_hist s @ map (\<lambda>j. logged s (Suc j) (l_disk s)) [0..<N] @
      map (\<lambda>j. installed u j (l_disk u)) [0..<Suc N] @ [l_disk (commit s)]"
    unfolding c by (simp add: I A N_def upt_conv_Cons map_Suc_upt [symmetric] del: upt_Suc)
      (simp add: u_def W)
  have new: "installed u N d b = l_view s b" if b: "\<not> in_log s b" and d: "d b = l_disk s b \<or> d b = l_view s b" for d b
  proof (cases "\<exists>i. int i < l_n s \<and> home s i = b")
    case True
    then obtain i where i: "int i < l_n s" "home s i = b" by blast
    then show ?thesis using installed_home [OF A(1), of N i d] A(2,4,5,7) by (simp add: N_def)
  next
    case False
    then have "installed u N d b = d b" using A(5) by (intro installed_other) (auto simp: N_def)
    then show ?thesis using d assms(1) b False by (auto simp: log_wf_def)
  qed
  have v: "l_view u b = l_view s b" if "\<not> in_log s b" for b
    using that homes_ok_start [OF ok] logged_home [OF ok _ that, of N] ok by (auto simp: u_def W N_def homes_ok_def)
  show "same_files s (l_disk (commit s)) (l_view s)" "same_files s (l_view (commit s)) (l_view s)"
    unfolding same_files_def c
    using new A(9) v homes_ok_start [OF ok] by (auto simp: I A N_def)
  show "get32 0 (l_disk (commit s) (l_start s)) = 0" "l_n (commit s) = 0"
    "l_start (commit s) = l_start s" "l_size (commit s) = l_size s"
    "l_outstanding (commit s) = l_outstanding s" "l_committing (commit s) = l_committing s"
    unfolding c by (simp_all add: I A) (simp_all add: u_def W)
qed

lemma commit_crash_points:
  assumes wf: "log_wf s" and e: "l_hist s = []" and d: "d \<in> set (l_disk s # l_hist (commit s))"
  shows "get32 0 (d (l_start s)) = 0 \<and> (same_files s d (l_disk s) \<or> same_files s d (l_view s)) \<or>
    committed s d"
proof (cases "d = l_disk s \<or> l_n s \<le> 0")
  case True
  then show ?thesis using wf d e by (auto simp: log_wf_def same_files_def commit_def)
next
  case False
  then have n: "0 < l_n s" by simp
  have ok: "homes_ok s" using wf by (simp add: log_wf_def)
  from d False consider j where "j < nat (l_n s)" "d = logged s (Suc j) (l_disk s)"
    | j where "j < Suc (nat (l_n s))" "d = installed (write_head (write_log s)) j (l_disk (write_head (write_log s)))"
    | "d = l_disk (commit s)"
    unfolding commit_phases(1) [OF wf n] e by (auto simp del: upt_Suc)
  then show ?thesis
  proof cases
    case 1
    have "same_files s d (l_disk s)" using 1 logged_home [OF ok, of "Suc j"] by (auto simp: same_files_def)
    moreover have "d (l_start s) = l_disk s (l_start s)" using 1 by (simp add: logged_def)
    ultimately show ?thesis using wf by (simp add: log_wf_def)
  next
    case 2
    then show ?thesis using committed_installed [OF wf, of j] n by simp
  next
    case 3
    then show ?thesis using commit_phases(2,4) [OF wf n] by simp
  qed
qed

lemma commit_noop: "\<not> 0 < l_n s \<Longrightarrow> commit s = s"
  by (simp add: commit_def)

lemma log_wf_commit:
  assumes "log_wf s"
  shows "same_files s (l_disk (commit s)) (l_view s)" and "log_wf (commit s)" and "l_n (commit s) = 0"
    and "l_start (commit s) = l_start s" and "l_size (commit s) = l_size s"
    and "same_files s (l_view (commit s)) (l_view s)"
proof -
  have "same_files s (l_disk (commit s)) (l_view s) \<and> log_wf (commit s) \<and> l_n (commit s) = 0 \<and>
    l_start (commit s) = l_start s \<and> l_size (commit s) = l_size s \<and> same_files s (l_view (commit s)) (l_view s)"
  proof (cases "0 < l_n s")
    case True
    note P = commit_phases [OF assms True]
    have "in_log (commit s) = in_log s" by (rule in_log_cong) (simp_all add: P)
    then show ?thesis using P assms by (auto simp: log_wf_def homes_ok_def same_files_def)
  next
    case False
    then have "l_n s = 0" using assms by (simp add: log_wf_def homes_ok_def)
    then show ?thesis using assms by (simp add: commit_noop log_wf_def same_files_def)
  qed
  then show "same_files s (l_disk (commit s)) (l_view s)" and "log_wf (commit s)" and "l_n (commit s) = 0"
    and "l_start (commit s) = l_start s" and "l_size (commit s) = l_size s"
    and "same_files s (l_view (commit s)) (l_view s)" by blast+
qed

lemma same_files_trans: "same_files s d e \<Longrightarrow> same_files s e f \<Longrightarrow> same_files s d f"
  by (simp add: same_files_def)

lemma commit_crash_facts:
  assumes "log_wf s"
  shows "d \<in> set (l_disk s # l_hist (commit (s\<lparr>l_hist := []\<rparr>))) \<Longrightarrow>
      \<exists>t. recover_from_log (reboot d s) = Some t \<and>
        (same_files s (l_disk t) (l_disk s) \<or> same_files s (l_disk t) (l_view s))"
    and "same_files s (l_disk (commit s)) (l_view s)" and "log_wf (commit s)" and "l_n (commit s) = 0"
proof -
  let ?s = "s\<lparr>l_hist := []\<rparr>"
  have il: "in_log ?s = in_log s" by (rule in_log_cong) simp_all
  then have sf: "same_files ?s = same_files s" by (simp add: same_files_def fun_eq_iff)
  have wf: "log_wf ?s" using assms unfolding log_wf_def homes_ok_def il by simp
  have rb: "reboot d ?s = reboot d s" for d by (simp add: reboot_def)
  have size: "0 < l_size ?s" and ok: "homes_ok ?s" using wf by (simp_all add: log_wf_def homes_ok_def)
  show "\<exists>t. recover_from_log (reboot d s) = Some t \<and>
        (same_files s (l_disk t) (l_disk s) \<or> same_files s (l_disk t) (l_view s))"
    if d: "d \<in> set (l_disk s # l_hist (commit ?s))"
  proof -
    have "d \<in> set (l_disk ?s # l_hist (commit ?s))" using d by simp
    then have cases: "get32 0 (d (l_start ?s)) = 0 \<and> (same_files ?s d (l_disk ?s) \<or> same_files ?s d (l_view ?s)) \<or>
        committed ?s d" by (intro commit_crash_points [OF wf]) simp_all
    show ?thesis
    proof (cases "committed ?s d")
      case True
      then show ?thesis using recover_committed [OF ok True] unfolding sf rb by auto
    next
      case False
      with cases have z: "get32 0 (d (l_start ?s)) = 0" and f: "same_files s d (l_disk s) \<or> same_files s d (l_view s)"
        unfolding sf by auto
      then obtain t where "recover_from_log (reboot d s) = Some t" "same_files s (l_disk t) d"
        using recover_idle [of d ?s] size unfolding sf rb by auto
      then show ?thesis using f same_files_trans by blast
    qed
  qed
qed (rule log_wf_commit [OF assms])+

text \<open>
  C13. The log makes a transaction atomic: at whichever disk write a crash interrupts a commit,
  recovery from the disk left behind ends and gives all file-system blocks either their
  contents from before the transaction or all of them the committed contents. A commit that
  is not interrupted brings every block to its home location and leaves an empty log.
\<close>

theorem commit_crash_atomic:
  assumes "log_wf s"
  shows "(\<forall>d \<in> set (l_disk s # l_hist (commit (s\<lparr>l_hist := []\<rparr>))).
      \<exists>t. recover_from_log (reboot d s) = Some t \<and>
        (same_files s (l_disk t) (l_disk s) \<or> same_files s (l_disk t) (l_view s))) \<and>
    same_files s (l_disk (commit s)) (l_view s) \<and> log_wf (commit s) \<and> l_n (commit s) = 0"
  using commit_crash_facts [OF assms] by blast

lemma recover_same:
  assumes r: "read_head (reboot d s) = Some h" and ok: "homes_ok h"
    and st: "e (l_start s) = d (l_start s)"
    and lg: "\<And>i. int i < l_n h \<Longrightarrow> e (l_start s + i + 1) = d (l_start s + i + 1)"
    and other: "\<And>b. \<not> in_log s b \<Longrightarrow> (\<And>i. int i < l_n h \<Longrightarrow> home h i \<noteq> b) \<Longrightarrow> e b = d b"
  shows "\<exists>u. recover_from_log (reboot e s) = Some u \<and> same_files s (l_disk u) (installed h (nat (l_n h)) d)"
proof -
  let ?h = "h\<lparr>l_disk := e, l_view := e\<rparr>" and ?N = "nat (l_n h)"
  have h: "l_start h = l_start s" "l_size h = l_size s" "l_view h = d"
    using r by (auto simp: read_head_def Let_def split: if_splits)
  have re: "reboot e s = (reboot d s)\<lparr>l_disk := e, l_view := e\<rparr>" by (simp add: reboot_def)
  have r': "read_head (reboot e s) = Some ?h"
    unfolding re using r st by (auto simp: read_head_def Let_def split: if_splits cong: if_cong)
  have ok': "homes_ok ?h" using ok homes_ok_cong [of h ?h] by simp
  obtain u x where u: "recover_from_log (reboot e s) = Some u" "l_disk u = x"
    "same_files s x (installed ?h (nat (l_n ?h)) e)" by (rule recover_gen [OF r' ok'])
  have "installed ?h ?N e b = installed h ?N d b" if b: "\<not> in_log s b" for b
  proof (cases "\<exists>i. int i < l_n h \<and> home h i = b")
    case True
    then obtain i where i: "int i < l_n h" "home h i = b" by blast
    then have "installed ?h ?N e (home ?h i) = e (l_start s + i + 1)"
      "installed h ?N d (home h i) = d (l_start s + i + 1)"
      using installed_home [OF ok', of ?N i] installed_home [OF ok, of ?N i] h by simp_all
    then show ?thesis using i lg [OF i(1)] by simp
  next
    case False
    then have "installed ?h ?N e b = e b" "installed h ?N d b = d b"
      by (intro installed_other; auto)+
    then show ?thesis using other [OF b] False by auto
  qed
  then show ?thesis using u by (auto simp: same_files_def)
qed

text \<open>
  C14. Recovery can itself be interrupted: whichever of its disk writes a second crash follows,
  recovering again ends and produces the same file-system contents as the recovery that is
  not interrupted.
\<close>

theorem recovery_restartable:
  assumes "read_head (reboot d s) = Some h" and "homes_ok h"
    and "recover_from_log (reboot d s) = Some t" and "e \<in> set (l_hist t)"
  shows "\<exists>u. recover_from_log (reboot e s) = Some u \<and> same_files s (l_disk u) (l_disk t)"
proof -
  let ?N = "nat (l_n h)"
  have h: "l_start h = l_start s" "l_size h = l_size s"
    using assms(1) by (auto simp: read_head_def Let_def split: if_splits)
  have il: "in_log h = in_log s" by (rule in_log_cong) (simp_all add: h)
  have size: "0 < l_size s" using assms(2) h by (simp add: homes_ok_def)
  obtain f where f: "l_hist t = map (\<lambda>j. installed h (Suc j) d) [0..<?N] @ [f]" "l_disk t = f"
    "same_files s f (installed h ?N d)" "get32 0 (f (l_start s)) = 0"
    by (rule recover_gen [OF assms(1,2)]) (use assms(3) in auto)
  from assms(4) f(1) consider "e = f" | j where "j < ?N" "e = installed h (Suc j) d" by auto
  then show ?thesis
  proof cases
    case 1
    then show ?thesis using recover_idle [of f s] size f(2,4) by simp
  next
    case 2
    then have k: "int (Suc j) \<le> l_n h" by simp
    have lg: "e b = d b" if "in_log s b" for b
      using installed_log [OF assms(2) k, of b d] that 2 il by simp
    have "\<exists>u. recover_from_log (reboot e s) = Some u \<and> same_files s (l_disk u) (installed h ?N d)"
    proof (rule recover_same [OF assms(1,2)])
      show "e (l_start s) = d (l_start s)" using lg homes_ok_start [OF assms(2)] il h by simp
      show "e (l_start s + i + 1) = d (l_start s + i + 1)" if "int i < l_n h" for i
        using lg homes_okD(2) [OF assms(2) that] il h by simp
      show "e b = d b" if "\<not> in_log s b" "\<And>i. int i < l_n h \<Longrightarrow> home h i \<noteq> b" for b
        unfolding 2 by (rule installed_other) (use that(2) k in simp)
    qed
    then show ?thesis using f(2,3) by (auto simp: same_files_def)
  qed
qed

section \<open>Transactions\<close>

text \<open>
  The file-system calls in progress, each with the number of blocks it may still log. A call
  changes a block of the file system and hands it to \<^verbatim>\<open>log_write\<close> while it holds the
  buffer; \<^verbatim>\<open>end_op\<close> gives up the rest of its share.
\<close>

inductive log_step :: "logst \<times> nat multiset \<Rightarrow> logst \<times> nat multiset \<Rightarrow> bool" where
  log_begin: "begin_op s = Some t \<Longrightarrow> log_step (s, B) (t, add_mset MAXOPBLOCKS B)"
| log_change: "\<not> in_log s (unat b) \<Longrightarrow> log_write b (set_view (unat b) d s) = Some t \<Longrightarrow>
    log_step (s, add_mset (Suc k) B) (t, add_mset k B)"
| log_end: "end_op_begin s = Some (c, t) \<Longrightarrow> log_step (s, add_mset k B) (t, B)"
| log_commit: "l_committing s \<Longrightarrow> log_step (s, B) (end_op_finish s, B)"

inductive_cases log_stepE: "log_step p q"

definition log_inv :: "logst \<times> nat multiset \<Rightarrow> bool" where
  "log_inv p \<longleftrightarrow> (case p of (s, B) \<Rightarrow>
     log_wf s \<and> l_outstanding s = int (size B) \<and> l_n s + int (sum_mset B) \<le> int LOGSIZE \<and>
     (\<forall>k \<in># B. k \<le> MAXOPBLOCKS) \<and> (l_committing s \<longrightarrow> B = {#}))"

lemma log_slot_cases:
  assumes "0 \<le> l_n s"
  obtains "int (log_slot b s) < l_n s" "l_block s (log_slot b s) = b"
  | "log_slot b s = nat (l_n s)" "\<And>i. int i < l_n s \<Longrightarrow> l_block s i \<noteq> b"
proof (cases "find (\<lambda>i. l_block s i = b) [0..<nat (l_n s)]")
  case None
  then have "log_slot b s = nat (l_n s)" by (simp add: log_slot_def)
  moreover have "l_block s i \<noteq> b" if "int i < l_n s" for i using None that by (auto simp: find_None_iff)
  ultimately show ?thesis by (rule that(2))
next
  case (Some i)
  then have "log_slot b s = i" by (simp add: log_slot_def)
  moreover have "int i < l_n s" "l_block s i = b" using Some by (auto simp: find_Some_iff)
  ultimately show ?thesis using that(1) by simp
qed

lemma log_write_wf:
  assumes wf: "log_wf s" and b: "\<not> in_log s (unat b)" and w: "log_write b (set_view (unat b) d s) = Some t"
  shows "log_wf t" and "l_n t \<le> l_n s + 1" and "l_outstanding t = l_outstanding s"
    and "l_committing t = l_committing s" and "l_size t = l_size s" and "l_start t = l_start s"
    and "l_view t = (l_view s)(unat b := d)"
proof -
  let ?s = "set_view (unat b) d s"
  have n: "0 \<le> l_n s" "l_n s < int LOGSIZE" "l_n s < l_size s - 1"
    using wf w by (auto simp: log_wf_def homes_ok_def log_write_def split: if_splits)
  then have n0: "0 \<le> l_n ?s" by simp
  have "log_wf t \<and> l_n t \<le> l_n s + 1 \<and> l_outstanding t = l_outstanding s \<and> l_committing t = l_committing s \<and>
    l_size t = l_size s \<and> l_start t = l_start s \<and> l_view t = (l_view s)(unat b := d)"
  proof (cases rule: log_slot_cases [OF n0, of b])
    case 1
    have "(l_block s)(log_slot b ?s := b) = l_block s" by (rule fun_upd_idem) (use 1(2) in simp)
    then have t: "t = ?s\<lparr>l_block := l_block s\<rparr>"
      using w 1 by (auto simp: log_write_def Let_def split: if_splits)
    have il: "in_log t = in_log s" by (rule in_log_cong) (simp_all add: t)
    have "homes_ok t" using wf homes_ok_cong [of t s] by (simp add: t log_wf_def)
    then show ?thesis using wf 1 unfolding log_wf_def il by (auto simp: t)
  next
    case 2
    then have t: "t = ?s\<lparr>l_block := (l_block s)(nat (l_n s) := b),
        l_pin := (l_pin s)(unat b := l_pin s (unat b) + 1), l_n := l_n s + 1\<rparr>"
      using w n by (auto simp: log_write_def Let_def split: if_splits)
    have il: "in_log t = in_log s" by (rule in_log_cong) (simp_all add: t)
    have bl: "home t i = (if int i = l_n s then unat b else home s i)" if "int i < l_n t" for i
      using that n by (auto simp: t)
    have nb: "home s i \<noteq> unat b" if "int i < l_n s" for i
      using 2(2) [of i] that word_unat_eq_iff [of "l_block s i" b] by simp
    have "homes_ok t" unfolding homes_ok_def il
    proof (intro conjI allI impI)
      fix i assume i: "int i < l_n t"
      show "\<not> in_log s (home t i)"
        unfolding bl [OF i] using wf b i by (auto simp: log_wf_def homes_ok_def t)
      fix j assume j: "int j < l_n t" and e: "l_block t i = l_block t j"
      from e have "home t i = home t j" by simp
      then show "i = j" unfolding bl [OF i] bl [OF j]
        using nb [of i] nb [of j] i j homes_okD(3) [of s i j] wf by (auto simp: t log_wf_def split: if_splits)
    qed (use n in \<open>simp_all add: t\<close>)
    moreover have "l_view t c = l_disk t c"
      if c: "\<not> in_log s c" "\<forall>i. int i < l_n t \<longrightarrow> home t i \<noteq> c" for c
    proof -
      have "unat b \<noteq> c" using c(2) [rule_format, of "nat (l_n s)"] n by (simp add: t)
      moreover have "home s i \<noteq> c" if "int i < l_n s" for i
        using c(2) [rule_format, of i] bl [of i] that by (simp add: t)
      ultimately show ?thesis using wf c(1) by (auto simp: log_wf_def t)
    qed
    moreover have "get32 0 (l_disk t (l_start t)) = 0" using wf by (simp add: t log_wf_def)
    ultimately have "log_wf t" unfolding log_wf_def il by blast
    then show ?thesis by (simp add: t)
  qed
  then show "log_wf t" and "l_n t \<le> l_n s + 1" and "l_outstanding t = l_outstanding s"
    and "l_committing t = l_committing s" and "l_size t = l_size s" and "l_start t = l_start s"
    and "l_view t = (l_view s)(unat b := d)" by blast+
qed

lemma log_wf_cong:
  assumes "log_wf s" and "l_start t = l_start s" and "l_size t = l_size s" and "l_n t = l_n s"
    and "l_block t = l_block s" and "l_disk t = l_disk s" and "l_view t = l_view s"
  shows "log_wf t"
  using assms homes_ok_cong [of t s] in_log_cong [of t s] by (simp add: log_wf_def)

lemma commit_keeps:
  assumes "log_wf s"
  shows "l_outstanding (commit s) = l_outstanding s"
  using commit_phases(8) [OF assms] commit_noop by metis

lemma log_inv_step:
  assumes "log_step p q" and "log_inv p"
  shows "log_inv q"
  using assms
proof cases
  case (log_begin s t B)
  have t: "t = s\<lparr>l_outstanding := l_outstanding s + 1\<rparr>" "\<not> l_committing s"
    "l_n s + (l_outstanding s + 1) * int MAXOPBLOCKS \<le> int LOGSIZE"
    using log_begin(3) by (auto simp: begin_op_def split: if_splits)
  have I: "log_wf s" "l_outstanding s = int (size B)" "\<forall>k \<in># B. k \<le> MAXOPBLOCKS"
    using assms(2) log_begin by (auto simp: log_inv_def)
  have "sum_mset B \<le> size B * MAXOPBLOCKS" using I(3)
    by (induction B) auto
  then have "int (sum_mset B) \<le> int (size B) * int MAXOPBLOCKS" by (metis of_nat_le_iff of_nat_mult)
  then have "l_n s + int (sum_mset (add_mset MAXOPBLOCKS B)) \<le> int LOGSIZE"
    using t(3) I(2) by (simp add: algebra_simps)
  moreover have "log_wf t" using I(1) by (rule log_wf_cong) (simp_all add: t)
  ultimately show ?thesis using I t log_begin by (simp add: log_inv_def)
next
  case (log_change s b d t k B)
  then have "log_wf s" using assms(2) by (simp add: log_inv_def)
  note W = log_write_wf [OF this log_change(3,4)]
  show ?thesis using W assms(2) log_change(1,2) by (auto simp: log_inv_def)
next
  case (log_end s c t k B)
  have wf: "log_wf s" using assms(2) log_end by (simp add: log_inv_def)
  have t: "t = s\<lparr>l_outstanding := l_outstanding s - 1, l_committing := l_committing t\<rparr>"
    "l_committing t \<longleftrightarrow> l_outstanding s = 1"
    using log_end(3) by (auto simp: end_op_begin_def Let_def split: if_splits)
  have "log_wf t" using wf by (rule log_wf_cong) (subst t(1), simp)+
  moreover have "l_n t = l_n s" "l_outstanding t = l_outstanding s - 1" by (subst t(1), simp)+
  ultimately show ?thesis using assms(2) log_end(1,2) t(2) by (auto simp: log_inv_def)
next
  case (log_commit s B)
  then have I: "log_wf s" "B = {#}" "l_outstanding s = 0" using assms(2) by (auto simp: log_inv_def)
  have "log_wf (end_op_finish s)"
    by (rule log_wf_cong [OF log_wf_commit(2) [OF I(1)]]) (simp_all add: end_op_finish_def)
  then show ?thesis using I log_commit log_wf_commit(3) [OF I(1)] commit_keeps [OF I(1)]
    by (simp add: log_inv_def end_op_finish_def)
qed

definition log_ready :: "logst \<Rightarrow> bool" where
  "log_ready s \<longleftrightarrow> log_wf s \<and> l_n s = 0 \<and> l_outstanding s = 0 \<and> \<not> l_committing s"

lemma log_reach_inv:
  assumes "log_ready s" and "log_step\<^sup>*\<^sup>* (s, {#}) p"
  shows "log_inv p"
  using assms(2)
proof (induction rule: rtranclp_induct)
  case base
  then show ?case using assms(1) by (simp add: log_ready_def log_inv_def)
next
  case (step p q)
  then show ?case using log_inv_step by blast
qed

lemma log_reservation_facts:
  assumes "log_ready s0" and "log_step\<^sup>*\<^sup>* (s0, {#}) (s, B)"
  shows "log_wf s" and "l_n s \<le> int LOGSIZE"
    and "B \<noteq> {#} \<Longrightarrow> end_op_begin s \<noteq> None"
    and "Suc k \<in># B \<Longrightarrow> int LOGSIZE < l_size s \<Longrightarrow> log_write b (set_view (unat b) d s) \<noteq> None"
proof -
  have I: "log_inv (s, B)" by (rule log_reach_inv [OF assms])
  show "log_wf s" "l_n s \<le> int LOGSIZE" using I by (simp_all add: log_inv_def log_wf_def homes_ok_def)
  show "end_op_begin s \<noteq> None" if "B \<noteq> {#}"
    using I that by (auto simp: log_inv_def end_op_begin_def Let_def)
  show "log_write b (set_view (unat b) d s) \<noteq> None" if "Suc k \<in># B" "int LOGSIZE < l_size s"
  proof -
    from that(1) obtain C where C: "B = add_mset (Suc k) C" by (meson mset_add)
    then have "0 < sum_mset B" "0 < l_outstanding s" using I by (simp_all add: log_inv_def)
    then have "l_n s < int LOGSIZE" "1 \<le> l_outstanding s" using I by (simp_all add: log_inv_def del: of_nat_sum_mset)
    then show ?thesis using that(2) by (simp add: log_write_def Let_def)
  qed
qed

text \<open>
  In every interleaving of file-system calls that each log at most \<^verbatim>\<open>MAXOPBLOCKS\<close>
  blocks, the log never holds more than \<^verbatim>\<open>LOGSIZE\<close> blocks, every modified block is
  recorded, \<^verbatim>\<open>end_op\<close> does not panic, and if the log area has room for
  \<^verbatim>\<open>LOGSIZE\<close> blocks and the header, \<^verbatim>\<open>log_write\<close> does not panic for a call
  that keeps to its share.
\<close>

theorem log_reservation:
  assumes "log_ready s0" and "log_step\<^sup>*\<^sup>* (s0, {#}) (s, B)"
  shows "log_wf s \<and> l_n s \<le> int LOGSIZE \<and> (B \<noteq> {#} \<longrightarrow> end_op_begin s \<noteq> None) \<and>
    (\<forall>k b d. Suc k \<in># B \<longrightarrow> int LOGSIZE < l_size s \<longrightarrow> log_write b (set_view (unat b) d s) \<noteq> None)"
  using log_reservation_facts [OF assms] by blast

text \<open>
  A state in which \<^verbatim>\<open>k\<close> blocks were logged by three calls, for a log area of the size
  \<^verbatim>\<open>mkfs\<close> reserves, \<^verbatim>\<open>LOGSIZE\<close> blocks.
\<close>

definition demo_log :: "int \<Rightarrow> logst" where
  "demo_log n = \<lparr>l_start = 2, l_size = n, l_outstanding = 0, l_committing = False, l_n = 0,
     l_block = (\<lambda>_. 0), l_disk = (\<lambda>_ _. 0), l_view = (\<lambda>_ _. 0), l_pin = (\<lambda>_. 0), l_hist = []\<rparr>"

lemma demo_log_ready: "0 < n \<Longrightarrow> log_ready (demo_log n)"
  by (simp add: log_ready_def log_wf_def homes_ok_def demo_log_def get32_def)

lemma demo_log_begin: "log_step\<^sup>*\<^sup>* (demo_log n, {#})
   ((demo_log n)\<lparr>l_outstanding := 3\<rparr>, {#MAXOPBLOCKS, MAXOPBLOCKS, MAXOPBLOCKS#})"
proof -
  have "log_step (demo_log n, {#}) ((demo_log n)\<lparr>l_outstanding := 1\<rparr>, {#MAXOPBLOCKS#})"
    "log_step ((demo_log n)\<lparr>l_outstanding := 1\<rparr>, {#MAXOPBLOCKS#})
       ((demo_log n)\<lparr>l_outstanding := 2\<rparr>, {#MAXOPBLOCKS, MAXOPBLOCKS#})"
    "log_step ((demo_log n)\<lparr>l_outstanding := 2\<rparr>, {#MAXOPBLOCKS, MAXOPBLOCKS#})
       ((demo_log n)\<lparr>l_outstanding := 3\<rparr>, {#MAXOPBLOCKS, MAXOPBLOCKS, MAXOPBLOCKS#})"
    by (rule log_begin; simp add: demo_log_def begin_op_def LOGSIZE_def MAXOPBLOCKS_def)+
  then show ?thesis by (meson rtranclp.rtrancl_refl rtranclp.rtrancl_into_rtrancl)
qed

lemma demo_log_fill:
  assumes "k < LOGSIZE"
  shows "\<exists>s B. log_step\<^sup>*\<^sup>* (demo_log (int LOGSIZE), {#}) (s, B) \<and> l_n s = int k \<and> l_outstanding s = 3 \<and>
    l_start s = 2 \<and> l_size s = int LOGSIZE \<and> sum_mset B = LOGSIZE - k \<and>
    (\<forall>i < k. l_block s i = of_nat (100 + i))"
  using assms
proof (induction k)
  case 0
  show ?case using demo_log_begin [of "int LOGSIZE"]
    by (intro exI conjI) (assumption | simp add: demo_log_def LOGSIZE_def)+
next
  case (Suc k)
  then obtain s B where r: "log_step\<^sup>*\<^sup>* (demo_log (int LOGSIZE), {#}) (s, B)" and s: "l_n s = int k"
    "l_outstanding s = 3" "l_start s = 2" "l_size s = int LOGSIZE" "sum_mset B = LOGSIZE - k"
    "\<forall>i < k. l_block s i = of_nat (100 + i)" by auto
  have "sum_mset B \<noteq> 0" using s(5) Suc.prems by simp
  then obtain m C where B: "B = add_mset (Suc m) C"
    by (metis mset_add not0_implies_Suc sum_mset_0_iff)
  have un: "unat (of_nat (100 + i) :: u32) = 100 + i" if "i \<le> k" for i
    using that by (intro of_nat_inverse [OF refl]) (use Suc.prems in \<open>simp add: LOGSIZE_def MAXOPBLOCKS_def\<close>)
  from un [of k] have out: "\<not> in_log s (unat (of_nat (100 + k) :: u32))"
    using s(3,4) by (simp add: in_log_def LOGSIZE_def MAXOPBLOCKS_def)
  have ne: "l_block s i \<noteq> of_nat (100 + k)" if "i < k" for i
  proof
    assume "l_block s i = of_nat (100 + k)"
    then have "(of_nat (100 + i) :: u32) = of_nat (100 + k)" using s(6) that by simp
    then have "100 + i = 100 + k" using un [of i] un [of k] that by simp
    then show False using that by simp
  qed
  then have slot: "log_slot (of_nat (100 + k)) (set_view x d s) = k" for x d
    using s(1) by (auto simp: log_slot_def find_None_iff split: option.splits simp: find_Some_iff)
  obtain t where t: "log_write (of_nat (100 + k)) (set_view (unat (of_nat (100 + k) :: u32)) (\<lambda>_. 0) s) = Some t"
    "l_n t = int (Suc k)" "l_outstanding t = 3" "l_start t = 2" "l_size t = int LOGSIZE"
    "l_block t = (l_block s)(k := of_nat (100 + k))"
    using s slot Suc.prems by (simp add: log_write_def Let_def)
  have "log_step (s, B) (t, add_mset m C)" unfolding B by (rule log_change [OF out t(1)])
  with r have "log_step\<^sup>*\<^sup>* (demo_log (int LOGSIZE), {#}) (t, add_mset m C)" by simp
  moreover have "sum_mset (add_mset m C) = LOGSIZE - Suc k" using s(5) B by simp
  moreover have "\<forall>i < Suc k. l_block t i = of_nat (100 + i)"
    using t(6) s(6) by (simp add: less_Suc_eq del: of_nat_add)
  ultimately show ?case using t(2-5) by blast
qed

text \<open>
  The log area \<^verbatim>\<open>mkfs\<close> makes has \<^verbatim>\<open>LOGSIZE\<close> blocks, one of them the header, while
  \<^verbatim>\<open>begin_op\<close> admits calls until \<^verbatim>\<open>LOGSIZE\<close> blocks are reserved: three calls
  that each keep to \<^verbatim>\<open>MAXOPBLOCKS\<close> can reach a state in which the next
  \<^verbatim>\<open>log_write\<close> of one of them panics with \<^verbatim>\<open>"too big a transaction"\<close>.
\<close>

theorem log_reservation_short:
  "\<exists>s B k. log_ready (demo_log (int LOGSIZE)) \<and> log_step\<^sup>*\<^sup>* (demo_log (int LOGSIZE), {#}) (s, B) \<and>
     Suc k \<in># B \<and> log_write b (set_view (unat b) d s) = None"
proof -
  obtain s B where s: "log_step\<^sup>*\<^sup>* (demo_log (int LOGSIZE), {#}) (s, B)" "l_n s = int (LOGSIZE - 1)"
    "l_size s = int LOGSIZE" "sum_mset B = LOGSIZE - (LOGSIZE - 1)"
    using demo_log_fill [of "LOGSIZE - 1"] by (auto simp: LOGSIZE_def MAXOPBLOCKS_def)
  then have "sum_mset B \<noteq> 0" by (simp add: LOGSIZE_def MAXOPBLOCKS_def)
  then obtain k where "Suc k \<in># B" by (metis not0_implies_Suc sum_mset_0_iff)
  moreover have "log_write b (set_view (unat b) d s) = None"
    using s(2,3) by (simp add: log_write_def LOGSIZE_def MAXOPBLOCKS_def)
  moreover have "log_ready (demo_log (int LOGSIZE))"
    by (rule demo_log_ready) (simp add: LOGSIZE_def MAXOPBLOCKS_def)
  ultimately show ?thesis using s(1) by blast
qed


text \<open>One transaction on one block, for the witnesses.\<close>

definition demo_tx :: logst where
  "demo_tx = (demo_log 31)\<lparr>l_n := 1, l_block := (\<lambda>_. 77), l_view := (\<lambda>_ _. 0)(77 := (\<lambda>_. 5)),
     l_outstanding := 1, l_pin := (\<lambda>_. 0)(77 := 1)\<rparr>"

lemma demo_tx_wf: "log_wf demo_tx"
proof -
  have "homes_ok demo_tx"
    by (simp add: demo_tx_def demo_log_def homes_ok_def in_log_def LOGSIZE_def MAXOPBLOCKS_def)
  moreover have "l_view demo_tx b = l_disk demo_tx b" if "\<forall>i. int i < l_n demo_tx \<longrightarrow> home demo_tx i \<noteq> b" for b
    using that [rule_format, of 0] by (simp add: demo_tx_def demo_log_def)
  ultimately show ?thesis by (simp add: log_wf_def) (simp add: demo_tx_def demo_log_def get32_def)
qed

theorem commit_crash_atomic_witness:
  "log_wf demo_tx \<and> l_disk demo_tx 77 0 \<noteq> l_view demo_tx 77 0 \<and>
   same_files demo_tx (l_disk (commit demo_tx)) (l_view demo_tx) \<and>
   (\<exists>t. recover_from_log (reboot (l_disk demo_tx) demo_tx) = Some t \<and>
      (same_files demo_tx (l_disk t) (l_disk demo_tx) \<or> same_files demo_tx (l_disk t) (l_view demo_tx)))"
proof -
  have "l_disk demo_tx 77 0 \<noteq> l_view demo_tx 77 0" by (simp add: demo_tx_def demo_log_def)
  then show ?thesis using commit_crash_atomic [OF demo_tx_wf] demo_tx_wf by simp
qed

theorem recovery_restartable_witness:
  "\<exists>d t. recover_from_log (reboot d demo_tx) = Some t \<and> length (l_hist t) = 2 \<and>
     (\<exists>u. recover_from_log (reboot (l_hist t ! 0) demo_tx) = Some u \<and> same_files demo_tx (l_disk u) (l_disk t))"
proof -
  have ok: "homes_ok demo_tx" and n: "l_n demo_tx = 1"
    using demo_tx_wf by (simp_all add: log_wf_def) (simp add: demo_tx_def)
  obtain d where d: "committed demo_tx d" using committed_installed [OF demo_tx_wf, of 0] n by auto
  note r = committed_head [OF ok d]
  obtain t where t: "recover_from_log (reboot d demo_tx) = Some t" "length (l_hist t) = 2"
    by (rule recover_gen [OF r]) (use n in auto)
  have "l_hist t ! 0 \<in> set (l_hist t)" using t(2) by simp
  then show ?thesis using recovery_restartable [OF r t(1)] t by blast
qed

theorem log_reservation_witness:
  "l_n ((demo_log 31)\<lparr>l_outstanding := 3\<rparr>) \<le> int LOGSIZE \<and>
   log_write 77 (set_view 77 (\<lambda>_. 5) ((demo_log 31)\<lparr>l_outstanding := 3\<rparr>)) \<noteq> None"
proof -
  let ?s = "(demo_log 31)\<lparr>l_outstanding := 3\<rparr>"
  have "log_write b (set_view (unat b) d ?s) \<noteq> None" for b d
    using log_reservation [OF demo_log_ready demo_log_begin, of 31]
    by (simp add: MAXOPBLOCKS_def LOGSIZE_def) (simp add: demo_log_def)
  from this [of 77] show ?thesis
    using log_reservation [OF demo_log_ready demo_log_begin, of 31] by simp
qed

end
