(* ===== verification/Memory.thy ===== *)
theory Memory
  imports Kernel_Types
begin

text \<open>
  Byte-addressed memory and the routines of \<^verbatim>\<open>kernel/lib/string.c\<close> on it. Memory
  is a function from 64-bit addresses to bytes; pointer arithmetic is word arithmetic, so
  it wraps around as the hardware's does. A \<^verbatim>\<open>const char *\<close> that is only read is a
  byte view, a function from the offset to the byte. The byte counts are of type
  \<^verbatim>\<open>uint\<close> in the source and natural numbers here.
\<close>

type_synonym memory = "u64 \<Rightarrow> u8"
type_synonym bytes_view = "nat \<Rightarrow> u8"

definition view :: "memory \<Rightarrow> u64 \<Rightarrow> bytes_view" where
  "view m a = (\<lambda>i. m (a + of_nat i))"

text \<open>Little-endian loads and stores of \<open>n\<close>-byte integers.\<close>

primrec load_le :: "nat \<Rightarrow> memory \<Rightarrow> u64 \<Rightarrow> u64" where
  "load_le 0 m a = 0"
| "load_le (Suc n) m a = ucast (m a) OR push_bit 8 (load_le n m (a + 1))"

primrec store_le :: "nat \<Rightarrow> u64 \<Rightarrow> u64 \<Rightarrow> memory \<Rightarrow> memory" where
  "store_le 0 a v m = m"
| "store_le (Suc n) a v m = store_le n (a + 1) (drop_bit 8 v) (m(a := ucast v))"

abbreviation load64 :: "memory \<Rightarrow> u64 \<Rightarrow> u64" where "load64 \<equiv> load_le 8"
abbreviation store64 :: "u64 \<Rightarrow> u64 \<Rightarrow> memory \<Rightarrow> memory" where "store64 \<equiv> store_le 8"

section \<open>string.c\<close>

primrec memset :: "u64 \<Rightarrow> u8 \<Rightarrow> nat \<Rightarrow> memory \<Rightarrow> memory" where
  "memset dst c 0 m = m"
| "memset dst c (Suc n) m = memset (dst + 1) c n (m(dst := c))"

fun memcmp :: "bytes_view \<Rightarrow> bytes_view \<Rightarrow> nat \<Rightarrow> int" where
  "memcmp s1 s2 0 = 0"
| "memcmp s1 s2 (Suc n) =
     (if s1 0 \<noteq> s2 0 then int (unat (s1 0)) - int (unat (s2 0))
      else memcmp (\<lambda>i. s1 (Suc i)) (\<lambda>i. s2 (Suc i)) n)"

primrec copy_up :: "u64 \<Rightarrow> u64 \<Rightarrow> nat \<Rightarrow> memory \<Rightarrow> memory" where
  "copy_up d s 0 m = m"
| "copy_up d s (Suc n) m = copy_up (d + 1) (s + 1) n (m(d := m s))"

primrec copy_down :: "u64 \<Rightarrow> u64 \<Rightarrow> nat \<Rightarrow> memory \<Rightarrow> memory" where
  "copy_down d s 0 m = m"
| "copy_down d s (Suc n) m = copy_down (d - 1) (s - 1) n (m(d - 1 := m (s - 1)))"

definition memmove :: "u64 \<Rightarrow> u64 \<Rightarrow> nat \<Rightarrow> memory \<Rightarrow> memory" where
  "memmove dst src n m =
     (if src < dst \<and> src + of_nat n > dst
      then copy_down (dst + of_nat n) (src + of_nat n) n m
      else copy_up dst src n m)"

definition memcpy :: "u64 \<Rightarrow> u64 \<Rightarrow> nat \<Rightarrow> memory \<Rightarrow> memory" where
  "memcpy dst src n m = memmove dst src n m"

fun strncmp :: "bytes_view \<Rightarrow> bytes_view \<Rightarrow> nat \<Rightarrow> int" where
  "strncmp p q 0 = 0"
| "strncmp p q (Suc n) =
     (if p 0 \<noteq> 0 \<and> p 0 = q 0 then strncmp (\<lambda>i. p (Suc i)) (\<lambda>i. q (Suc i)) n
      else int (unat (p 0)) - int (unat (q 0)))"

text \<open>The two loops of \<^verbatim>\<open>strncpy\<close>: copy up to and including a NUL, then pad with NULs.\<close>

fun strncpy :: "u64 \<Rightarrow> u64 \<Rightarrow> nat \<Rightarrow> memory \<Rightarrow> memory" where
  "strncpy s t 0 m = m"
| "strncpy s t (Suc n) m =
     (let m' = m(s := m t)
      in if m t \<noteq> 0 then strncpy (s + 1) (t + 1) n m' else memset (s + 1) 0 n m')"

text \<open>\<^verbatim>\<open>safestrcpy\<close> with the count already decremented once, as its loop has it.\<close>

fun safestrcpy_loop :: "u64 \<Rightarrow> u64 \<Rightarrow> nat \<Rightarrow> memory \<Rightarrow> memory" where
  "safestrcpy_loop s t 0 m = m(s := 0)"
| "safestrcpy_loop s t (Suc n) m =
     (let m' = m(s := m t)
      in if m t \<noteq> 0 then safestrcpy_loop (s + 1) (t + 1) n m' else m'(s + 1 := 0))"

definition safestrcpy :: "u64 \<Rightarrow> u64 \<Rightarrow> int \<Rightarrow> memory \<Rightarrow> memory" where
  "safestrcpy s t n m = (if n \<le> 0 then m else safestrcpy_loop s t (nat (n - 1)) m)"

text \<open>\<^verbatim>\<open>strlen\<close> runs until it meets a NUL, so it is partial.\<close>

partial_function (option) strlen_from :: "bytes_view \<Rightarrow> nat \<Rightarrow> nat option" where
  "strlen_from s n = (if s n = 0 then Some n else strlen_from s (n + 1))"

definition strlen :: "bytes_view \<Rightarrow> nat option" where
  "strlen s = strlen_from s 0"

section \<open>What the routines compute\<close>

text \<open>
  Offsets are compared as \<open>unat (a - d) < n\<close>: the address \<open>a\<close> lies in the \<open>n\<close>
  bytes from \<open>d\<close>, also where the block wraps around.
\<close>

lemma unat_offset_Suc:
  fixes a d :: u64
  assumes "n < 2 ^ 64"
  shows "unat (a - d) < Suc n \<longleftrightarrow> a = d \<or> unat (a - (d + 1)) < n"
proof (cases "a = d")
  case False
  then have "a - d \<noteq> 0" by simp
  then have "unat (a - d - 1) = unat (a - d) - 1" by (rule unat_minus_one)
  moreover have "unat (a - d) \<noteq> 0" using \<open>a - d \<noteq> 0\<close> by (simp add: unat_eq_0)
  ultimately show ?thesis using False by (auto simp: diff_diff_eq)
qed simp

lemma unat_minus_self_plus: "n < 2 ^ 64 \<Longrightarrow> \<not> unat (d - (d + 1) :: u64) < n"
  by (simp add: unsigned_minus_1_eq_mask mask_eq_exp_minus_1)

lemma memset_apply:
  "n < 2 ^ 64 \<Longrightarrow> memset d c n m a = (if unat (a - d) < n then c else m a)"
proof (induction n arbitrary: d m)
  case (Suc n)
  then have "n < 2 ^ 64" by simp
  then show ?case
    unfolding memset.simps Suc.IH [OF \<open>n < 2 ^ 64\<close>]
    by (auto simp: unat_offset_Suc)
qed simp

lemma copy_up_apply:
  "n < 2 ^ 64 \<Longrightarrow> d = s \<or> n \<le> unat (d - s) \<Longrightarrow>
   copy_up d s n m a = (if unat (a - d) < n then m (s + (a - d)) else m a)"
proof (induction n arbitrary: d s m)
  case (Suc n)
  then have n: "n < 2 ^ 64" and c: "d + 1 = s + 1 \<or> n \<le> unat ((d + 1) - (s + 1))" by auto
  have ne: "s + (a - d) \<noteq> d" if "unat (a - d) < Suc n" "a \<noteq> d"
  proof
    assume "s + (a - d) = d"
    then have "d - s = a - d" by (simp add: algebra_simps)
    with that Suc.prems(2) show False by auto
  qed
  have "s + 1 + (a - (d + 1)) = s + (a - d)" by simp
  then show ?case
    unfolding copy_up.simps Suc.IH [OF n c]
    using ne unat_minus_self_plus [OF n, of d]
    by (cases "a = d") (simp_all add: unat_offset_Suc [OF n])
qed simp

lemma unat_offset_top:
  fixes a d :: u64
  assumes "n < 2 ^ 64"
  shows "unat (a - d) < Suc n \<longleftrightarrow> a = d + of_nat n \<or> unat (a - d) < n"
proof -
  have "unat (a - d) = n \<longleftrightarrow> a - d = of_nat n"
    using assms by (auto simp: word_unat_eq_iff unat_of_nat take_bit_nat_eq_self)
  then show ?thesis by (auto simp: less_Suc_eq algebra_simps)
qed

lemma copy_down_apply:
  "n < 2 ^ 64 \<Longrightarrow> d = s \<or> n \<le> unat (s - d) \<Longrightarrow>
   copy_down (d + of_nat n) (s + of_nat n) n m a =
     (if unat (a - d) < n then m (s + (a - d)) else m a)"
proof (induction n arbitrary: m)
  case (Suc n)
  then have n: "n < 2 ^ 64" and c: "d = s \<or> n \<le> unat (s - d)" by auto
  have top: "d + of_nat (Suc n) - 1 = d + of_nat n" "s + of_nat (Suc n) - 1 = s + of_nat n"
    by simp_all
  have ne: "s + (a - d) \<noteq> d + of_nat n" if "unat (a - d) < n"
  proof
    assume "s + (a - d) = d + of_nat n"
    then have e: "of_nat n = (s - d) + (a - d)" by (simp add: algebra_simps)
    show False
    proof (cases "d = s")
      case True
      with e have "unat (a - d) = n" using unat_of_nat_u64 [OF n] by simp
      with that show False by simp
    next
      case False
      with Suc.prems(2) have "Suc n \<le> unat (s - d)" by simp
      moreover have "s - d = of_nat n - (a - d)" using e by (simp add: algebra_simps)
      moreover have "a - d \<le> of_nat n"
        using that n by (simp add: word_le_nat_alt unat_of_nat take_bit_nat_eq_self)
      ultimately show False using n
        by (simp add: unat_sub unat_of_nat take_bit_nat_eq_self)
    qed
  qed
  show ?case
    unfolding copy_down.simps top Suc.IH [OF n c]
    using ne unat_offset_top [OF n, of a d]
    by (auto simp: unat_of_nat take_bit_nat_eq_self)
qed simp

lemma memmove_bytes:
  assumes "unat dst + n < 2 ^ 64" and "unat src + n < 2 ^ 64"
  shows "memmove dst src n m a = (if unat (a - dst) < n then m (src + (a - dst)) else m a)"
proof -
  have n: "n < 2 ^ 64" using assms by simp
  have sn: "unat (src + of_nat n) = unat src + n"
    using assms n by (simp add: unat_word_ariths)
  have sub: "unat (x - y) = unat x - unat y" if "y \<le> x" for x y :: u64
    using that by (rule unat_sub)
  have neg: "n \<le> unat (x - y)" if "x < y" "unat y + n < 2 ^ 64" for x y :: u64
  proof -
    have "unat (x - y) = 2 ^ 64 - (unat y - unat x)"
      using that(1) by (simp add: unat_sub_if_size word_le_nat_alt word_less_nat_alt word_size)
    with that show ?thesis by (simp add: word_less_nat_alt)
  qed
  show ?thesis
  proof (cases "src < dst \<and> src + of_nat n > dst")
    case True
    then have "n \<le> unat (src - dst)" using neg assms by blast
    then show ?thesis unfolding memmove_def using True copy_down_apply [OF n] by simp
  next
    case False
    have "dst = src \<or> n \<le> unat (dst - src)"
    proof (cases "src < dst")
      case True
      with False have "unat src + n \<le> unat dst" by (simp add: word_less_nat_alt sn not_less)
      then have "n \<le> unat (dst - src)" using sub [of src dst] True by simp
      then show ?thesis by simp
    next
      case False
      then show ?thesis using neg [of dst src] assms by fastforce
    qed
    then show ?thesis unfolding memmove_def if_not_P [OF False] by (rule copy_up_apply [OF n])
  qed
qed

lemma store_le_outside: "n < 2 ^ 64 \<Longrightarrow> \<not> unat (x - a) < n \<Longrightarrow> store_le n a v m x = m x"
  by (induction n arbitrary: a v m) (auto simp: unat_offset_Suc)

lemma load_le_cong: "(\<And>i. i < n \<Longrightarrow> m (a + of_nat i) = m' (a + of_nat i)) \<Longrightarrow> load_le n m a = load_le n m' a"
proof (induction n arbitrary: a)
  case (Suc n)
  have "m (a + 1 + of_nat i) = m' (a + 1 + of_nat i)" if "i < n" for i
    using Suc.prems [of "Suc i"] that by (simp add: ac_simps)
  then have "load_le n m (a + 1) = load_le n m' (a + 1)" by (rule Suc.IH)
  moreover have "m a = m' a" using Suc.prems [of 0] by simp
  ultimately show ?case by simp
qed simp

lemma load_le_shift:
  "(\<And>i. i < n \<Longrightarrow> m (a + of_nat i) = m' (b + of_nat i)) \<Longrightarrow> load_le n m a = load_le n m' b"
proof (induction n arbitrary: a b)
  case (Suc n)
  have "m (a + 1 + of_nat i) = m' (b + 1 + of_nat i)" if "i < n" for i
    using Suc.prems [of "Suc i"] that by (simp add: ac_simps)
  then have "load_le n m (a + 1) = load_le n m' (b + 1)" by (rule Suc.IH)
  moreover have "m a = m' b" using Suc.prems [of 0] by simp
  ultimately show ?case by simp
qed simp

lemma unat_sub_outside:
  fixes x y :: u64
  assumes "unat x < unat y \<or> unat y + n \<le> unat x" and "unat y + n < 2 ^ 64"
  shows "\<not> unat (x - y) < n"
proof (cases "unat x < unat y")
  case True
  have "unat (x - y) = 2 ^ 64 + unat x - unat y"
    using True by (simp add: unat_sub_if_size word_size word_le_nat_alt)
  then show ?thesis using assms(2) by linarith
next
  case False
  then have "unat (x - y) = unat x - unat y" by (simp add: unat_sub_if_size word_le_nat_alt)
  then show ?thesis using False assms(1) by linarith
qed

lemma store_le_first:
  assumes "n < 2 ^ 64 - 1"
  shows "store_le n (a + 1) v m a = m a"
  using assms by (intro store_le_outside)
    (simp_all add: unsigned_minus_1_eq_mask mask_eq_exp_minus_1)

lemma load_store_same: "n < 2 ^ 64 - 1 \<Longrightarrow> load_le n (store_le n a v m) a = take_bit (8 * n) v"
proof (induction n arbitrary: a v m)
  case (Suc n)
  have "load_le (Suc n) (store_le (Suc n) a v m) a =
      ucast (ucast v :: u8) OR push_bit 8 (take_bit (8 * n) (drop_bit 8 v))"
    using Suc by (simp add: store_le_first)
  also have "\<dots> = take_bit (8 * Suc n) v"
    by (rule bit_word_eqI) (auto simp: bit_simps)
  finally show ?case .
qed simp

lemma load_store_disjoint:
  assumes "n < 2 ^ 64" "\<And>i. i < k \<Longrightarrow> \<not> unat (b + of_nat i - a) < n"
  shows "load_le k (store_le n a v m) b = load_le k m b"
  by (rule load_le_cong) (use assms store_le_outside in simp)

lemma load64_store64 [simp]: "load64 (store64 a v m) a = v"
  by (simp add: load_store_same take_bit_word_eq_self)

text \<open>C strings.\<close>

lemma strncmp_0_iff:
  "strncmp p q n = 0 \<longleftrightarrow> (\<exists>k \<le> n. (\<forall>i < k. p i = q i) \<and> (k = n \<or> p k = 0 \<and> q k = 0))"
proof (induction n arbitrary: p q)
  case (Suc n)
  let ?R = "\<lambda>p q n. \<exists>k \<le> n. (\<forall>i < k. p i = q i) \<and> (k = n \<or> p k = 0 \<and> q k = (0 :: u8))"
  have step: "?R p q (Suc n) \<longleftrightarrow> p 0 = 0 \<and> q 0 = 0 \<or> p 0 = q 0 \<and> ?R (\<lambda>i. p (Suc i)) (\<lambda>i. q (Suc i)) n"
  proof
    assume "?R p q (Suc n)"
    then obtain k where k: "k \<le> Suc n" "\<forall>i<k. p i = q i" "k = Suc n \<or> p k = 0 \<and> q k = 0" by blast
    show "p 0 = 0 \<and> q 0 = 0 \<or> p 0 = q 0 \<and> ?R (\<lambda>i. p (Suc i)) (\<lambda>i. q (Suc i)) n"
    proof (cases k)
      case (Suc j)
      with k have "j \<le> n" "\<forall>i<j. p (Suc i) = q (Suc i)" "j = n \<or> p (Suc j) = 0 \<and> q (Suc j) = 0" "p 0 = q 0"
        by auto
      then show ?thesis by blast
    qed (use k in auto)
  next
    assume "p 0 = 0 \<and> q 0 = 0 \<or> p 0 = q 0 \<and> ?R (\<lambda>i. p (Suc i)) (\<lambda>i. q (Suc i)) n"
    then show "?R p q (Suc n)"
    proof (elim disjE conjE exE)
      fix k assume "k \<le> n" "\<forall>i<k. p (Suc i) = q (Suc i)" "p 0 = q 0" "p (Suc k) = 0" "q (Suc k) = 0"
      then show ?thesis by (intro exI [of _ "Suc k"]) (auto simp: less_Suc_eq_0_disj)
    next
      fix k assume "k \<le> n" "\<forall>i<k. p (Suc i) = q (Suc i)" "p 0 = q 0" "k = n"
      then show ?thesis by (intro exI [of _ "Suc n"]) (auto simp: less_Suc_eq_0_disj)
    qed (auto intro: exI [of _ 0])
  qed
  have z: "int (unat (p 0)) - int (unat (q 0)) = 0 \<longleftrightarrow> p 0 = q 0"
    by (simp add: word_uint_eq_iff)
  show ?case unfolding step strncmp.simps using Suc.IH [of "\<lambda>i. p (Suc i)" "\<lambda>i. q (Suc i)"] z by auto
qed simp

lemma strlen_from_Some:
  assumes "s k = 0" and "n \<le> k" and "\<And>i. n \<le> i \<Longrightarrow> i < k \<Longrightarrow> s i \<noteq> 0"
  shows "strlen_from s n = Some k"
  using assms
proof (induction "k - n" arbitrary: n)
  case 0
  then show ?case by (subst strlen_from.simps) simp
next
  case (Suc d)
  then have "s n \<noteq> 0" "strlen_from s (n + 1) = Some k" by auto
  then show ?case by (subst strlen_from.simps) simp
qed

text \<open>\<open>cstr s n\<close>: the string of at most \<open>n\<close> bytes at a view, without its NUL.\<close>

fun cstr :: "bytes_view \<Rightarrow> nat \<Rightarrow> u8 list" where
  "cstr s 0 = []"
| "cstr s (Suc n) = (if s 0 = 0 then [] else s 0 # cstr (\<lambda>i. s (Suc i)) n)"

lemma view_Suc: "(\<lambda>i. view m a (Suc i)) = view m (a + 1)"
  by (simp add: view_def fun_eq_iff ac_simps)

lemma view_0 [simp]: "view m a 0 = m a"
  by (simp add: view_def)

lemma cstr_cong: "(\<And>i. i < n \<Longrightarrow> s i = s' i) \<Longrightarrow> cstr s n = cstr s' n"
proof (induction n arbitrary: s s')
  case (Suc n)
  have "cstr (\<lambda>i. s (Suc i)) n = cstr (\<lambda>i. s' (Suc i)) n"
    by (rule Suc.IH) (use Suc.prems in simp)
  with Suc.prems [of 0] show ?case by simp
qed simp

lemma safestrcpy_loop_outside:
  "n < 2 ^ 64 - 1 \<Longrightarrow> \<not> unat (a - s) < Suc n \<Longrightarrow> safestrcpy_loop s t n m a = m a"
proof (induction n arbitrary: s t m)
  case (Suc n)
  have n: "n < 2 ^ 64 - 1" "Suc n < 2 ^ 64" using Suc.prems(1) by auto
  have a: "a \<noteq> s" "\<not> unat (a - (s + 1)) < Suc n"
    using Suc.prems(2) unat_offset_Suc [OF n(2)] by auto
  then have "a \<noteq> s + 1" by auto
  then show ?case using Suc.IH [OF n(1) a(2)] a(1) by (simp add: Let_def)
qed auto

lemma safestrcpy_loop_cstr:
  "n < 2 ^ 64 - 1 \<Longrightarrow> (\<And>i j. i \<le> n \<Longrightarrow> j \<le> n \<Longrightarrow> s + of_nat i \<noteq> t + of_nat j) \<Longrightarrow>
   cstr (view (safestrcpy_loop s t n m) s) (Suc n) = cstr (view m t) n"
proof (induction n arbitrary: s t m)
  case (Suc n)
  let ?m = "m(s := m t)"
  have n: "n < 2 ^ 64 - 1" using Suc.prems(1) by simp
  have d: "s + 1 + of_nat i \<noteq> t + 1 + of_nat j" if "i \<le> n" "j \<le> n" for i j
    using Suc.prems(2) [of "Suc i" "Suc j"] that by (simp add: ac_simps)
  have "s \<noteq> t + 1 + of_nat j" if "j \<le> n" for j
    using Suc.prems(2) [of 0 "Suc j"] that by (simp add: ac_simps)
  then have eq: "cstr (view ?m (t + 1)) n = cstr (view m (t + 1)) n"
    by (intro cstr_cong) (auto simp: view_def dest: less_imp_le)
  have "\<not> unat (s - (s + 1)) < Suc n"
    using Suc.prems(1) by (simp add: unsigned_minus_1_eq_mask mask_eq_exp_minus_1)
  then have "safestrcpy_loop (s + 1) (t + 1) n ?m s = m t"
    using safestrcpy_loop_outside [OF n, of s "s + 1"] by simp
  moreover have "cstr (view (safestrcpy_loop (s + 1) (t + 1) n ?m) (s + 1)) (Suc n) =
      cstr (view m (t + 1)) n"
    unfolding eq [symmetric] by (rule Suc.IH [OF n d])
  moreover have unfold: "cstr (view M a) (Suc k) = (if M a = 0 then [] else M a # cstr (view M (a + 1)) k)"
    for M a k by (simp only: cstr.simps view_0 view_Suc)
  ultimately show ?case
    by (cases "m t = 0") (simp_all add: unfold [of _ s] unfold [of m t] Let_def del: cstr.simps)
qed simp

section \<open>The routines are correct\<close>

text \<open>
  \<^verbatim>\<open>memmove\<close> copies also between overlapping blocks: afterwards every byte
  of the destination is the byte the source held before the call and every other byte is
  unchanged, for all blocks that end below the top of the address space.
\<close>

theorem memmove_correct:
  assumes "unat dst + n < 2 ^ 64" and "unat src + n < 2 ^ 64"
  shows "memmove dst src n m =
    (\<lambda>a. if unat (a - dst) < n then m (src + (a - dst)) else m a)"
  using memmove_bytes [OF assms] by blast

theorem memmove_correct_witness:
  "memmove 2 0 3 (\<lambda>a. ucast a) 4 = 2 \<and> memmove 0 2 3 (\<lambda>a. ucast a) 0 = 2"
  by (subst (1 2) memmove_correct) simp_all

text \<open>
  \<^verbatim>\<open>safestrcpy\<close> always leaves a NUL-terminated string: for a positive size
  and blocks that do not overlap, the destination holds the source string cut to
  \<^verbatim>\<open>n - 1\<close> bytes, and no byte outside the \<^verbatim>\<open>n\<close> of the destination changes.
\<close>

theorem safestrcpy_correct:
  assumes "0 < n" and "n < 2 ^ 31"
    and "\<And>i j. i < nat n \<Longrightarrow> j < nat n \<Longrightarrow> s + of_nat i \<noteq> t + of_nat j"
  shows "cstr (view (safestrcpy s t n m) s) (nat n) = cstr (view m t) (nat n - 1) \<and>
    (\<forall>a. nat n \<le> unat (a - s) \<longrightarrow> safestrcpy s t n m a = m a)"
proof -
  obtain k where k: "nat n = Suc k" "nat (n - 1) = k" "k < 2 ^ 64 - 1"
    using assms(1,2) by (cases "nat n") auto
  show ?thesis
    using safestrcpy_loop_cstr [of k s t m] safestrcpy_loop_outside [of k _ s t m] assms(1,3) k
    by (simp add: safestrcpy_def not_less less_Suc_eq_le)
qed

theorem safestrcpy_correct_witness:
  "cstr (view (safestrcpy 100 0 3 (\<lambda>a. ucast (a + 1))) 100) 3 = [1, 2]"
proof -
  have d: "(100 :: u64) + of_nat i \<noteq> 0 + of_nat j" if "i < nat 3" "j < nat 3" for i j
  proof -
    have "i \<in> {0, 1, 2}" "j \<in> {0, 1, 2}" using that by auto
    then show ?thesis by auto
  qed
  have "cstr (view (\<lambda>a. ucast (a + 1)) 0) (Suc (Suc 0)) = [1, 2]" by (simp add: view_def)
  then have "cstr (view (\<lambda>a. ucast (a + 1)) 0) (nat 3 - 1) = [1, 2]"
    by (simp add: numeral_2_eq_2 [symmetric] del: cstr.simps)
  then show ?thesis using safestrcpy_correct [of 3 100 0 "\<lambda>a. ucast (a + 1)", OF _ _ d] by simp
qed

end
