(* ===== verification/Kalloc.thy ===== *)
theory Kalloc
  imports Memory
begin

text \<open>
  The physical page allocator of \<^verbatim>\<open>kernel/mm/kalloc.c\<close>: one free list per CPU,
  threaded through the free pages themselves, stealing from the other CPUs when the own list
  is empty, and a reference count per page for copy-on-write sharing.

  The state holds memory, the list heads and the counts. \<open>kernel_end\<close> is the linker's
  symbol \<^verbatim>\<open>end\<close> and \<open>hartid\<close> the CPU that runs the operation
  (\<^verbatim>\<open>cpuid()\<close> with interrupts off). Each operation holds the lock of the list it
  changes, so it is one atomic step. \<open>None\<close> is a panic.
\<close>

section \<open>The allocator\<close>

record kmem =
  mem :: memory
  freelist :: "nat \<Rightarrow> u64"
  refcnt :: "nat \<Rightarrow> int"
  kernel_end :: u64
  hartid :: nat

definition page_idx :: "u64 \<Rightarrow> nat" where
  "page_idx pa = unat pa div 4096"

text \<open>The guard of \<^verbatim>\<open>kfree\<close> and \<^verbatim>\<open>kaddrefcnt\<close>.\<close>

definition page_ok :: "kmem \<Rightarrow> u64 \<Rightarrow> bool" where
  "page_ok s pa \<longleftrightarrow> \<not> (unat pa mod 4096 \<noteq> 0 \<or> pa < kernel_end s \<or> PHYSTOP \<le> pa)"

definition set_refcnt :: "u64 \<Rightarrow> int \<Rightarrow> kmem \<Rightarrow> kmem" where
  "set_refcnt pa c s = s\<lparr>refcnt := (refcnt s)(page_idx pa := c)\<rparr>"

definition push_free :: "u64 \<Rightarrow> kmem \<Rightarrow> kmem" where
  "push_free pa s =
     s\<lparr>mem := store64 pa (freelist s (hartid s)) (memset pa 1 4096 (mem s)),
       freelist := (freelist s)(hartid s := pa)\<rparr>"

definition kfree :: "u64 \<Rightarrow> kmem \<Rightarrow> kmem option" where
  "kfree pa s =
     (if \<not> page_ok s pa then None
      else
        let c = wrap32 (refcnt s (page_idx pa) - 1)
        in if c = 0 then Some (push_free pa (set_refcnt pa c s)) else Some (set_refcnt pa c s))"

partial_function (option) freerange_from :: "u64 \<Rightarrow> u64 \<Rightarrow> kmem \<Rightarrow> kmem option" where
  "freerange_from p pa_end s =
     (if p + PGSIZE \<le> pa_end
      then Option.bind (kfree p (set_refcnt p 1 s)) (freerange_from (p + PGSIZE) pa_end)
      else Some s)"

definition freerange :: "u64 \<Rightarrow> u64 \<Rightarrow> kmem \<Rightarrow> kmem option" where
  "freerange pa_start pa_end s = freerange_from (PGROUNDUP pa_start) pa_end s"

definition kinit :: "kmem \<Rightarrow> kmem option" where
  "kinit s = freerange (kernel_end s) PHYSTOP s"

text \<open>Taking the head of one list, and the walk over the other CPUs' lists.\<close>

definition pop_free :: "nat \<Rightarrow> kmem \<Rightarrow> kmem" where
  "pop_free i s =
     set_refcnt (freelist s i) 1 (s\<lparr>freelist := (freelist s)(i := load64 (mem s) (freelist s i))\<rparr>)"

fun steal :: "nat list \<Rightarrow> kmem \<Rightarrow> u64 \<times> kmem" where
  "steal [] s = (0, s)"
| "steal (i # is) s =
     (if i = hartid s then steal is s
      else if freelist s i \<noteq> 0 then (freelist s i, pop_free i s)
      else steal is s)"

definition kalloc :: "kmem \<Rightarrow> u64 \<times> kmem" where
  "kalloc s =
     (let (r, s) = (if freelist s (hartid s) \<noteq> 0
                    then (freelist s (hartid s), pop_free (hartid s) s)
                    else steal [0..<NCPU] s)
      in if r \<noteq> 0 then (r, s\<lparr>mem := memset r 5 4096 (mem s)\<rparr>) else (r, s))"

partial_function (option) count_free :: "memory \<Rightarrow> u64 \<Rightarrow> u64 \<Rightarrow> u64 option" where
  "count_free m p dst =
     (if p = 0 then Some dst else count_free m (load64 m p) (dst + PGSIZE))"

fun freebytes_from :: "nat list \<Rightarrow> kmem \<Rightarrow> u64 \<Rightarrow> u64 option" where
  "freebytes_from [] s dst = Some dst"
| "freebytes_from (i # is) s dst =
     Option.bind (count_free (mem s) (freelist s i) dst) (freebytes_from is s)"

definition freebytes :: "kmem \<Rightarrow> u64 option" where
  "freebytes s = freebytes_from [0..<8] s 0"

definition krefcnt :: "u64 \<Rightarrow> kmem \<Rightarrow> int" where
  "krefcnt pa s = refcnt s (page_idx pa)"

definition kaddrefcnt :: "u64 \<Rightarrow> kmem \<Rightarrow> int \<times> kmem" where
  "kaddrefcnt pa s =
     (if \<not> page_ok s pa then (- 1, s)
      else (0, set_refcnt pa (wrap32 (refcnt s (page_idx pa) + 1)) s))"

section \<open>Pages\<close>

definition in_page :: "u64 \<Rightarrow> u64 \<Rightarrow> bool" where
  "in_page p a \<longleftrightarrow> unat (a - p) < 4096"

definition page_aligned :: "u64 \<Rightarrow> bool" where
  "page_aligned p \<longleftrightarrow> unat p mod 4096 = 0"

lemma page_ok_aligned [dest]: "page_ok s p \<Longrightarrow> page_aligned p"
  by (simp add: page_ok_def page_aligned_def)

lemma in_page_iff:
  assumes "page_aligned p"
  shows "in_page p a \<longleftrightarrow> unat a div 4096 = unat p div 4096"
proof -
  obtain k where k: "unat p = 4096 * k" using assms by (auto simp: page_aligned_def)
  have b: "unat p < 2 ^ 64" "unat a < 2 ^ 64" using unat_u64_less [of p] unat_u64_less [of a] by simp_all
  show ?thesis
  proof (cases "p \<le> a")
    case True
    then have "unat (a - p) = unat a - unat p" by (rule unat_sub)
    then show ?thesis using True k by (auto simp: in_page_def word_le_nat_alt)
  next
    case False
    then have "unat (a - p) = 2 ^ 64 - (unat p - unat a)"
      by (simp add: unat_sub_if_size word_le_nat_alt word_size)
    then show ?thesis using False k b by (auto simp: in_page_def word_le_nat_alt)
  qed
qed

lemma in_page_self [simp]: "in_page p p"
  by (simp add: in_page_def)

lemma in_page_off: "k < 4096 \<Longrightarrow> in_page p (p + of_nat k)"
  by (simp add: in_page_def)

lemma in_page_unique:
  "page_aligned p \<Longrightarrow> page_aligned q \<Longrightarrow> in_page p a \<Longrightarrow> in_page q a \<Longrightarrow> p = q"
  by (auto simp: in_page_iff page_aligned_def word_unat_eq_iff)

lemma page_idx_inj: "page_aligned p \<Longrightarrow> page_aligned q \<Longrightarrow> page_idx p = page_idx q \<Longrightarrow> p = q"
  by (auto simp: page_idx_def page_aligned_def word_unat_eq_iff)

lemma memset_page: "memset p c 4096 m a = (if in_page p a then c else m a)"
  by (simp add: memset_apply in_page_def)

text \<open>An 8-byte access inside a page sees only that page.\<close>

lemma load64_page:
  assumes "\<And>a. in_page p a \<Longrightarrow> m' a = m a" and "k + 8 \<le> 4096"
  shows "load64 m' (p + of_nat k) = load64 m (p + of_nat k)"
proof (rule load_le_cong)
  fix i :: nat assume "i < 8"
  then have "in_page p (p + of_nat (k + i))" using assms(2) by (intro in_page_off) simp
  then show "m' (p + of_nat k + of_nat i) = m (p + of_nat k + of_nat i)"
    using assms(1) by (simp add: ac_simps)
qed

lemma store64_page:
  assumes "k + 8 \<le> 4096" and "\<not> in_page p a"
  shows "store64 (p + of_nat k) v m a = m a"
proof (rule store_le_outside)
  show "\<not> unat (a - (p + of_nat k)) < 8"
  proof
    assume h: "unat (a - (p + of_nat k)) < 8"
    define i where "i = unat (a - (p + of_nat k))"
    have "a - (p + of_nat k) = of_nat i" by (simp add: i_def)
    then have "a = p + of_nat (k + i)" by (simp add: algebra_simps)
    then show False using in_page_off [of "k + i" p] assms h by (simp add: i_def)
  qed
qed simp

section \<open>The free lists\<close>

fun chain :: "memory \<Rightarrow> u64 \<Rightarrow> u64 list \<Rightarrow> bool" where
  "chain m p [] \<longleftrightarrow> p = 0"
| "chain m p (x # xs) \<longleftrightarrow> p = x \<and> x \<noteq> 0 \<and> chain m (load64 m x) xs"

text \<open>
  \<open>kmem_inv s F\<close>: the state holds the free lists \<open>F\<close>. A page is on at most one list,
  the pages on the lists are exactly those with count zero, and every other page of the
  managed range has a positive count.
\<close>

definition kmem_inv :: "kmem \<Rightarrow> (nat \<Rightarrow> u64 list) \<Rightarrow> bool" where
  "kmem_inv s F \<longleftrightarrow>
     (\<forall>i < NCPU. chain (mem s) (freelist s i) (F i)) \<and> (\<forall>i \<ge> NCPU. F i = []) \<and>
     (\<forall>i. distinct (F i)) \<and> (\<forall>i j p. p \<in> set (F i) \<longrightarrow> p \<in> set (F j) \<longrightarrow> i = j) \<and>
     (\<forall>i p. p \<in> set (F i) \<longrightarrow> page_ok s p) \<and>
     (\<forall>p. page_ok s p \<longrightarrow> (refcnt s (page_idx p) = 0 \<longleftrightarrow> (\<exists>i. p \<in> set (F i))) \<and>
        0 \<le> refcnt s (page_idx p) \<and> is_int32 (refcnt s (page_idx p))) \<and>
     0 < kernel_end s \<and> hartid s < NCPU"

lemma kmem_invD:
  assumes "kmem_inv s F"
  shows "\<And>i. i < NCPU \<Longrightarrow> chain (mem s) (freelist s i) (F i)"
    and "\<And>i. NCPU \<le> i \<Longrightarrow> F i = []"
    and "\<And>i. distinct (F i)"
    and "\<And>i j p. p \<in> set (F i) \<Longrightarrow> p \<in> set (F j) \<Longrightarrow> i = j"
    and "\<And>i p. p \<in> set (F i) \<Longrightarrow> page_ok s p"
    and "\<And>p. page_ok s p \<Longrightarrow> refcnt s (page_idx p) = 0 \<longleftrightarrow> (\<exists>i. p \<in> set (F i))"
    and "\<And>p. page_ok s p \<Longrightarrow> 0 \<le> refcnt s (page_idx p)"
    and "\<And>p. page_ok s p \<Longrightarrow> is_int32 (refcnt s (page_idx p))"
    and "0 < kernel_end s" "hartid s < NCPU"
  using assms unfolding kmem_inv_def by blast+

lemma chain_head: "chain m p xs \<Longrightarrow> p = (if xs = [] then 0 else hd xs)"
  by (cases xs) auto

lemma chain_frame:
  "chain m p xs \<Longrightarrow> (\<And>x. x \<in> set xs \<Longrightarrow> load64 m' x = load64 m x) \<Longrightarrow> chain m' p xs"
  by (induction xs arbitrary: p) auto

text \<open>A change confined to one page does not disturb a list of other pages.\<close>

lemma chain_other_page:
  assumes "chain m p xs" and "\<And>x. x \<in> set xs \<Longrightarrow> page_aligned x" and "page_aligned q" "q \<notin> set xs"
    and "\<And>a. \<not> in_page q a \<Longrightarrow> m' a = m a"
  shows "chain m' p xs"
proof (rule chain_frame [OF assms(1)])
  fix x assume x: "x \<in> set xs"
  have "m' a = m a" if "in_page x a" for a
    using that x assms(2-5) in_page_unique by metis
  from load64_page [of x m' m 0, OF this] show "load64 m' x = load64 m x" by simp
qed

lemma set_refcnt_sel [simp]:
  "mem (set_refcnt pa c s) = mem s" "freelist (set_refcnt pa c s) = freelist s"
  "refcnt (set_refcnt pa c s) = (refcnt s)(page_idx pa := c)"
  "kernel_end (set_refcnt pa c s) = kernel_end s" "hartid (set_refcnt pa c s) = hartid s"
  "page_ok (set_refcnt pa c s) = page_ok s"
  by (simp_all add: set_refcnt_def page_ok_def fun_eq_iff)

lemma push_free_sel [simp]:
  "mem (push_free pa s) = store64 pa (freelist s (hartid s)) (memset pa 1 4096 (mem s))"
  "freelist (push_free pa s) = (freelist s)(hartid s := pa)"
  "refcnt (push_free pa s) = refcnt s"
  "kernel_end (push_free pa s) = kernel_end s" "hartid (push_free pa s) = hartid s"
  "page_ok (push_free pa s) = page_ok s"
  by (simp_all add: push_free_def page_ok_def fun_eq_iff)

lemma push_free_outside: "\<not> in_page pa a \<Longrightarrow> mem (push_free pa s) a = mem s a"
  using store64_page [of 0 pa a] by (simp add: memset_page)

lemma page_ok_nz: "page_ok s p \<Longrightarrow> 0 < kernel_end s \<Longrightarrow> p \<noteq> 0"
  by (auto simp: page_ok_def)

lemma kmem_inv_set_refcnt:
  assumes I: "kmem_inv s F" and ok: "page_ok s pa" and c: "0 < c" "is_int32 c"
    and a: "refcnt s (page_idx pa) \<noteq> 0"
  shows "kmem_inv (set_refcnt pa c s) F"
  using I a c unfolding kmem_inv_def set_refcnt_sel
  by (auto dest: page_idx_inj [OF page_ok_aligned page_ok_aligned [OF ok]])

lemma kmem_inv_push:
  assumes I: "kmem_inv s F" and ok: "page_ok s pa" and a: "refcnt s (page_idx pa) \<noteq> 0"
  shows "kmem_inv (push_free pa (set_refcnt pa 0 s)) (F(hartid s := pa # F (hartid s)))"
proof -
  let ?s = "push_free pa (set_refcnt pa 0 s)" and ?h = "hartid s"
  note inv = kmem_invD [OF I]
  have nin: "pa \<notin> set (F i)" for i using inv(6) [OF ok] a by blast
  have other: "chain (mem ?s) (freelist s i) (F i)" if "i < NCPU" for i
    by (rule chain_other_page [OF inv(1) [OF that], of pa])
      (use inv(5) nin ok push_free_outside in auto)
  have top: "load64 (mem ?s) pa = freelist s ?h" by simp
  have chains: "chain (mem ?s) (freelist ?s i) ((F(?h := pa # F ?h)) i)" if "i < NCPU" for i
    using other [OF that] top page_ok_nz [OF ok inv(9)] by (auto simp del: push_free_sel(1))
  have cnt: "(refcnt ?s (page_idx p) = 0 \<longleftrightarrow> (\<exists>i. p \<in> set ((F(?h := pa # F ?h)) i))) \<and>
      0 \<le> refcnt ?s (page_idx p) \<and> is_int32 (refcnt ?s (page_idx p))" if "page_ok s p" for p
  proof -
    have "(\<exists>i. p \<in> set ((F(?h := pa # F ?h)) i)) \<longleftrightarrow> p = pa \<or> (\<exists>i. p \<in> set (F i))"
      unfolding ex_mem_upd by (simp, metis)
    then show ?thesis
      using inv(6-8) [OF that] page_idx_inj [OF page_ok_aligned [OF that] page_ok_aligned [OF ok]]
      by (auto simp: is_int32_def)
  qed
  have one: "i = j" if "p \<in> set ((F(?h := pa # F ?h)) i)" "p \<in> set ((F(?h := pa # F ?h)) j)" for i j p
    using that inv(4) nin by (auto split: if_splits)
  have "page_ok s p" if "p \<in> set ((F(?h := pa # F ?h)) i)" for i p
    using that inv(5) ok by (auto split: if_splits)
  moreover have "distinct ((F(?h := pa # F ?h)) i)" for i using inv(3) nin by simp
  moreover have "NCPU \<le> i \<Longrightarrow> (F(?h := pa # F ?h)) i = []" for i using inv(2,10) by auto
  ultimately show ?thesis
    unfolding kmem_inv_def push_free_sel(4-6) set_refcnt_sel(4-6)
    using chains cnt one inv(9,10) by blast
qed

lemma pop_free_sel [simp]:
  "mem (pop_free i s) = mem s"
  "freelist (pop_free i s) = (freelist s)(i := load64 (mem s) (freelist s i))"
  "refcnt (pop_free i s) = (refcnt s)(page_idx (freelist s i) := 1)"
  "kernel_end (pop_free i s) = kernel_end s" "hartid (pop_free i s) = hartid s"
  "page_ok (pop_free i s) = page_ok s"
  by (simp_all add: pop_free_def page_ok_def fun_eq_iff)

text \<open>Taking the head off a list and filling the page with junk.\<close>

lemma kmem_inv_pop:
  assumes I: "kmem_inv s F" and F: "F i = p # ps"
  shows "kmem_inv ((pop_free i s)\<lparr>mem := memset p 5 4096 (mem s)\<rparr>) (F(i := ps))"
    and "freelist s i = p"
proof -
  let ?s = "(pop_free i s)\<lparr>mem := memset p 5 4096 (mem s)\<rparr>"
  note inv = kmem_invD [OF I]
  have iN: "i < NCPU" using inv(2) [of i] F by (cases "i < NCPU") auto
  have ok: "page_ok s p" using inv(5) [of p i] F by simp
  show fl: "freelist s i = p" using inv(1) [OF iN] F by simp
  have rest: "chain (mem s) (load64 (mem s) p) ps" using inv(1) [OF iN] F by simp
  have nin: "p \<notin> set ((F(i := ps)) j)" for j using inv(3) [of i] inv(4) [of p i j] F by auto
  have sub: "set ((F(i := ps)) j) \<subseteq> set (F j)" for j using F by auto
  have pok: "page_ok ?s = page_ok s" by (simp add: page_ok_def fun_eq_iff)
  have chains: "chain (mem ?s) (freelist ?s j) ((F(i := ps)) j)" if "j < NCPU" for j
  proof -
    have "chain (mem s) (freelist ?s j) ((F(i := ps)) j)"
      using inv(1) [OF that] rest fl by simp
    then show ?thesis
      by (rule chain_other_page [of _ _ _ p])
        (use inv(5) sub nin ok in \<open>auto simp: memset_page\<close>)
  qed
  have mem_iff: "(\<exists>j. q \<in> set ((F(i := ps)) j)) \<longleftrightarrow> (\<exists>j. q \<in> set (F j)) \<and> q \<noteq> p" for q
  proof -
    have "q \<in> set (F j) \<Longrightarrow> q \<noteq> p \<Longrightarrow> q \<in> set ((F(i := ps)) j)" for j using F by auto
    then show ?thesis using sub nin by blast
  qed
  have cnt: "(refcnt ?s (page_idx q) = 0 \<longleftrightarrow> (\<exists>j. q \<in> set ((F(i := ps)) j))) \<and>
      0 \<le> refcnt ?s (page_idx q) \<and> is_int32 (refcnt ?s (page_idx q))" if "page_ok s q" for q
    unfolding mem_iff
    using inv(6-8) [OF that] page_idx_inj [OF page_ok_aligned [OF that] page_ok_aligned [OF ok]] fl
    by (auto simp: is_int32_def)
  have "distinct ((F(i := ps)) j)" for j using inv(3) [of j] inv(3) [of i] F by auto
  moreover have "NCPU \<le> j \<Longrightarrow> (F(i := ps)) j = []" for j using inv(2) iN by auto
  moreover have "0 < kernel_end ?s" "hartid ?s < NCPU" using inv(9,10) by simp_all
  ultimately show "kmem_inv ?s (F(i := ps))"
    unfolding kmem_inv_def pok using chains cnt inv(4,5) sub by blast
qed

lemma kfree_last:
  assumes "kmem_inv s F" and "page_ok s pa" and "refcnt s (page_idx pa) = 1"
  shows "kfree pa s = Some (push_free pa (set_refcnt pa 0 s))"
  using assms by (simp add: kfree_def Let_def is_int32_def)

lemma kfree_shared:
  assumes "kmem_inv s F" and "page_ok s pa" and "1 < refcnt s (page_idx pa)"
  shows "kfree pa s = Some (set_refcnt pa (refcnt s (page_idx pa) - 1) s)"
proof -
  have "is_int32 (refcnt s (page_idx pa) - 1)"
    using kmem_invD(8) [OF assms(1,2)] assms(3) by (simp add: is_int32_def)
  then show ?thesis using assms by (simp add: kfree_def)
qed

lemma steal_cases:
  assumes "kmem_inv s F" and "set is \<subseteq> {..<NCPU}"
  shows "(\<forall>i \<in> set is. i \<noteq> hartid s \<longrightarrow> F i = []) \<and> steal is s = (0, s) \<or>
    (\<exists>i p ps. F i = p # ps \<and> steal is s = (p, pop_free i s))"
  using assms(2)
proof (induction "is")
  case (Cons i "is")
  have h: "freelist s i = (if F i = [] then 0 else hd (F i))"
    using kmem_invD(1) [OF assms(1), of i] Cons.prems by (intro chain_head) simp
  consider "i = hartid s \<or> F i = []" | p ps where "i \<noteq> hartid s" "F i = p # ps"
    by (cases "F i") auto
  then show ?case
  proof cases
    case 1
    then show ?thesis using Cons h by auto
  next
    case 2
    moreover have "p \<noteq> 0"
      using 2 kmem_invD(5,9) [OF assms(1)] page_ok_nz by (metis list.set_intros(1))
    ultimately show ?thesis using h by auto
  qed
qed simp

lemma kalloc_cases:
  assumes I: "kmem_inv s F"
  obtains (none) "\<And>i. F i = []" "kalloc s = (0, s)"
  | (page) i p ps where "F i = p # ps" "p \<noteq> 0"
      "kalloc s = (p, (pop_free i s)\<lparr>mem := memset p 5 4096 (mem s)\<rparr>)"
proof -
  note inv = kmem_invD [OF I]
  have nz: "p \<noteq> 0" if "F i = p # ps" for i p ps
    using that inv(5) [of p i] inv(9) page_ok_nz by auto
  have h: "freelist s (hartid s) = (if F (hartid s) = [] then 0 else hd (F (hartid s)))"
    using inv(1) [OF inv(10)] by (rule chain_head)
  show thesis
  proof (cases "F (hartid s)")
    case (Cons p ps)
    then show thesis using page [OF Cons nz [OF Cons]] h nz [OF Cons] by (simp add: kalloc_def)
  next
    case Nil
    have "set [0..<NCPU] \<subseteq> {..<NCPU}" by auto
    from steal_cases [OF I this] show thesis
    proof (elim disjE conjE exE)
      assume e: "\<forall>i\<in>set [0..<NCPU]. i \<noteq> hartid s \<longrightarrow> F i = []" and "steal [0..<NCPU] s = (0, s)"
      then have "kalloc s = (0, s)" using Nil h by (simp add: kalloc_def)
      moreover have "F i = []" for i using e Nil inv(2) [of i] by (cases "i < NCPU"; cases "i = hartid s") auto
      ultimately show thesis using none by blast
    next
      fix i p ps assume "F i = p # ps" "steal [0..<NCPU] s = (p, pop_free i s)"
      then show thesis using page [of i p ps] nz [of i p ps] Nil h by (simp add: kalloc_def)
    qed
  qed
qed

section \<open>The allocator as an interface\<close>

text \<open>
  What the virtual-memory code relies on. \<open>ok s p\<close> says that \<open>p\<close> is a page the
  allocator manages, \<open>cnt\<close> is its reference count and \<open>rd\<close> reads a byte of memory.
\<close>

locale page_allocator =
  fixes valid :: "'s \<Rightarrow> bool"
    and ok :: "'s \<Rightarrow> u64 \<Rightarrow> bool"
    and cnt :: "'s \<Rightarrow> u64 \<Rightarrow> int"
    and rd :: "'s \<Rightarrow> u64 \<Rightarrow> u8"
    and alloc :: "'s \<Rightarrow> u64 \<times> 's"
    and free :: "u64 \<Rightarrow> 's \<Rightarrow> 's option"
  assumes ok_nonnull: "valid s \<Longrightarrow> ok s p \<Longrightarrow> p \<noteq> 0 \<and> page_aligned p"
    and alloc_null: "valid s \<Longrightarrow> alloc s = (0, s') \<Longrightarrow>
      s' = s \<and> (\<forall>p. ok s p \<longrightarrow> cnt s p \<noteq> 0)"
    and alloc_page: "valid s \<Longrightarrow> alloc s = (p, s') \<Longrightarrow> p \<noteq> 0 \<Longrightarrow>
      valid s' \<and> ok s p \<and> ok s' = ok s \<and> cnt s p = 0 \<and> cnt s' p = 1 \<and>
      (\<forall>q. ok s q \<longrightarrow> q \<noteq> p \<longrightarrow> cnt s' q = cnt s q) \<and>
      (\<forall>a. rd s' a = (if in_page p a then 5 else rd s a))"
    and free_page: "valid s \<Longrightarrow> ok s p \<Longrightarrow> 1 \<le> cnt s p \<Longrightarrow>
      \<exists>s'. free p s = Some s' \<and> valid s' \<and> ok s' = ok s \<and> cnt s' p = cnt s p - 1 \<and>
        (\<forall>q. ok s q \<longrightarrow> q \<noteq> p \<longrightarrow> cnt s' q = cnt s q) \<and>
        (\<forall>a. (1 < cnt s p \<or> \<not> in_page p a) \<longrightarrow> rd s' a = rd s a)"
    and free_bad: "\<not> ok s p \<Longrightarrow> free p s = None"
begin

text \<open>A page in use is never handed out again, and its bytes survive the allocation.\<close>

lemma alloc_fresh:
  assumes "valid s" and "alloc s = (p, s')" and "ok s q" and "1 \<le> cnt s q"
  shows "p \<noteq> q" and "cnt s' q = cnt s q" and "in_page q a \<Longrightarrow> rd s' a = rd s a"
proof -
  have A: "p \<noteq> q \<and> cnt s' q = cnt s q \<and> (in_page q a \<longrightarrow> rd s' a = rd s a)" for a
  proof (cases "p = 0")
    case True
    then show ?thesis using alloc_null [OF assms(1)] assms(2) ok_nonnull [OF assms(1,3)] by auto
  next
    case False
    note pg = alloc_page [OF assms(1,2) False]
    have ne: "p \<noteq> q" using pg assms(4) by (metis not_one_le_zero)
    have "page_aligned p" "page_aligned q" using pg ok_nonnull [OF assms(1)] assms(3) by blast+
    from in_page_unique [OF this] ne have "in_page q a \<Longrightarrow> \<not> in_page p a" by blast
    with ne pg assms(3) show ?thesis by presburger
  qed
  show "p \<noteq> q" and "cnt s' q = cnt s q" and "in_page q a \<Longrightarrow> rd s' a = rd s a" using A by auto
qed

lemma alloc_valid: "valid s \<Longrightarrow> alloc s = (p, s') \<Longrightarrow> valid s' \<and> ok s' = ok s"
  using alloc_null [of s s'] alloc_page [of s p s'] by (cases "p = 0") simp_all

lemma alloc_twice_distinct:
  assumes "valid s" and "alloc s = (p, s1)" and "p \<noteq> 0" and "alloc s1 = (q, s2)"
  shows "p \<noteq> q"
proof -
  have "valid s1" "ok s1 p" "1 \<le> cnt s1 p" using alloc_page [OF assms(1-3)] by simp_all
  then show ?thesis using alloc_fresh(1) [OF _ assms(4)] by blast
qed

end

definition kvalid :: "kmem \<Rightarrow> bool" where
  "kvalid s \<longleftrightarrow> (\<exists>F. kmem_inv s F)"

lemma kalloc_null:
  assumes "kvalid s" and "kalloc s = (0, s')"
  shows "s' = s" and "page_ok s p \<Longrightarrow> refcnt s (page_idx p) \<noteq> 0"
proof -
  obtain F where F: "kmem_inv s F" using assms(1) kvalid_def by blast
  from F have "s' = s \<and> (page_ok s p \<longrightarrow> refcnt s (page_idx p) \<noteq> 0)"
  proof (cases rule: kalloc_cases)
    case none
    then show ?thesis using assms(2) kmem_invD(6) [OF F] by simp
  next
    case (page i p ps)
    then show ?thesis using assms(2) by simp
  qed
  then show "s' = s" and "page_ok s p \<Longrightarrow> refcnt s (page_idx p) \<noteq> 0" by simp_all
qed

lemma kalloc_page:
  assumes "kvalid s" and "kalloc s = (p, s')" and "p \<noteq> 0"
  shows "kvalid s'" and "page_ok s p" and "page_ok s' = page_ok s"
    and "refcnt s (page_idx p) = 0" and "refcnt s' = (refcnt s)(page_idx p := 1)"
    and "mem s' = (\<lambda>a. if in_page p a then 5 else mem s a)"
    and "kernel_end s' = kernel_end s" and "hartid s' = hartid s"
proof -
  obtain F where F: "kmem_inv s F" using assms(1) kvalid_def by blast
  from F obtain i ps where i: "F i = p # ps"
    and s': "s' = (pop_free i s)\<lparr>mem := memset p 5 4096 (mem s)\<rparr>"
    using assms(2,3) by (cases rule: kalloc_cases) auto
  note pop = kmem_inv_pop [OF F i]
  show "kvalid s'" using pop(1) s' kvalid_def by blast
  show ok: "page_ok s p" using kmem_invD(5) [OF F, of p i] i by simp
  show "refcnt s (page_idx p) = 0" using kmem_invD(6) [OF F ok] i by (metis list.set_intros(1))
  show "page_ok s' = page_ok s" by (simp add: s' page_ok_def fun_eq_iff)
  show "mem s' = (\<lambda>a. if in_page p a then 5 else mem s a)"
    by (simp add: s' fun_eq_iff memset_page)
  show "refcnt s' = (refcnt s)(page_idx p := 1)" by (simp add: s' pop(2))
  show "kernel_end s' = kernel_end s" and "hartid s' = hartid s" by (simp_all add: s')
qed

lemma kfree_page:
  assumes "kvalid s" and "page_ok s p" and "1 \<le> refcnt s (page_idx p)"
  obtains s' where "kfree p s = Some s'" "kvalid s'" "page_ok s' = page_ok s"
    "refcnt s' = (refcnt s)(page_idx p := refcnt s (page_idx p) - 1)"
    "\<And>a. 1 < refcnt s (page_idx p) \<or> \<not> in_page p a \<Longrightarrow> mem s' a = mem s a"
    "kernel_end s' = kernel_end s" "hartid s' = hartid s"
proof -
  obtain F where F: "kmem_inv s F" using assms(1) kvalid_def by blast
  show thesis
  proof (cases "refcnt s (page_idx p) = 1")
    case True
    let ?s = "push_free p (set_refcnt p 0 s)"
    have "kmem_inv ?s (F(hartid s := p # F (hartid s)))"
      using True by (intro kmem_inv_push [OF F assms(2)]) simp
    moreover have "mem ?s a = mem s a" if "1 < refcnt s (page_idx p) \<or> \<not> in_page p a" for a
      using push_free_outside [of p a "set_refcnt p 0 s"] that True by (simp del: push_free_sel(1))
    ultimately show thesis
      using that [OF kfree_last [OF F assms(2) True]] True
      by (simp add: kvalid_def del: push_free_sel(1)) blast
  next
    case False
    then have gt: "1 < refcnt s (page_idx p)" using assms(3) by simp
    have "is_int32 (refcnt s (page_idx p) - 1)"
      using kmem_invD(8) [OF F assms(2)] gt by (simp add: is_int32_def)
    then have "kmem_inv (set_refcnt p (refcnt s (page_idx p) - 1) s) F"
      using gt by (intro kmem_inv_set_refcnt [OF F assms(2)]) simp_all
    then show thesis using that [OF kfree_shared [OF F assms(2) gt]] by (auto simp: kvalid_def)
  qed
qed

lemma kvalid_nonnull: "kvalid s \<Longrightarrow> page_ok s p \<Longrightarrow> p \<noteq> 0"
  unfolding kvalid_def using kmem_invD(9) page_ok_nz by blast

interpretation pa: page_allocator kvalid page_ok "\<lambda>s p. refcnt s (page_idx p)" mem kalloc kfree
proof (unfold_locales, goal_cases)
  case (1 s p)
  then show ?case using kvalid_nonnull by blast
next
  case (2 s s')
  then show ?case using kalloc_null by blast
next
  case (3 s p s')
  note pg = kalloc_page [OF 3]
  have "page_idx q \<noteq> page_idx p" if "page_ok s q" "q \<noteq> p" for q
    using that pg(2) page_idx_inj by blast
  then show ?case using pg by simp
next
  case (4 s p)
  have idx: "page_idx q \<noteq> page_idx p" if "page_ok s q" "q \<noteq> p" for q
    using that 4(2) page_idx_inj by blast
  show ?case by (rule kfree_page [OF 4]) (use idx in simp)
next
  case (5 s p)
  then show ?case by (simp add: kfree_def)
qed

text \<open>The free-memory count.\<close>

lemma count_free_chain: "chain m p xs \<Longrightarrow> count_free m p dst = Some (dst + of_nat (4096 * length xs))"
proof (induction xs arbitrary: p dst)
  case Nil
  then show ?case by (subst count_free.simps) simp
next
  case (Cons x xs)
  then show ?case by (subst count_free.simps) (simp add: PGSIZE_def algebra_simps)
qed

lemma freebytes_from_chain:
  "(\<And>i. i \<in> set is \<Longrightarrow> chain (mem s) (freelist s i) (F i)) \<Longrightarrow>
   freebytes_from is s dst = Some (dst + of_nat (4096 * (\<Sum>i\<leftarrow>is. length (F i))))"
proof (induction "is" arbitrary: dst)
  case (Cons i "is")
  have "count_free (mem s) (freelist s i) dst = Some (dst + of_nat (4096 * length (F i)))"
    by (rule count_free_chain) (simp add: Cons.prems)
  with Cons show ?case by (simp add: algebra_simps)
qed simp

text \<open>Start-up: \<^verbatim>\<open>freerange\<close> builds the list page by page.\<close>

definition building :: "kmem \<Rightarrow> u64 \<Rightarrow> u64 list \<Rightarrow> bool" where
  "building s p xs \<longleftrightarrow>
     chain (mem s) (freelist s (hartid s)) xs \<and> distinct xs \<and>
     (\<forall>i. i \<noteq> hartid s \<longrightarrow> freelist s i = 0) \<and>
     set xs = {q. page_ok s q \<and> q < p} \<and> (\<forall>q \<in> set xs. refcnt s (page_idx q) = 0) \<and>
     0 < kernel_end s \<and> hartid s < NCPU"

lemma page_below_next:
  assumes "page_aligned p" "page_aligned q" "unat p + 4096 < 2 ^ 64"
  shows "q < p + 4096 \<longleftrightarrow> q < p \<or> q = p"
proof -
  have "unat (p + 4096) = unat p + 4096" using assms(3) by (simp add: unat_word_ariths)
  moreover obtain j where "unat p = 4096 * j" using assms(1) by (auto simp: page_aligned_def)
  moreover obtain k where "unat q = 4096 * k" using assms(2) by (auto simp: page_aligned_def)
  ultimately show ?thesis by (auto simp: word_less_nat_alt word_unat_eq_iff)
qed

lemma building_step:
  assumes B: "building s p xs" and ok: "page_ok s p"
  shows "\<exists>s'. kfree p (set_refcnt p 1 s) = Some s' \<and> building s' (p + 4096) (p # xs) \<and>
    page_ok s' = page_ok s"
proof -
  let ?s = "push_free p (set_refcnt p 0 (set_refcnt p 1 s))"
  note b = B [unfolded building_def]
  have k: "kfree p (set_refcnt p 1 s) = Some ?s"
    using ok by (simp add: kfree_def is_int32_def)
  have nin: "p \<notin> set xs" using b by auto
  have al: "page_aligned q" if "q \<in> set xs" for q using that b by auto
  have idx: "page_idx q \<noteq> page_idx p" if "q \<in> set xs" for q
    using that nin al page_idx_inj page_ok_aligned [OF ok] by metis
  have "chain (mem s) (freelist s (hartid s)) xs" using b by blast
  then have "chain (mem ?s) (freelist s (hartid s)) xs"
    by (rule chain_other_page [of _ _ _ p])
      (use nin al ok push_free_outside in auto)
  then have "chain (mem ?s) (freelist ?s (hartid ?s)) (p # xs)"
    using page_ok_nz [OF ok] b by simp
  moreover have "set (p # xs) = {q. page_ok s q \<and> q < p + 4096}"
  proof -
    have "unat p + 4096 < 2 ^ 64" using ok by (simp add: page_ok_def PHYSTOP_def KERNBASE_def word_le_nat_alt)
    then have "page_ok s q \<and> q < p + 4096 \<longleftrightarrow> page_ok s q \<and> q < p \<or> q = p" for q
      using page_below_next [of p q] ok by blast
    then show ?thesis using b by auto
  qed
  moreover have "\<forall>q \<in> set (p # xs). refcnt ?s (page_idx q) = 0" using b idx by simp
  ultimately have "building ?s (p + 4096) (p # xs)"
    using b nin unfolding building_def by (simp only: push_free_sel set_refcnt_sel) auto
  then show ?thesis using k by auto
qed

lemma freerange_from_ok:
  assumes "building s p xs" and "unat p = 4096 * k" and "kernel_end s \<le> p" and "k \<le> 0x88000"
  shows "\<exists>s' xs'. freerange_from p PHYSTOP s = Some s' \<and> building s' PHYSTOP xs' \<and>
    page_ok s' = page_ok s"
  using assms
proof (induction "0x88000 - k" arbitrary: k p s xs)
  case 0
  have P: "unat PHYSTOP = 0x88000000" by (simp add: PHYSTOP_def KERNBASE_def)
  have "unat p = 0x88000000" using 0 by simp
  then have "p = PHYSTOP" and "unat (p + 4096) = 0x88001000"
    using P by (simp_all add: word_unat_eq_iff unat_word_ariths)
  then have "\<not> p + PGSIZE \<le> PHYSTOP" using P by (simp add: word_le_nat_alt PGSIZE_def)
  then show ?case using 0 \<open>p = PHYSTOP\<close> by (subst freerange_from.simps) auto
next
  case (Suc d)
  have P: "unat PHYSTOP = 0x88000000" by (simp add: PHYSTOP_def KERNBASE_def)
  have lt: "k < 0x88000" using Suc.hyps(2) by simp
  have p1: "unat (p + 4096) = 4096 * Suc k" using lt Suc.prems(2) by (simp add: unat_word_ariths)
  have ok: "page_ok s p"
    using Suc.prems(2,3) P lt by (simp add: page_ok_def word_le_nat_alt word_less_nat_alt)
  obtain s1 where s1: "kfree p (set_refcnt p 1 s) = Some s1" "building s1 (p + 4096) (p # xs)"
    "page_ok s1 = page_ok s" using building_step [OF Suc.prems(1) ok] by blast
  have "kernel_end s1 = kernel_end s" using s1(1) by (auto simp: kfree_def Let_def split: if_splits)
  then have ke: "kernel_end s1 \<le> p + 4096"
    using p1 Suc.prems(2,3) by (simp add: word_le_nat_alt)
  have "p + PGSIZE \<le> PHYSTOP" using p1 P lt by (simp add: word_le_nat_alt PGSIZE_def)
  moreover have "d = 0x88000 - Suc k" using Suc.hyps(2) by simp
  ultimately show ?case
    using Suc.hyps(1) [OF _ s1(2) p1 ke] lt s1(1,3)
    by (subst freerange_from.simps) (simp add: PGSIZE_def)
qed

lemma unat_PGROUNDUP:
  assumes "unat a + 4095 < 2 ^ 64"
  shows "unat (PGROUNDUP a) = (unat a + 4095) div 4096 * 4096"
proof -
  have "PGROUNDUP a = PGROUNDDOWN (a + 4095)"
    by (simp add: PGROUNDUP_def PGROUNDDOWN_def PGSIZE_def algebra_simps)
  moreover have "unat (a + 4095) = unat a + 4095" using assms by (simp add: unat_word_ariths)
  ultimately show ?thesis by (simp add: unat_PGROUNDDOWN)
qed

lemma kinit_builds:
  assumes "0 < kernel_end s" and "kernel_end s \<le> PHYSTOP" and "\<And>i. freelist s i = 0"
    and "hartid s < NCPU"
  shows "\<exists>s' xs. kinit s = Some s' \<and> building s' PHYSTOP xs \<and> page_ok s' = page_ok s"
proof -
  have P: "unat PHYSTOP = 0x88000000" by (simp add: PHYSTOP_def KERNBASE_def)
  define k where "k = (unat (kernel_end s) + 4095) div 4096"
  have e: "unat (kernel_end s) \<le> 0x88000000" using assms(2) P by (simp add: word_le_nat_alt)
  then have p: "unat (PGROUNDUP (kernel_end s)) = 4096 * k"
    by (simp add: unat_PGROUNDUP k_def)
  have "kernel_end s \<le> PGROUNDUP (kernel_end s)" unfolding word_le_nat_alt p k_def by simp
  moreover have "k \<le> 0x88000" using e by (simp add: k_def)
  moreover have "building s (PGROUNDUP (kernel_end s)) []"
  proof -
    have "\<not> q < PGROUNDUP (kernel_end s)" if ok: "page_ok s q" for q
    proof -
      obtain j where "unat q = 4096 * j" using ok by (auto simp: page_ok_def)
      moreover have "unat (kernel_end s) \<le> unat q" using ok by (simp add: page_ok_def word_less_nat_alt)
      ultimately show ?thesis unfolding word_less_nat_alt p k_def by auto
    qed
    then show ?thesis using assms by (auto simp: building_def)
  qed
  ultimately show ?thesis
    unfolding kinit_def freerange_def using freerange_from_ok [OF _ p] by blast
qed

lemma building_inv:
  assumes "building s PHYSTOP xs"
  shows "kmem_inv s ((\<lambda>_. [])(hartid s := xs))" and "set xs = {p. page_ok s p}"
proof -
  note b = assms [unfolded building_def]
  have "page_ok s p \<Longrightarrow> p < PHYSTOP" for p by (auto simp: page_ok_def)
  then show set: "set xs = {p. page_ok s p}" using b by auto
  have "chain (mem s) (freelist s i) (((\<lambda>_. [])(hartid s := xs)) i)" for i using b by simp
  moreover have "(\<exists>i. p \<in> set (((\<lambda>_. [])(hartid s := xs)) i)) \<longleftrightarrow> p \<in> set xs" for p
    by (simp add: ex_mem_upd)
  moreover have "refcnt s (page_idx p) = 0" if "page_ok s p" for p using b set that by auto
  ultimately show "kmem_inv s ((\<lambda>_. [])(hartid s := xs))"
    using b set by (auto simp: kmem_inv_def is_int32_def split: if_splits)
qed

lemma free_pages_card:
  assumes "kmem_inv s F"
  shows "(\<Sum>i\<leftarrow>[0..<NCPU]. length (F i)) = card {p. page_ok s p \<and> refcnt s (page_idx p) = 0}"
proof -
  note inv = kmem_invD [OF assms]
  have "p \<in> set (F i) \<Longrightarrow> i < NCPU" for p i using inv(2) [of i] by (cases "i < NCPU") auto
  then have "p \<in> (\<Union>i<NCPU. set (F i)) \<longleftrightarrow> (\<exists>i. p \<in> set (F i))" for p by blast
  moreover have "(\<exists>i. p \<in> set (F i)) \<longleftrightarrow> page_ok s p \<and> refcnt s (page_idx p) = 0" for p
    using inv(5) [of p] inv(6) [of p] by blast
  ultimately have U: "(\<Union>i<NCPU. set (F i)) = {p. page_ok s p \<and> refcnt s (page_idx p) = 0}"
    by (simp add: set_eq_iff)
  have "(\<Sum>i\<leftarrow>[0..<NCPU]. length (F i)) = (\<Sum>i<NCPU. card (set (F i)))"
    using inv(3) by (simp add: distinct_card interv_sum_list_conv_sum_set_nat atLeast0LessThan)
  also have "\<dots> = card (\<Union>i<NCPU. set (F i))"
    by (rule card_UN_disjoint [symmetric]) (use inv(4) in auto)
  finally show ?thesis by (simp add: U)
qed

section \<open>The allocator is correct\<close>

text \<open>
  C8. Start-up ends without a panic and puts every page between the end of the kernel and
  \<^verbatim>\<open>PHYSTOP\<close> on the booting CPU's list, with the invariant of the allocator established.
\<close>

theorem kinit_correct:
  assumes "0 < kernel_end s" and "kernel_end s \<le> PHYSTOP" and "\<And>i. freelist s i = 0"
    and "hartid s < NCPU"
  shows "\<exists>s' xs. kinit s = Some s' \<and> kmem_inv s' ((\<lambda>_. [])(hartid s' := xs)) \<and>
    set xs = {p. page_ok s p}"
  using kinit_builds [OF assms] building_inv by metis

definition boot_mem :: "u64 \<Rightarrow> kmem" where
  "boot_mem e = \<lparr>mem = (\<lambda>_. 0), freelist = (\<lambda>_. 0), refcnt = (\<lambda>_. 0), kernel_end = e, hartid = 0\<rparr>"

theorem kinit_correct_witness:
  "\<exists>s' xs. kinit (boot_mem 0x80025000) = Some s' \<and> kmem_inv s' ((\<lambda>_. [])(hartid s' := xs))"
  using kinit_correct [of "boot_mem 0x80025000"]
  by (auto simp: boot_mem_def PHYSTOP_def KERNBASE_def NCPU_def)

text \<open>
  C6. \<^verbatim>\<open>kalloc\<close> returns null exactly if no page is free on any CPU, and then changes
  nothing. Otherwise it returns a page whose count was zero, sets the count to one and fills
  the page with 5; no other page's bytes or count change, and the invariant is kept.
\<close>

theorem kalloc_correct:
  assumes "kvalid s"
  shows "(let (p, s') = kalloc s in
    if \<forall>q. page_ok s q \<longrightarrow> refcnt s (page_idx q) \<noteq> 0 then p = 0 \<and> s' = s
    else page_ok s p \<and> refcnt s (page_idx p) = 0 \<and> kvalid s' \<and>
      refcnt s' = (refcnt s)(page_idx p := 1) \<and>
      mem s' = (\<lambda>a. if in_page p a then 5 else mem s a))"
proof (cases "fst (kalloc s) = 0")
  case True
  then obtain s' where "kalloc s = (0, s')" by (cases "kalloc s") auto
  then show ?thesis using kalloc_null [OF assms] by (auto simp: Let_def)
next
  case False
  then obtain p s' where "kalloc s = (p, s')" "p \<noteq> 0" by (cases "kalloc s") auto
  then show ?thesis using kalloc_page [OF assms] by (auto simp: Let_def)
qed

definition one_page :: kmem where
  "one_page = (boot_mem 0x87FFF000)\<lparr>freelist := (\<lambda>_. 0)(0 := 0x87FFF000)\<rparr>"

lemma one_page_ok: "page_ok one_page p \<longleftrightarrow> p = 0x87FFF000"
proof
  assume ok: "page_ok one_page p"
  then obtain j where j: "unat p = 4096 * j" by (auto simp: page_ok_def)
  have "0x87FFF000 \<le> unat p" "unat p < 0x88000000"
    using ok by (simp_all add: page_ok_def one_page_def boot_mem_def PHYSTOP_def KERNBASE_def
        word_less_nat_alt word_le_nat_alt)
  then have "unat p = 0x87FFF000" using j by simp
  then show "p = 0x87FFF000" by (simp add: word_unat_eq_iff)
qed (simp add: page_ok_def one_page_def boot_mem_def PHYSTOP_def KERNBASE_def)

lemma load64_zero: "load_le n (\<lambda>_. 0) a = 0"
  by (induction n arbitrary: a) simp_all

lemma one_page_inv: "kmem_inv one_page ((\<lambda>_. [])(0 := [0x87FFF000]))"
  unfolding kmem_inv_def one_page_ok ex_mem_upd
  by (auto simp: one_page_def boot_mem_def load64_zero is_int32_def NCPU_def split: if_splits)

theorem kalloc_correct_witness: "fst (kalloc one_page) = 0x87FFF000"
proof -
  have "kvalid one_page" using one_page_inv kvalid_def by blast
  moreover have "refcnt one_page i = 0" for i by (simp add: one_page_def boot_mem_def)
  ultimately show ?thesis
    using kalloc_correct [of one_page] by (cases "kalloc one_page") (simp add: one_page_ok)
qed

text \<open>
  C7. \<^verbatim>\<open>kfree\<close> panics exactly on an address that is not a page of the managed
  range. Otherwise, for a page in use, it takes one from the count; the page goes back on a
  free list exactly when the count reaches zero, and until then its bytes stay as they are.
  No other page's bytes or count change.
\<close>

theorem kfree_correct:
  assumes "kvalid s" and "page_ok s p \<Longrightarrow> 1 \<le> refcnt s (page_idx p)"
  shows "case kfree p s of
      None \<Rightarrow> \<not> page_ok s p
    | Some s' \<Rightarrow> page_ok s p \<and> kvalid s' \<and>
        refcnt s' = (refcnt s)(page_idx p := refcnt s (page_idx p) - 1) \<and>
        (\<forall>a. mem s' a = mem s a \<or> in_page p a \<and> refcnt s' (page_idx p) = 0)"
proof (cases "page_ok s p")
  case True
  show ?thesis by (rule kfree_page [OF assms(1) True assms(2) [OF True]]) (use True assms(2) in force)
qed (simp add: kfree_def)

theorem kfree_correct_witness:
  "\<exists>s'. kfree 0x87FFF000 (snd (kalloc one_page)) = Some s' \<and> refcnt s' 0x87FFF = 0"
proof -
  let ?p = "0x87FFF000 :: u64" and ?s = "snd (kalloc one_page)"
  have v: "kvalid one_page" using one_page_inv kvalid_def by blast
  have "freelist one_page (hartid one_page) = ?p" by (simp add: one_page_def boot_mem_def)
  then have k: "kalloc one_page = (?p, ?s)" by (simp add: kalloc_def)
  note pg = kalloc_page [OF v k]
  have ok: "page_ok ?s ?p" and one: "refcnt ?s (page_idx ?p) = 1" using pg by (simp_all add: one_page_ok)
  show ?thesis
    using kfree_correct [of ?s ?p] pg(1) ok one
    by (auto simp: page_idx_def split: option.splits)
qed

text \<open>
  \<^verbatim>\<open>freebytes\<close> ends and returns the number of free pages times the page size.
\<close>

theorem freebytes_correct:
  assumes "kvalid s"
  shows "freebytes s = Some (of_nat (4096 * card {p. page_ok s p \<and> refcnt s (page_idx p) = 0}))"
proof -
  obtain F where F: "kmem_inv s F" using assms kvalid_def by blast
  have "freebytes_from [0..<8] s 0 = Some (0 + of_nat (4096 * (\<Sum>i\<leftarrow>[0..<8]. length (F i))))"
    by (rule freebytes_from_chain) (use kmem_invD(1) [OF F] in \<open>simp add: NCPU_def\<close>)
  then show ?thesis
    using free_pages_card [OF F] by (simp add: freebytes_def NCPU_def)
qed

theorem freebytes_correct_witness: "freebytes one_page = Some 4096"
proof -
  have "kvalid one_page" using one_page_inv kvalid_def by blast
  moreover have "{p. page_ok one_page p \<and> refcnt one_page (page_idx p) = 0} = {0x87FFF000}"
    by (auto simp: one_page_ok) (simp add: one_page_def boot_mem_def)
  ultimately show ?thesis using freebytes_correct [of one_page] by simp
qed

end
