(* ===== verification/VM.thy ===== *)
theory VM
  imports Kalloc
begin

text \<open>
  Virtual memory: \<^verbatim>\<open>kernel/mm/vm.c\<close> and the copy-on-write part of
  \<^verbatim>\<open>kernel/mm/kalloc.c\<close>. A page table is the address of its root page; its entries
  are read and written in the byte memory of \<open>kmem\<close>, and page-table pages come from the
  page allocator. \<open>None\<close> is a panic or a loop that never ends.

  The kernel-side buffer of \<^verbatim>\<open>copyout\<close>, \<^verbatim>\<open>copyin\<close> and
  \<^verbatim>\<open>copyinstr\<close> is a kernel object (a stack variable, a kernel structure), passed
  by value as a list of bytes.
\<close>

section \<open>Walking a page table\<close>

definition pte_addr :: "u64 \<Rightarrow> nat \<Rightarrow> u64 \<Rightarrow> u64" where
  "pte_addr pagetable level va = pagetable + 8 * PX level va"

definition pte_at :: "kmem \<Rightarrow> u64 \<Rightarrow> u64" where
  "pte_at s a = load64 (mem s) a"

definition set_pte :: "u64 \<Rightarrow> u64 \<Rightarrow> kmem \<Rightarrow> kmem" where
  "set_pte a v s = s\<lparr>mem := store64 a v (mem s)\<rparr>"

definition zero_page :: "u64 \<Rightarrow> kmem \<Rightarrow> kmem" where
  "zero_page p s = s\<lparr>mem := memset p 0 4096 (mem s)\<rparr>"

fun walk_level :: "nat \<Rightarrow> u64 \<Rightarrow> u64 \<Rightarrow> bool \<Rightarrow> kmem \<Rightarrow> u64 \<times> kmem" where
  "walk_level 0 pagetable va alloc s = (pte_addr pagetable 0 va, s)"
| "walk_level (Suc l) pagetable va alloc s =
     (let pte = pte_addr pagetable (Suc l) va
      in if pte_at s pte AND PTE_V \<noteq> 0 then walk_level l (PTE2PA (pte_at s pte)) va alloc s
         else if \<not> alloc then (0, s)
         else
           let (p, s) = kalloc s
           in if p = 0 then (0, s)
              else walk_level l p va alloc (set_pte pte (PA2PTE p OR PTE_V) (zero_page p s)))"

definition walk :: "u64 \<Rightarrow> u64 \<Rightarrow> bool \<Rightarrow> kmem \<Rightarrow> (u64 \<times> kmem) option" where
  "walk pagetable va alloc s =
     (if MAXVA \<le> va then None else Some (walk_level 2 pagetable va alloc s))"

text \<open>A walk that allocates nothing returns the state it was given; \<open>walk_ro\<close> is its result.\<close>

definition walk_ro :: "u64 \<Rightarrow> u64 \<Rightarrow> kmem \<Rightarrow> u64" where
  "walk_ro pagetable va s = fst (walk_level 2 pagetable va False s)"

definition walkaddr :: "u64 \<Rightarrow> u64 \<Rightarrow> kmem \<Rightarrow> u64" where
  "walkaddr pagetable va s =
     (if MAXVA \<le> va then 0
      else
        let pte = walk_ro pagetable va s
        in if pte = 0 then 0
           else if pte_at s pte AND PTE_V = 0 then 0
           else if pte_at s pte AND PTE_U = 0 then 0
           else PTE2PA (pte_at s pte))"

section \<open>Mapping and unmapping\<close>

partial_function (option) mappages_from ::
  "u64 \<Rightarrow> u64 \<Rightarrow> u64 \<Rightarrow> u64 \<Rightarrow> u64 \<Rightarrow> kmem \<Rightarrow> (int \<times> kmem) option" where
  "mappages_from pagetable a lst pa perm s = do {
     (pte, s) \<leftarrow> walk pagetable a True s;
     if pte = 0 then Some (- 1, s)
     else if pte_at s pte AND PTE_V \<noteq> 0 then None
     else
       let s = set_pte pte (PA2PTE pa OR perm OR PTE_V) s
       in if a = lst then Some (0, s)
          else mappages_from pagetable (a + PGSIZE) lst (pa + PGSIZE) perm s
   }"

definition mappages :: "u64 \<Rightarrow> u64 \<Rightarrow> u64 \<Rightarrow> u64 \<Rightarrow> u64 \<Rightarrow> kmem \<Rightarrow> (int \<times> kmem) option" where
  "mappages pagetable va sz pa perm s =
     mappages_from pagetable (PGROUNDDOWN va) (PGROUNDDOWN (va + sz - 1)) pa perm s"

definition kvmmap :: "u64 \<Rightarrow> u64 \<Rightarrow> u64 \<Rightarrow> u64 \<Rightarrow> u64 \<Rightarrow> kmem \<Rightarrow> kmem option" where
  "kvmmap kernel_pagetable va pa sz perm s = do {
     (r, s) \<leftarrow> mappages kernel_pagetable va sz pa perm s;
     if r \<noteq> 0 then None else Some s
   }"

text \<open>\<^verbatim>\<open>etext\<close> and \<^verbatim>\<open>trampoline\<close> are linker symbols.\<close>

definition kvminit :: "u64 \<Rightarrow> u64 \<Rightarrow> kmem \<Rightarrow> (u64 \<times> kmem) option" where
  "kvminit etext trampoline s = do {
     let (kpt, s) = kalloc s;
     let s = zero_page kpt s;
     s \<leftarrow> kvmmap kpt UART0 UART0 PGSIZE (PTE_R OR PTE_W) s;
     s \<leftarrow> kvmmap kpt VIRTIO0 VIRTIO0 PGSIZE (PTE_R OR PTE_W) s;
     s \<leftarrow> kvmmap kpt 0x30000000 0x30000000 0x10000000 (PTE_R OR PTE_W) s;
     s \<leftarrow> kvmmap kpt 0x40000000 0x40000000 0x20000 (PTE_R OR PTE_W) s;
     s \<leftarrow> kvmmap kpt CLINT CLINT 0x10000 (PTE_R OR PTE_W) s;
     s \<leftarrow> kvmmap kpt PLIC PLIC 0x400000 (PTE_R OR PTE_W) s;
     s \<leftarrow> kvmmap kpt KERNBASE KERNBASE (etext - KERNBASE) (PTE_R OR PTE_X) s;
     s \<leftarrow> kvmmap kpt etext etext (PHYSTOP - etext) (PTE_R OR PTE_W) s;
     s \<leftarrow> kvmmap kpt TRAMPOLINE trampoline PGSIZE (PTE_R OR PTE_X) s;
     Some (kpt, s)
   }"

definition kvmpa :: "u64 \<Rightarrow> u64 \<Rightarrow> kmem \<Rightarrow> u64 option" where
  "kvmpa kernel_pagetable va s =
     (if MAXVA \<le> va then None
      else
        let off = va mod PGSIZE; pte = walk_ro kernel_pagetable va s
        in if pte = 0 then None
           else if pte_at s pte AND PTE_V = 0 then None
           else Some (PTE2PA (pte_at s pte) + off))"

partial_function (option) uvmunmap_from ::
  "u64 \<Rightarrow> u64 \<Rightarrow> u64 \<Rightarrow> bool \<Rightarrow> kmem \<Rightarrow> kmem option" where
  "uvmunmap_from pagetable a stop do_free s =
     (if \<not> a < stop then Some s
      else if MAXVA \<le> a then None
      else
        let pte = walk_ro pagetable a s
        in if pte = 0 then uvmunmap_from pagetable (a + PGSIZE) stop do_free s
           else if pte_at s pte AND PTE_V = 0
           then uvmunmap_from pagetable (a + PGSIZE) stop do_free s
           else if PTE_FLAGS (pte_at s pte) = PTE_V then None
           else do {
             s \<leftarrow> (if do_free then kfree (PTE2PA (pte_at s pte)) s else Some s);
             uvmunmap_from pagetable (a + PGSIZE) stop do_free (set_pte pte 0 s)
           })"

definition uvmunmap :: "u64 \<Rightarrow> u64 \<Rightarrow> u64 \<Rightarrow> bool \<Rightarrow> kmem \<Rightarrow> kmem option" where
  "uvmunmap pagetable va npages do_free s =
     (if va mod PGSIZE \<noteq> 0 then None
      else uvmunmap_from pagetable va (va + npages * PGSIZE) do_free s)"

definition uvmcreate :: "kmem \<Rightarrow> u64 \<times> kmem" where
  "uvmcreate s =
     (let (pagetable, s) = kalloc s
      in if pagetable = 0 then (0, s) else (pagetable, zero_page pagetable s))"

text \<open>Bytes at consecutive addresses.\<close>

primrec write_bytes :: "u64 \<Rightarrow> u8 list \<Rightarrow> memory \<Rightarrow> memory" where
  "write_bytes a [] m = m"
| "write_bytes a (b # bs) m = write_bytes (a + 1) bs (m(a := b))"

primrec read_bytes :: "memory \<Rightarrow> u64 \<Rightarrow> nat \<Rightarrow> u8 list" where
  "read_bytes m a 0 = []"
| "read_bytes m a (Suc n) = m a # read_bytes m (a + 1) n"

text \<open>
  \<^verbatim>\<open>uvminit\<close> ignores the results of \<^verbatim>\<open>kalloc\<close> and
  \<^verbatim>\<open>mappages\<close>, as the source does.
\<close>

definition uvminit :: "u64 \<Rightarrow> u8 list \<Rightarrow> kmem \<Rightarrow> kmem option" where
  "uvminit pagetable src s =
     (if 4096 \<le> length src then None
      else do {
        let (p, s) = kalloc s;
        let s = zero_page p s;
        (_, s) \<leftarrow> mappages pagetable 0 PGSIZE p (PTE_W OR PTE_R OR PTE_X OR PTE_U) s;
        Some (s\<lparr>mem := write_bytes p src (mem s)\<rparr>)
      })"

text \<open>The page count of \<^verbatim>\<open>uvmdealloc\<close> goes through a C \<^verbatim>\<open>int\<close>.\<close>

definition uvmdealloc :: "u64 \<Rightarrow> u64 \<Rightarrow> u64 \<Rightarrow> kmem \<Rightarrow> (u64 \<times> kmem) option" where
  "uvmdealloc pagetable oldsz newsz s =
     (if oldsz \<le> newsz then Some (oldsz, s)
      else if PGROUNDUP newsz < PGROUNDUP oldsz
      then
        let npages = wrap32 (int (unat ((PGROUNDUP oldsz - PGROUNDUP newsz) div PGSIZE)))
        in map_option (Pair newsz) (uvmunmap pagetable (PGROUNDUP newsz) (of_int npages) True s)
      else Some (newsz, s))"

partial_function (option) uvmalloc_from ::
  "u64 \<Rightarrow> u64 \<Rightarrow> u64 \<Rightarrow> u64 \<Rightarrow> kmem \<Rightarrow> (u64 \<times> kmem) option" where
  "uvmalloc_from pagetable oldsz a newsz s =
     (if \<not> a < newsz then Some (newsz, s)
      else
        let (p, s) = kalloc s
        in if p = 0 then map_option (\<lambda>(_, s). (0, s)) (uvmdealloc pagetable a oldsz s)
           else do {
             (r, s) \<leftarrow> mappages pagetable a PGSIZE p (PTE_W OR PTE_X OR PTE_R OR PTE_U)
                         (zero_page p s);
             if r \<noteq> 0 then do {
               s \<leftarrow> kfree p s;
               map_option (\<lambda>(_, s). (0, s)) (uvmdealloc pagetable a oldsz s)
             } else uvmalloc_from pagetable oldsz (a + PGSIZE) newsz s
           })"

definition uvmalloc :: "u64 \<Rightarrow> u64 \<Rightarrow> u64 \<Rightarrow> kmem \<Rightarrow> (u64 \<times> kmem) option" where
  "uvmalloc pagetable oldsz newsz s =
     (if newsz < oldsz then Some (oldsz, s)
      else uvmalloc_from pagetable (PGROUNDUP oldsz) (PGROUNDUP oldsz) newsz s)"

text \<open>
  The loop of \<^verbatim>\<open>freewalk\<close> from entry \<open>i\<close>, with the recursive call inside.
\<close>

partial_function (option) freewalk_from :: "u64 \<Rightarrow> nat \<Rightarrow> kmem \<Rightarrow> kmem option" where
  "freewalk_from pagetable i s =
     (if i < 512
      then
        let a = pagetable + 8 * of_nat i; pte = pte_at s a
        in if pte AND PTE_V \<noteq> 0 \<and> pte AND (PTE_R OR PTE_W OR PTE_X) = 0
           then Option.bind (freewalk_from (PTE2PA pte) 0 s)
                  (\<lambda>s. freewalk_from pagetable (i + 1) (set_pte a 0 s))
           else freewalk_from pagetable (i + 1) s
      else kfree pagetable s)"

definition freewalk :: "u64 \<Rightarrow> kmem \<Rightarrow> kmem option" where
  "freewalk pagetable s = freewalk_from pagetable 0 s"

definition uvmfree :: "u64 \<Rightarrow> u64 \<Rightarrow> kmem \<Rightarrow> kmem option" where
  "uvmfree pagetable sz s = do {
     s \<leftarrow> (if 0 < sz then uvmunmap pagetable 0 (PGROUNDUP sz div PGSIZE) True s else Some s);
     freewalk pagetable s
   }"

section \<open>Copy-on-write\<close>

text \<open>One page of the loop of \<^verbatim>\<open>uvmcopy\<close>, then the loop.\<close>

definition share_flags :: "u64 \<Rightarrow> u64" where
  "share_flags pte =
     (let flags = PTE_FLAGS pte
      in if flags AND PTE_W \<noteq> 0 then (flags OR PTE_F) AND NOT PTE_W else flags)"

definition share_parent :: "u64 \<Rightarrow> kmem \<Rightarrow> kmem" where
  "share_parent pte s =
     (if PTE_FLAGS (pte_at s pte) AND PTE_W \<noteq> 0
      then set_pte pte (PA2PTE (PTE2PA (pte_at s pte)) OR share_flags (pte_at s pte)) s else s)"

partial_function (option) uvmcopy_from ::
  "u64 \<Rightarrow> u64 \<Rightarrow> u64 \<Rightarrow> u64 \<Rightarrow> kmem \<Rightarrow> (int \<times> kmem) option" where
  "uvmcopy_from old new i sz s =
     (if \<not> i < sz then Some (0, s)
      else if MAXVA \<le> i then None
      else
        let pte = walk_ro old i s; v = pte_at s pte
        in if pte = 0 then uvmcopy_from old new (i + PGSIZE) sz s
           else if v AND PTE_V = 0 then uvmcopy_from old new (i + PGSIZE) sz s
           else do {
             (r, s) \<leftarrow> mappages new i PGSIZE (PTE2PA v) (share_flags v) (share_parent pte s);
             if r \<noteq> 0
             then map_option (Pair (- 1)) (uvmunmap new 0 (i div PGSIZE) True s)
             else uvmcopy_from old new (i + PGSIZE) sz (snd (kaddrefcnt (PTE2PA v) s))
           })"

definition uvmcopy :: "u64 \<Rightarrow> u64 \<Rightarrow> u64 \<Rightarrow> kmem \<Rightarrow> (int \<times> kmem) option" where
  "uvmcopy old new sz s = uvmcopy_from old new 0 sz s"

definition uvmclear :: "u64 \<Rightarrow> u64 \<Rightarrow> kmem \<Rightarrow> kmem option" where
  "uvmclear pagetable va s =
     (if MAXVA \<le> va then None
      else
        let pte = walk_ro pagetable va s
        in if pte = 0 then None else Some (set_pte pte (pte_at s pte AND NOT PTE_U) s))"

definition cowpage :: "u64 \<Rightarrow> u64 \<Rightarrow> kmem \<Rightarrow> int" where
  "cowpage pagetable va s =
     (if MAXVA \<le> va then - 1
      else
        let pte = walk_ro pagetable va s
        in if pte = 0 then - 1
           else if pte_at s pte AND PTE_V = 0 then - 1
           else if pte_at s pte AND PTE_F \<noteq> 0 then 0 else - 1)"

definition cowalloc :: "u64 \<Rightarrow> u64 \<Rightarrow> kmem \<Rightarrow> (u64 \<times> kmem) option" where
  "cowalloc pagetable va s =
     (if va mod PGSIZE \<noteq> 0 then Some (0, s)
      else
        let pa = walkaddr pagetable va s; pte = walk_ro pagetable va s
        in if pa = 0 then Some (0, s)
           else if krefcnt pa s = 1
           then Some (pa, set_pte pte ((pte_at s pte OR PTE_W) AND NOT PTE_F) s)
           else
             let (p, s) = kalloc s
             in if p = 0 then Some (0, s)
                else do {
                  let s = s\<lparr>mem := memmove p pa 4096 (mem s)\<rparr>;
                  let s = set_pte pte (pte_at s pte AND NOT PTE_V) s;
                  (r, s) \<leftarrow> mappages pagetable va PGSIZE p
                              ((PTE_FLAGS (pte_at s pte) OR PTE_W) AND NOT PTE_F) s;
                  if r \<noteq> 0 then do {
                    s \<leftarrow> kfree p s;
                    Some (0, set_pte pte (pte_at s pte OR PTE_V) s)
                  } else do {
                    s \<leftarrow> kfree (PGROUNDDOWN pa) s;
                    Some (p, s)
                  }
                })"

section \<open>Copying between kernel and user\<close>

text \<open>How many of \<open>len\<close> bytes lie in the page of \<open>va\<close>.\<close>

definition page_chunk :: "u64 \<Rightarrow> nat \<Rightarrow> nat" where
  "page_chunk va len = min (unat (PGSIZE - (va - PGROUNDDOWN va))) len"

partial_function (option) copyout :: "u64 \<Rightarrow> u64 \<Rightarrow> u8 list \<Rightarrow> kmem \<Rightarrow> (int \<times> kmem) option" where
  "copyout pagetable dstva src s =
     (if src = [] then Some (0, s)
      else
        let va0 = PGROUNDDOWN dstva; pa0 = walkaddr pagetable va0 s
        in do {
          (pa0, s) \<leftarrow> (if cowpage pagetable va0 s = 0 then cowalloc pagetable va0 s
                       else Some (pa0, s));
          if pa0 = 0 then Some (- 1, s)
          else
            let n = page_chunk dstva (length src)
            in copyout pagetable (va0 + PGSIZE) (drop n src)
                 (s\<lparr>mem := write_bytes (pa0 + (dstva - va0)) (take n src) (mem s)\<rparr>)
        })"

text \<open>\<open>Inl e\<close> is the error result, \<open>Inr bs\<close> success with the bytes that were copied.\<close>

partial_function (option) copyin_acc ::
  "u64 \<Rightarrow> u64 \<Rightarrow> nat \<Rightarrow> u8 list \<Rightarrow> kmem \<Rightarrow> (int + u8 list) option" where
  "copyin_acc pagetable srcva len acc s =
     (if len = 0 then Some (Inr acc)
      else
        let va0 = PGROUNDDOWN srcva; pa0 = walkaddr pagetable va0 s
        in if pa0 = 0 then Some (Inl (- 1))
           else
             let n = page_chunk srcva len
             in copyin_acc pagetable (va0 + PGSIZE) (len - n)
                  (acc @ read_bytes (mem s) (pa0 + (srcva - va0)) n) s)"

definition copyin :: "u64 \<Rightarrow> u64 \<Rightarrow> nat \<Rightarrow> kmem \<Rightarrow> (int + u8 list) option" where
  "copyin pagetable srcva len s = copyin_acc pagetable srcva len [] s"

text \<open>The inner loop of \<^verbatim>\<open>copyinstr\<close>: the bytes up to a NUL, and whether one was met.\<close>

fun scan_nul :: "memory \<Rightarrow> u64 \<Rightarrow> nat \<Rightarrow> u8 list \<times> bool" where
  "scan_nul m p 0 = ([], False)"
| "scan_nul m p (Suc n) =
     (if m p = 0 then ([0], True)
      else let (bs, z) = scan_nul m (p + 1) n in (m p # bs, z))"

partial_function (option) copyinstr_acc ::
  "u64 \<Rightarrow> u64 \<Rightarrow> nat \<Rightarrow> u8 list \<Rightarrow> kmem \<Rightarrow> (int + u8 list) option" where
  "copyinstr_acc pagetable srcva mx acc s =
     (if mx = 0 then Some (Inl (- 1))
      else
        let va0 = PGROUNDDOWN srcva; pa0 = walkaddr pagetable va0 s
        in if pa0 = 0 then Some (Inl (- 1))
           else
             let n = page_chunk srcva mx; (bs, z) = scan_nul (mem s) (pa0 + (srcva - va0)) n
             in if z then Some (Inr (acc @ bs))
                else copyinstr_acc pagetable (va0 + PGSIZE) (mx - n) (acc @ bs) s)"

definition copyinstr :: "u64 \<Rightarrow> u64 \<Rightarrow> nat \<Rightarrow> kmem \<Rightarrow> (int + u8 list) option" where
  "copyinstr pagetable srcva mx s = copyinstr_acc pagetable srcva mx [] s"

section \<open>Page-table entries in memory\<close>

lemma unat_PX: "unat (PX l va) < 512"
proof -
  have m: "(0x1FF :: u64) = mask 9" by (simp add: mask_eq_exp_minus_1)
  have "PX l va = take_bit 9 (drop_bit (12 + 9 * l) va)"
    by (simp add: PX_def m take_bit_eq_mask)
  then have "unat (PX l va) = take_bit 9 (unat (drop_bit (12 + 9 * l) va))"
    by (simp add: unsigned_take_bit_eq)
  then show ?thesis using take_bit_nat_less_exp [of 9] by simp
qed

lemma pte_addr_off: "pte_addr p l va = p + of_nat (8 * unat (PX l va))"
  by (simp add: pte_addr_def)

lemma pte_room: "8 * unat (PX l va) + 8 \<le> 4096"
  using unat_PX [of l va] by simp

lemma set_pte_sel [simp]:
  "mem (set_pte a v s) = store64 a v (mem s)" "freelist (set_pte a v s) = freelist s"
  "refcnt (set_pte a v s) = refcnt s" "kernel_end (set_pte a v s) = kernel_end s"
  "hartid (set_pte a v s) = hartid s" "page_ok (set_pte a v s) = page_ok s"
  by (simp_all add: set_pte_def page_ok_def fun_eq_iff)

lemma zero_page_sel [simp]:
  "mem (zero_page p s) = (\<lambda>a. if in_page p a then 0 else mem s a)"
  "freelist (zero_page p s) = freelist s"
  "refcnt (zero_page p s) = refcnt s" "kernel_end (zero_page p s) = kernel_end s"
  "hartid (zero_page p s) = hartid s" "page_ok (zero_page p s) = page_ok s"
  by (simp_all add: zero_page_def page_ok_def memset_page fun_eq_iff)

lemma pte_at_frame:
  assumes "\<And>a. in_page p a \<Longrightarrow> mem s' a = mem s a"
  shows "pte_at s' (pte_addr p l va) = pte_at s (pte_addr p l va)"
  unfolding pte_at_def pte_addr_off by (rule load64_page [OF assms pte_room])

lemma set_pte_outside: "\<not> in_page p a \<Longrightarrow> mem (set_pte (pte_addr p l va) v s) a = mem s a"
  unfolding set_pte_sel pte_addr_off by (rule store64_page [OF pte_room])

lemma pte_at_set_same [simp]: "pte_at (set_pte a v s) a = v"
  by (simp add: pte_at_def)

lemma pte_at_set_index:
  assumes "PX l va \<noteq> PX l' va'"
  shows "pte_at (set_pte (pte_addr p l va) v s) (pte_addr p l' va') = pte_at s (pte_addr p l' va')"
proof -
  define i where "i = unat (PX l va)"
  define j where "j = unat (PX l' va')"
  have b: "i < 512" "j < 512" "i \<noteq> j" using unat_PX assms by (auto simp: i_def j_def word_unat_eq_iff)
  have "\<not> unat (p + of_nat (8 * j) + of_nat k - (p + of_nat (8 * i))) < 8" if "k < 8" for k
  proof (cases "i < j")
    case True
    have "p + of_nat (8 * j) + of_nat k - (p + of_nat (8 * i)) = (of_nat (8 * (j - i) + k) :: u64)"
      using True by (simp add: of_nat_diff algebra_simps)
    moreover have "8 * (j - i) + k < 2 ^ 64" using b that by simp
    ultimately show ?thesis using True by (simp only: unat_of_nat_u64)
  next
    case False
    define m where "m = 8 * (i - j) - k"
    have m: "0 < m" "m < 4096" using False b that by (auto simp: m_def)
    have e: "p + of_nat (8 * j) + of_nat k - (p + of_nat (8 * i)) = 0 - (of_nat m :: u64)"
      using False b that by (simp add: m_def of_nat_diff algebra_simps)
    have u: "unat (of_nat m :: u64) = m" using m by simp
    then have "\<not> unat (of_nat m :: u64) \<le> unat (0 :: u64)" using m by simp
    then show ?thesis
      unfolding e unat_sub_if_size using u m by (simp add: word_size)
  qed
  then show ?thesis
    unfolding pte_at_def set_pte_sel pte_addr_off i_def [symmetric] j_def [symmetric]
    by (intro load_store_disjoint) simp_all
qed

section \<open>The tree of tables\<close>

text \<open>
  \<open>tbl s root k va\<close> is the table page that the walk for \<open>va\<close> reaches after \<open>k\<close>
  descents, and \<open>leaf s root va\<close> the entry it ends at, 0 where a table is missing.
\<close>

fun tbl :: "kmem \<Rightarrow> u64 \<Rightarrow> nat \<Rightarrow> u64 \<Rightarrow> u64 option" where
  "tbl s root 0 va = Some root"
| "tbl s root (Suc k) va =
     (case tbl s root k va of
        None \<Rightarrow> None
      | Some p \<Rightarrow>
          if pte_at s (pte_addr p (2 - k) va) AND PTE_V \<noteq> 0
          then Some (PTE2PA (pte_at s (pte_addr p (2 - k) va))) else None)"

definition leaf :: "kmem \<Rightarrow> u64 \<Rightarrow> u64 \<Rightarrow> u64" where
  "leaf s root va = (case tbl s root 2 va of None \<Rightarrow> 0 | Some p \<Rightarrow> pte_at s (pte_addr p 0 va))"

definition same_path :: "nat \<Rightarrow> u64 \<Rightarrow> u64 \<Rightarrow> bool" where
  "same_path k va va' \<longleftrightarrow> (\<forall>j < k. PX (2 - j) va = PX (2 - j) va')"

definition in_use :: "kmem \<Rightarrow> u64 \<Rightarrow> bool" where
  "in_use s p \<longleftrightarrow> page_ok s p \<and> 1 \<le> refcnt s (page_idx p)"

text \<open>The tables are pages in use, and no page is a table twice.\<close>

definition pt_wf :: "kmem \<Rightarrow> u64 \<Rightarrow> bool" where
  "pt_wf s root \<longleftrightarrow>
     (\<forall>k \<le> 2. \<forall>va p. tbl s root k va = Some p \<longrightarrow> in_use s p) \<and>
     (\<forall>k \<le> 2. \<forall>k' \<le> 2. \<forall>va va' p. tbl s root k va = Some p \<longrightarrow> tbl s root k' va' = Some p \<longrightarrow>
        k = k' \<and> same_path k va va')"

definition is_table :: "kmem \<Rightarrow> u64 \<Rightarrow> u64 \<Rightarrow> bool" where
  "is_table s root p \<longleftrightarrow> (\<exists>k \<le> 2. \<exists>va. tbl s root k va = Some p)"

lemma pt_wfD:
  assumes "pt_wf s root"
  shows "\<And>k va p. k \<le> 2 \<Longrightarrow> tbl s root k va = Some p \<Longrightarrow> in_use s p"
    and "\<And>k k' va va' p. k \<le> 2 \<Longrightarrow> k' \<le> 2 \<Longrightarrow> tbl s root k va = Some p \<Longrightarrow>
      tbl s root k' va' = Some p \<Longrightarrow> k = k' \<and> same_path k va va'"
  using assms unfolding pt_wf_def by blast+

lemma same_path_refl [simp]: "same_path k va va"
  by (simp add: same_path_def)

lemma same_path_sym: "same_path k va va' \<Longrightarrow> same_path k va' va"
  by (simp add: same_path_def)

lemma same_path_Suc: "same_path (Suc k) va va' \<longleftrightarrow> same_path k va va' \<and> PX (2 - k) va = PX (2 - k) va'"
  by (auto simp: same_path_def less_Suc_eq)

lemma same_path_mono: "same_path k va va' \<Longrightarrow> j \<le> k \<Longrightarrow> same_path j va va'"
  by (simp add: same_path_def)

lemma pte_addr_cong: "PX l va = PX l va' \<Longrightarrow> pte_addr p l va = pte_addr p l va'"
  by (simp add: pte_addr_def)

lemma tbl_cong: "same_path k va va' \<Longrightarrow> tbl s root k va = tbl s root k va'"
proof (induction k)
  case (Suc k)
  then have "tbl s root k va = tbl s root k va'" "\<And>p. pte_addr p (2 - k) va = pte_addr p (2 - k) va'"
    by (simp_all add: same_path_Suc pte_addr_def)
  then show ?case by (simp split: option.split)
qed simp

lemma leaf_cong: "same_path 3 va va' \<Longrightarrow> leaf s root va = leaf s root va'"
proof -
  assume "same_path 3 va va'"
  then have "same_path 2 va va'" "PX 0 va = PX 0 va'"
    using same_path_Suc [of 2 va va'] by simp_all
  then have "tbl s root 2 va = tbl s root 2 va'" "\<And>p. pte_addr p 0 va = pte_addr p 0 va'"
    by (simp_all add: tbl_cong pte_addr_def)
  then show ?thesis by (simp add: leaf_def split: option.split)
qed

text \<open>What is read on the way to depth \<open>k\<close> are tables of smaller depth.\<close>

lemma tbl_frame:
  assumes "\<And>j va p. j < k \<Longrightarrow> tbl s root j va = Some p \<Longrightarrow>
      pte_at s' (pte_addr p (2 - j) va) = pte_at s (pte_addr p (2 - j) va)"
  shows "tbl s' root k va = tbl s root k va"
  using assms
proof (induction k)
  case (Suc k)
  then have "tbl s' root k va = tbl s root k va" by simp
  then show ?case using Suc.prems [of k] by (simp split: option.split)
qed simp

lemma tables_frame:
  assumes "\<And>p a. is_table s root p \<Longrightarrow> in_page p a \<Longrightarrow> mem s' a = mem s a"
  shows "k \<le> 2 \<Longrightarrow> tbl s' root k va = tbl s root k va" and "leaf s' root va = leaf s root va"
proof -
  have pte: "pte_at s' (pte_addr p l va) = pte_at s (pte_addr p l va)"
    if "tbl s root j va = Some p" "j \<le> 2" for j va p l
    by (rule pte_at_frame) (use assms that in \<open>auto simp: is_table_def\<close>)
  show tbl: "tbl s' root k va = tbl s root k va" if "k \<le> 2" for k
    by (rule tbl_frame, erule pte) (use that in simp)
  show "leaf s' root va = leaf s root va"
    unfolding leaf_def tbl [OF order_refl] using pte [of 2 va] by (simp split: option.split)
qed

lemma in_use_aligned: "in_use s p \<Longrightarrow> page_aligned p"
  by (auto simp: in_use_def)

lemma other_page: "in_use s p \<Longrightarrow> in_use s q \<Longrightarrow> p \<noteq> q \<Longrightarrow> in_page q a \<Longrightarrow> \<not> in_page p a"
  using in_page_unique in_use_aligned by blast

lemma pte_at_set_entry:
  assumes wf: "pt_wf s root" and k: "k \<le> 2" "tbl s root k va = Some p"
    and k': "k' \<le> 2" "tbl s root k' va' = Some p'"
  shows "pte_at (set_pte (pte_addr p (2 - k) va) w s) (pte_addr p' (2 - k') va') =
    (if k' = k \<and> same_path (Suc k) va va' then w else pte_at s (pte_addr p' (2 - k') va'))"
proof (cases "p = p'")
  case True
  then have kk: "k' = k" "same_path k va va'" using pt_wfD(2) [OF wf k(1) k'(1) k(2)] k'(2) by auto
  show ?thesis
  proof (cases "PX (2 - k) va = PX (2 - k) va'")
    case eq: True
    then have "pte_addr p' (2 - k') va' = pte_addr p (2 - k) va" using True kk by (simp add: pte_addr_def)
    then show ?thesis using kk eq by (simp add: same_path_Suc)
  next
    case False
    then show ?thesis using True kk pte_at_set_index [of "2 - k" va "2 - k" va'] by (simp add: same_path_Suc)
  qed
next
  case False
  have ne: "\<not> (k' = k \<and> same_path (Suc k) va va')"
    using False k(2) k'(2) tbl_cong [of k va va' s root] by (auto simp: same_path_Suc)
  have "in_use s p" "in_use s p'" using pt_wfD(1) [OF wf] k k' by blast+
  then show ?thesis
    unfolding if_not_P [OF ne]
    by (rule pte_at_frame [OF set_pte_outside [OF other_page [OF _ _ False]]])
qed

lemma tbl_set_entry:
  assumes wf: "pt_wf s root" and k: "k \<le> 2" "tbl s root k va = Some p"
    and j: "j \<le> k \<or> \<not> same_path (Suc k) va va'" "j \<le> 3"
  shows "tbl (set_pte (pte_addr p (2 - k) va) w s) root j va' = tbl s root j va'"
  using j
proof (induction j)
  case (Suc j)
  let ?s = "set_pte (pte_addr p (2 - k) va) w s"
  have ih: "tbl ?s root j va' = tbl s root j va'" using Suc by linarith
  show ?case
  proof (cases "tbl s root j va'")
    case (Some q)
    have "pte_at ?s (pte_addr q (2 - j) va') = pte_at s (pte_addr q (2 - j) va')"
      using pte_at_set_entry [OF wf k _ Some, of w] Suc.prems by auto
    then show ?thesis using ih Some by simp
  qed (use ih in simp)
qed simp

lemma pt_wf_frame:
  assumes "pt_wf s root" and t: "\<And>k va. k \<le> 2 \<Longrightarrow> tbl s' root k va = tbl s root k va"
    and "\<And>x. in_use s x \<Longrightarrow> in_use s' x"
  shows "pt_wf s' root"
  unfolding pt_wf_def
proof (intro conjI allI impI)
  fix k va p assume "k \<le> 2" "tbl s' root k va = Some p"
  then show "in_use s' p" using pt_wfD(1) [OF assms(1)] t assms(3) by auto
next
  fix k k' va va' p assume "k \<le> 2" "k' \<le> 2" "tbl s' root k va = Some p" "tbl s' root k' va' = Some p"
  then show "k = k'" "same_path k va va'" using pt_wfD(2) [OF assms(1)] t by auto
qed

text \<open>Writing a leaf entry changes the translation of its page only.\<close>

lemma set_leaf:
  fixes w :: u64
  assumes wf: "pt_wf s root" and p: "tbl s root 2 va = Some p"
  defines "s' \<equiv> set_pte (pte_addr p 0 va) w s"
  shows "k \<le> 2 \<Longrightarrow> tbl s' root k va' = tbl s root k va'"
    and "leaf s' root va' = (if same_path 3 va va' then w else leaf s root va')"
    and "pt_wf s' root" and "is_table s' root q \<longleftrightarrow> is_table s root q"
proof -
  have s': "s' = set_pte (pte_addr p (2 - 2) va) w s" by (simp add: s'_def)
  show tbl: "tbl s' root k va' = tbl s root k va'" if "k \<le> 2" for k va'
    unfolding s' by (rule tbl_set_entry [OF wf _ p]) (use that in auto)
  show "leaf s' root va' = (if same_path 3 va va' then w else leaf s root va')"
  proof (cases "tbl s root 2 va'")
    case None
    then have "\<not> same_path 3 va va'"
      using p tbl_cong [of 2 va va' s root] same_path_mono [of 3 va va' 2] by auto
    then show ?thesis using None by (simp add: leaf_def tbl)
  next
    case (Some q)
    have "pte_at s' (pte_addr q (2 - 2) va') =
        (if (2 :: nat) = 2 \<and> same_path (Suc 2) va va' then w else pte_at s (pte_addr q (2 - 2) va'))"
      unfolding s' by (rule pte_at_set_entry [OF wf _ p _ Some]) simp_all
    moreover have "Suc 2 = 3" by simp
    ultimately show ?thesis using Some tbl [of 2 va'] by (simp add: leaf_def)
  qed
  show "pt_wf s' root" by (rule pt_wf_frame [OF wf tbl]) (simp_all add: in_use_def s'_def)
  show "is_table s' root q \<longleftrightarrow> is_table s root q" unfolding is_table_def using tbl by metis
qed

text \<open>Hanging a fresh zeroed page below an empty entry changes no translation.\<close>

lemma PTE2PA_new:
  assumes "page_aligned q" and "q < 0x100000000000000"
  shows "PTE2PA (PA2PTE q OR PTE_V) = q" and "(PA2PTE q OR PTE_V) AND PTE_V \<noteq> 0"
proof -
  have "PTE2PA (PA2PTE q OR PTE_V) = PGROUNDDOWN q"
    by (rule PTE2PA_PA2PTE) (use assms in \<open>simp_all add: PTE_V_def\<close>)
  moreover have "PGROUNDDOWN q = q"
    using assms(1) unat_PGROUNDDOWN [of q] by (auto simp: page_aligned_def word_unat_eq_iff)
  ultimately show "PTE2PA (PA2PTE q OR PTE_V) = q" by simp
  have "bit ((PA2PTE q OR PTE_V) AND PTE_V) 0" by (simp add: PTE_V_def bit_simps)
  then show "(PA2PTE q OR PTE_V) AND PTE_V \<noteq> 0" by auto
qed

lemma kvalid_mem:
  assumes "kvalid s" and "freelist s' = freelist s" "refcnt s' = refcnt s"
    and "kernel_end s' = kernel_end s" "hartid s' = hartid s"
    and "\<And>q a. page_ok s q \<Longrightarrow> refcnt s (page_idx q) = 0 \<Longrightarrow> in_page q a \<Longrightarrow> mem s' a = mem s a"
  shows "kvalid s'"
proof -
  obtain F where F: "kmem_inv s F" using assms(1) kvalid_def by blast
  note inv = kmem_invD [OF F]
  have ok: "page_ok s' = page_ok s" using assms(4) by (simp add: page_ok_def fun_eq_iff)
  have "chain (mem s') (freelist s i) (F i)" if "i < NCPU" for i
  proof (rule chain_frame [OF inv(1) [OF that]])
    fix x assume "x \<in> set (F i)"
    then have "page_ok s x" "refcnt s (page_idx x) = 0" using inv(5,6) by blast+
    then show "load64 (mem s') x = load64 (mem s) x"
      using load64_page [of x "mem s'" "mem s" 0] assms(6) by simp
  qed
  then have "kmem_inv s' F" using F unfolding kmem_inv_def ok assms(2-5) by blast
  then show ?thesis using kvalid_def by blast
qed

lemma kvalid_set_pte:
  assumes "kvalid s" and "in_use s p"
  shows "kvalid (set_pte (pte_addr p l va) v s)"
proof (rule kvalid_mem [OF assms(1)])
  fix q a assume "page_ok s q" "refcnt s (page_idx q) = 0" "in_page q a"
  moreover then have "q \<noteq> p" using assms(2) by (auto simp: in_use_def)
  ultimately have "\<not> in_page p a" using assms(2) in_page_unique [OF page_ok_aligned page_ok_aligned]
    by (auto simp: in_use_def)
  then show "mem (set_pte (pte_addr p l va) v s) a = mem s a" by (rule set_pte_outside)
qed simp_all

lemma kvalid_zero_page:
  assumes "kvalid s" and "in_use s p"
  shows "kvalid (zero_page p s)"
proof (rule kvalid_mem [OF assms(1)])
  fix q a assume "page_ok s q" "refcnt s (page_idx q) = 0" "in_page q a"
  moreover then have "q \<noteq> p" using assms(2) by (auto simp: in_use_def)
  ultimately have "\<not> in_page p a" using assms(2) in_page_unique [OF page_ok_aligned page_ok_aligned]
    by (auto simp: in_use_def)
  then show "mem (zero_page p s) a = mem s a" by simp
qed simp_all

lemma pte_at_zero_page: "pte_at (zero_page q s) (pte_addr q l va) = 0"
proof -
  have "pte_at (zero_page q s) (pte_addr q l va) = load64 (\<lambda>_. 0) (pte_addr q l va)"
    unfolding pte_at_def pte_addr_off by (rule load64_page [OF _ pte_room]) simp
  then show ?thesis by (simp add: load64_zero)
qed

lemma page_ok_below: "page_ok s q \<Longrightarrow> q < 0x100000000000000"
  by (simp add: page_ok_def PHYSTOP_def KERNBASE_def word_less_nat_alt word_le_nat_alt)

text \<open>The freshly allocated, zeroed page is not a table yet and disturbs none.\<close>

lemma fresh_page:
  assumes v: "kvalid s" and wf: "pt_wf s root" and a: "kalloc s = (q, s1)" "q \<noteq> 0"
  shows "kvalid (zero_page q s1)" and "page_ok s q" and "\<not> in_use s q" and "\<not> is_table s root q"
    and "page_ok (zero_page q s1) = page_ok s"
    and "refcnt (zero_page q s1) = (refcnt s)(page_idx q := 1)"
    and "in_use (zero_page q s1) x \<longleftrightarrow> in_use s x \<or> x = q"
    and "in_use s x \<Longrightarrow> in_page x b \<Longrightarrow> mem (zero_page q s1) b = mem s b"
    and "k \<le> 2 \<Longrightarrow> tbl (zero_page q s1) root k va = tbl s root k va"
    and "leaf (zero_page q s1) root va = leaf s root va"
    and "pt_wf (zero_page q s1) root"
proof -
  let ?z = "zero_page q s1"
  note pg = kalloc_page [OF v a]
  show ok: "page_ok s q" by (rule pg(2))
  show nu: "\<not> in_use s q" using pg(4) by (simp add: in_use_def)
  show nt: "\<not> is_table s root q" using nu pt_wfD(1) [OF wf] by (auto simp: is_table_def)
  show okz: "page_ok ?z = page_ok s" using pg(3) by simp
  show rz: "refcnt ?z = (refcnt s)(page_idx q := 1)" using pg(5) by simp
  have "in_use s1 q" using pg by (simp add: in_use_def)
  then show "kvalid ?z" by (rule kvalid_zero_page [OF pg(1)])
  show use: "in_use ?z x \<longleftrightarrow> in_use s x \<or> x = q" for x
    unfolding in_use_def okz rz
    using page_idx_inj [OF page_ok_aligned page_ok_aligned, of s x s q] ok pg(4) by auto
  show frame: "mem ?z b = mem s b" if "in_use s x" "in_page x b" for x b
  proof -
    have "x \<noteq> q" using that nu by auto
    then have "\<not> in_page q b"
      using that in_page_unique [OF in_use_aligned [OF that(1)] page_ok_aligned [OF ok]] by blast
    then show ?thesis by (simp add: pg(6))
  qed
  have tf: "mem ?z b = mem s b" if "is_table s root x" "in_page x b" for x b
  proof -
    obtain k va where "k \<le> 2" "tbl s root k va = Some x" using \<open>is_table s root x\<close> is_table_def by blast
    then show ?thesis using frame [OF pt_wfD(1) [OF wf]] that(2) by blast
  qed
  show tz: "tbl ?z root k va = tbl s root k va" if "k \<le> 2" for k va
    using tables_frame(1) [of s root ?z, OF tf] that by simp
  show "leaf ?z root va = leaf s root va"
    using tables_frame(2) [of s root ?z, OF tf] by simp
  show "pt_wf ?z root" by (rule pt_wf_frame [OF wf tz]) (simp_all add: use)
qed

lemma at_k_none:
  assumes k: "tbl s root k va = Some p" and inv: "pte_at s (pte_addr p (2 - k) va) AND PTE_V = 0"
    and sp: "same_path (Suc k) va va'"
  shows "tbl s root (Suc k) va' = None"
proof -
  have "tbl s root k va' = Some p" using tbl_cong [of k va va' s root] sp k by (simp add: same_path_Suc)
  moreover have "pte_addr p (2 - k) va' = pte_addr p (2 - k) va" using sp by (simp add: same_path_Suc pte_addr_def)
  ultimately show ?thesis using inv by simp
qed

lemma new_table:
  assumes v: "kvalid s" and wf: "pt_wf s root" and k: "k < 2" "tbl s root k va = Some p"
    and inv: "pte_at s (pte_addr p (2 - k) va) AND PTE_V = 0"
    and a: "kalloc s = (q, s1)" "q \<noteq> 0"
  defines "s' \<equiv> set_pte (pte_addr p (2 - k) va) (PA2PTE q OR PTE_V) (zero_page q s1)"
  shows "j \<le> 2 \<Longrightarrow> tbl s' root j va' =
      (if j = Suc k \<and> same_path (Suc k) va va' then Some q else tbl s root j va')"
    and "leaf s' root va' = leaf s root va'"
proof -
  let ?z = "zero_page q s1" and ?w = "PA2PTE q OR PTE_V"
  note fp = fresh_page [OF v wf a]
  have pz: "tbl ?z root k va = Some p" using fp(9) k by simp
  have k2: "k \<le> 2" using k(1) by simp
  note w = PTE2PA_new [OF page_ok_aligned [OF fp(2)] page_ok_below [OF fp(2)]]
  have pu: "in_use s p" using pt_wfD(1) [OF wf k2 k(2)] .
  have pq: "p \<noteq> q" using pu fp(3) by auto
  have qz: "pte_at s' (pte_addr q l x) = 0" for l x
  proof -
    have "mem s' b = mem ?z b" if "in_page q b" for b
      unfolding s'_def using that other_page [of ?z p q b] pu fp(7) pq by (intro set_pte_outside) blast
    from pte_at_frame [OF this] show ?thesis by (simp add: pte_at_zero_page)
  qed
  have low: "tbl s' root j va' = tbl s root j va'" if "j \<le> k \<or> \<not> same_path (Suc k) va va'" "j \<le> 2" for j va'
    unfolding s'_def using tbl_set_entry [OF fp(11) k2 pz that(1)] that(2) fp(9) by simp
  have at_k: "tbl s' root (Suc k) va' = Some q" "tbl s root (Suc k) va' = None"
    if sp: "same_path (Suc k) va va'" for va'
  proof -
    have pv: "tbl s root k va' = Some p" using tbl_cong [of k va va' s root] sp k(2) by (simp add: same_path_Suc)
    have eq: "pte_addr p (2 - k) va' = pte_addr p (2 - k) va" using sp by (simp add: same_path_Suc pte_addr_def)
    show "tbl s' root (Suc k) va' = Some q" using low [of k va'] pv k2 eq w by (simp add: s'_def)
    show "tbl s root (Suc k) va' = None" by (rule at_k_none [OF k(2) inv sp])
  qed
  show tbl: "tbl s' root j va' = (if j = Suc k \<and> same_path (Suc k) va va' then Some q else tbl s root j va')"
    if j: "j \<le> 2" for j va'
  proof -
    consider "j \<le> k \<or> \<not> same_path (Suc k) va va'" | "j = Suc k" "same_path (Suc k) va va'"
      | "j = Suc (Suc k)" "same_path (Suc k) va va'" using j by linarith
    then show ?thesis
    proof cases
      case 1
      then show ?thesis using low j by auto
    next
      case 2
      then show ?thesis using at_k by simp
    next
      case 3
      then show ?thesis using at_k [OF 3(2)] qz by simp
    qed
  qed
  show "leaf s' root va' = leaf s root va'"
  proof (cases "2 = Suc k \<and> same_path (Suc k) va va'")
    case True
    then have "tbl s root 2 va' = None" using at_k(2) [of va'] by presburger
    then have "leaf s root va' = 0" by (simp add: leaf_def)
    moreover have "tbl s' root 2 va' = Some q" using tbl [of 2 va', OF order_refl] by (simp only: True if_True simp_thms)
    then have "leaf s' root va' = 0" by (simp add: leaf_def qz)
    ultimately show ?thesis by simp
  next
    case False
    then have t: "tbl s' root 2 va' = tbl s root 2 va'"
      using tbl [of 2 va', OF order_refl] by (simp only: if_False)
    show ?thesis
    proof (cases "tbl s root 2 va'")
      case (Some x)
      have "pte_at s' (pte_addr x (2 - 2) va') = pte_at ?z (pte_addr x (2 - 2) va')"
        unfolding s'_def using pte_at_set_entry [OF fp(11) k2 pz, of 2 va' x ?w] k(1) Some fp(9) by simp
      moreover have "leaf ?z root va' = pte_at ?z (pte_addr x 0 va')" using fp(9) Some by (simp add: leaf_def)
      ultimately show ?thesis using t Some fp(10) by (simp add: leaf_def)
    qed (use t in \<open>simp add: leaf_def\<close>)
  qed
qed

text \<open>
  \<open>evolves s root s'\<close>: from \<open>s\<close> to \<open>s'\<close> only the page table at \<open>root\<close> was
  written, and new tables were hung into it. The pages in use stay in use with their counts,
  and the bytes of every page in use that is not a table of \<open>root\<close> are unchanged. If no
  translation changed either, \<open>s'\<close> merely \<open>extends\<close> \<open>s\<close>.
\<close>

definition evolves :: "kmem \<Rightarrow> u64 \<Rightarrow> kmem \<Rightarrow> bool" where
  "evolves s root s' \<longleftrightarrow> kvalid s' \<and> pt_wf s' root \<and> page_ok s' = page_ok s \<and>
     kernel_end s' = kernel_end s \<and> hartid s' = hartid s \<and>
     (\<forall>x. in_use s x \<longrightarrow> refcnt s' (page_idx x) = refcnt s (page_idx x)) \<and>
     (\<forall>x. in_use s x \<longrightarrow> \<not> is_table s root x \<longrightarrow> (\<forall>b. in_page x b \<longrightarrow> mem s' b = mem s b)) \<and>
     (\<forall>x. is_table s root x \<longrightarrow> is_table s' root x) \<and>
     (\<forall>x. is_table s' root x \<longrightarrow> is_table s root x \<or> \<not> in_use s x)"

definition extends :: "kmem \<Rightarrow> u64 \<Rightarrow> kmem \<Rightarrow> bool" where
  "extends s root s' \<longleftrightarrow> evolves s root s' \<and> (\<forall>va. leaf s' root va = leaf s root va)"

lemma evolves_refl: "kvalid s \<Longrightarrow> pt_wf s root \<Longrightarrow> evolves s root s"
  by (simp add: evolves_def)

lemma extends_refl: "kvalid s \<Longrightarrow> pt_wf s root \<Longrightarrow> extends s root s"
  by (simp add: extends_def evolves_refl)

lemma evolves_in_use: "evolves s root s' \<Longrightarrow> in_use s x \<Longrightarrow> in_use s' x"
  by (auto simp: evolves_def in_use_def)

lemma evolves_trans:
  assumes 1: "evolves s root s1" and 2: "evolves s1 root s2"
  shows "evolves s root s2"
proof -
  note use = evolves_in_use [OF 1]
  have "mem s2 b = mem s b" if "in_use s x" "\<not> is_table s root x" "in_page x b" for x b
  proof -
    have "\<not> is_table s1 root x" using 1 that by (auto simp: evolves_def)
    then have "mem s2 b = mem s1 b" using 2 use [OF that(1)] that(3) by (simp add: evolves_def)
    also have "\<dots> = mem s b" using 1 that by (simp add: evolves_def)
    finally show ?thesis .
  qed
  moreover have "is_table s root x \<or> \<not> in_use s x" if "is_table s2 root x" for x
    using 1 2 that use by (auto simp: evolves_def)
  moreover have "refcnt s2 (page_idx x) = refcnt s (page_idx x)" if "in_use s x" for x
    using 1 2 that use by (simp add: evolves_def)
  ultimately show ?thesis using 1 2 unfolding evolves_def by auto
qed

lemma extends_trans: "extends s root s1 \<Longrightarrow> extends s1 root s2 \<Longrightarrow> extends s root s2"
  using evolves_trans by (auto simp: extends_def)

lemma new_table_extends:
  assumes v: "kvalid s" and wf: "pt_wf s root" and k: "k < 2" "tbl s root k va = Some p"
    and inv: "pte_at s (pte_addr p (2 - k) va) AND PTE_V = 0"
    and a: "kalloc s = (q, s1)" "q \<noteq> 0"
  defines "s' \<equiv> set_pte (pte_addr p (2 - k) va) (PA2PTE q OR PTE_V) (zero_page q s1)"
  shows "extends s root s'" and "tbl s' root (Suc k) va = Some q"
proof -
  let ?z = "zero_page q s1"
  note fp = fresh_page [OF v wf a] and nt = new_table [OF v wf k inv a, folded s'_def]
  have pu: "in_use s p" using pt_wfD(1) [OF wf _ k(2)] k(1) by simp
  show qt: "tbl s' root (Suc k) va = Some q" using nt(1) [of "Suc k" va] k(1) by simp
  have use: "in_use s' x \<longleftrightarrow> in_use s x \<or> x = q" for x
    using fp(7) [of x] by (simp add: s'_def in_use_def)
  have fresh: "tbl s root j x \<noteq> Some q" if "j \<le> 2" for j x
    using fp(4) that is_table_def by blast
  have wf': "pt_wf s' root"
    unfolding pt_wf_def
  proof (intro conjI allI impI)
    fix j x y assume "j \<le> 2" "tbl s' root j x = Some y"
    then show "in_use s' y" using nt(1) [of j x] pt_wfD(1) [OF wf] use by (auto split: if_splits)
  next
    fix j j' x x' y
    assume j: "j \<le> 2" "j' \<le> 2" and y: "tbl s' root j x = Some y" "tbl s' root j' x' = Some y"
    show "j = j'" "same_path j x x'"
      using j y nt(1) [of j x] nt(1) [of j' x'] fresh [of j x] fresh [of j' x']
        pt_wfD(2) [OF wf j, of x y x']
      by (auto split: if_splits simp: same_path_def)
  qed
  have tabs: "is_table s' root x \<longleftrightarrow> is_table s root x \<or> x = q" for x
  proof
    assume "is_table s' root x"
    then show "is_table s root x \<or> x = q" using nt(1) unfolding is_table_def by (metis option.inject)
  next
    have "\<exists>j \<le> 2. \<exists>y. tbl s' root j y = Some x" if "j \<le> 2" "tbl s root j y = Some x" for j y
      using nt(1) [of j y] that at_k_none [OF k(2) inv, of y]
      by (cases "j = Suc k \<and> same_path (Suc k) va y") auto
    moreover have "is_table s' root q" using qt k(1) unfolding is_table_def by (intro exI [of _ "Suc k"]) auto
    ultimately show "is_table s root x \<or> x = q \<Longrightarrow> is_table s' root x" by (auto simp: is_table_def)
  qed
  have "mem s' b = mem s b" if "in_use s x" "\<not> is_table s root x" "in_page x b" for x b
  proof -
    have "p \<noteq> x" using that k by (auto simp: is_table_def)
    then have "mem s' b = mem ?z b"
      unfolding s'_def by (rule set_pte_outside [OF other_page [OF pu that(1) _ that(3)]])
    then show ?thesis using fp(8) that by simp
  qed
  moreover have "kvalid s'" unfolding s'_def by (rule kvalid_set_pte [OF fp(1)]) (simp add: fp(7) pu)
  moreover have "refcnt s' (page_idx x) = refcnt s (page_idx x)" if "in_use s x" for x
  proof -
    have "x \<noteq> q" using that fp(3) by auto
    then have "page_idx x \<noteq> page_idx q"
      using that fp(2) page_idx_inj by (auto simp: in_use_def)
    then show ?thesis by (simp add: s'_def fp(6) del: zero_page_sel)
  qed
  ultimately show "extends s root s'"
    using wf' nt(2) tabs fp(3,5) kalloc_page(7,8) [OF v a] unfolding extends_def evolves_def by (auto simp: s'_def)
qed

lemma tbl_None_mono: "tbl s root j va = None \<Longrightarrow> j \<le> k \<Longrightarrow> tbl s root k va = None"
proof (induction k)
  case (Suc k)
  then show ?case by (cases "j = Suc k") auto
qed simp

lemma walk_level_spec:
  assumes "kvalid s" and "pt_wf s root" and "k + l = 2" and "tbl s root k va = Some p"
    and "walk_level l p va alloc s = (pte, s')"
  shows "extends s root s' \<and> (pte = 0 \<or> (\<exists>q. tbl s' root 2 va = Some q \<and> pte = pte_addr q 0 va)) \<and>
    (\<not> alloc \<longrightarrow> s' = s \<and> pte = (case tbl s root 2 va of None \<Rightarrow> 0 | Some q \<Rightarrow> pte_addr q 0 va))"
  using assms
proof (induction l arbitrary: k p s)
  case 0
  then show ?case by (auto simp: extends_refl)
next
  case (Suc l)
  have lev: "2 - k = Suc l" and k: "Suc k + l = 2" "k < 2" using Suc.prems(3) by auto
  let ?e = "pte_addr p (2 - k) va"
  show ?case
  proof (cases "pte_at s ?e AND PTE_V = 0")
    case False
    then have "tbl s root (Suc k) va = Some (PTE2PA (pte_at s ?e))" using Suc.prems(4) by simp
    moreover have "walk_level l (PTE2PA (pte_at s ?e)) va alloc s = (pte, s')"
      using Suc.prems(5) False lev by (simp add: Let_def)
    ultimately show ?thesis using Suc.IH [OF Suc.prems(1,2) k(1)] by blast
  next
    case True
    then have "tbl s root (Suc k) va = None" using Suc.prems(4) by simp
    then have none: "tbl s root 2 va = None" by (rule tbl_None_mono) (use k in simp)
    show ?thesis
    proof (cases alloc)
      case False
      then show ?thesis
        using Suc.prems(1,2,5) True lev none by (simp add: Let_def extends_refl)
    next
      case alloc: True
      obtain q s1 where q: "kalloc s = (q, s1)" by (cases "kalloc s")
      show ?thesis
      proof (cases "q = 0")
        case q0: True
        then have "s1 = s" using kalloc_null(1) [OF Suc.prems(1), of s1] q by simp
        then show ?thesis
          using Suc.prems(1,2,5) q q0 alloc lev True by (simp add: Let_def extends_refl)
      next
        case False
        let ?s = "set_pte ?e (PA2PTE q OR PTE_V) (zero_page q s1)"
        note nt = new_table_extends [OF Suc.prems(1,2) k(2) Suc.prems(4) True q False]
        have "walk_level l q va alloc ?s = (pte, s')"
          using Suc.prems(5) True False q alloc lev by (simp add: Let_def)
        moreover have "kvalid ?s" "pt_wf ?s root" using nt(1) by (simp_all add: extends_def evolves_def)
        ultimately have "extends ?s root s' \<and> (pte = 0 \<or> (\<exists>q. tbl s' root 2 va = Some q \<and> pte = pte_addr q 0 va))"
          using Suc.IH [OF _ _ k(1) nt(2)] by blast
        then show ?thesis using extends_trans [OF nt(1)] alloc by blast
      qed
    qed
  qed
qed

lemma walk_alloc:
  assumes "kvalid s" and "pt_wf s root" and "walk root va True s = Some (pte, s')"
  shows "extends s root s'" and "pte \<noteq> 0 \<Longrightarrow> \<exists>q. tbl s' root 2 va = Some q \<and> pte = pte_addr q 0 va"
  using walk_level_spec [OF assms(1,2), of 0 2 va root True pte s'] assms(3)
  by (auto simp: walk_def split: if_splits)

lemma walk_ro_tbl:
  assumes "kvalid s" and "pt_wf s root"
  shows "walk_ro root va s = (case tbl s root 2 va of None \<Rightarrow> 0 | Some q \<Rightarrow> pte_addr q 0 va)"
  using walk_level_spec [OF assms, of 0 2 va root False] unfolding walk_ro_def
  by (cases "walk_level 2 root va False s") auto

lemma pte_addr_nz:
  assumes "kvalid s" and "in_use s p"
  shows "pte_addr p l va \<noteq> 0"
proof
  assume "pte_addr p l va = 0"
  then have "unat (p + of_nat (8 * unat (PX l va))) = 0" by (simp add: pte_addr_off)
  moreover have "unat p < 0x88000000" "p \<noteq> 0"
    using assms kvalid_nonnull by (auto simp: in_use_def page_ok_def PHYSTOP_def KERNBASE_def
        word_le_nat_alt word_less_nat_alt)
  ultimately show False
    using pte_room [of l va] by (simp add: unat_word_ariths unat_eq_0)
qed

lemma walkaddr_leaf:
  assumes "kvalid s" and "pt_wf s root"
  shows "walkaddr root va s =
    (if va < MAXVA \<and> leaf s root va AND PTE_V \<noteq> 0 \<and> leaf s root va AND PTE_U \<noteq> 0
     then PTE2PA (leaf s root va) else 0)"
  using walk_ro_tbl [OF assms, of va] pte_addr_nz [OF assms(1) pt_wfD(1) [OF assms(2) order_refl], of va]
  by (auto simp: walkaddr_def leaf_def Let_def split: option.splits)

lemma cowpage_leaf:
  assumes "kvalid s" and "pt_wf s root"
  shows "cowpage root va s =
    (if va < MAXVA \<and> leaf s root va AND PTE_V \<noteq> 0 \<and> leaf s root va AND PTE_F \<noteq> 0 then 0 else - 1)"
  using walk_ro_tbl [OF assms, of va] pte_addr_nz [OF assms(1) pt_wfD(1) [OF assms(2) order_refl], of va]
  by (auto simp: cowpage_def leaf_def Let_def split: option.splits)

section \<open>Translations\<close>

lemma bit_PX: "bit (PX l va) n \<longleftrightarrow> n < 9 \<and> bit va (12 + 9 * l + n)"
proof -
  have "(0x1FF :: u64) = mask 9" by (simp add: mask_eq_exp_minus_1)
  then have "PX l va = drop_bit (12 + 9 * l) va AND mask 9" unfolding PX_def by (rule arg_cong)
  then show ?thesis by (auto simp: bit_simps ac_simps dest: bit_imp_le_length)
qed

lemma PX_page_no: "PX l va = drop_bit (9 * l) (drop_bit 12 va) AND 0x1FF"
  by (simp add: PX_def add.commute)

lemma drop_bit_PGROUNDDOWN: "drop_bit 12 (PGROUNDDOWN va) = drop_bit 12 va"
  unfolding PGROUNDDOWN_push by (rule bit_word_eqI) (auto simp: bit_simps dest: bit_imp_le_length)

lemma page_no_split:
  assumes "va < MAXVA"
  shows "drop_bit 12 va = PX 0 va OR push_bit 9 (PX 1 va) OR push_bit 18 (PX 2 va)"
proof (rule bit_word_eqI)
  fix n assume "n < LENGTH(64)"
  have "bit va m \<Longrightarrow> m < 38" for m
    using assms by (intro bit_word_small [of va 38]) (simp_all add: MAXVA_def word_less_nat_alt)
  then have top: "bit va (n + 12) \<Longrightarrow> n < 27" by fastforce
  have e: "bit (PX 0 va OR push_bit 9 (PX 1 va) OR push_bit 18 (PX 2 va)) n \<longleftrightarrow>
      n < 9 \<and> bit va (12 + n) \<or> 9 \<le> n \<and> n - 9 < 9 \<and> bit va (21 + (n - 9)) \<or>
      18 \<le> n \<and> n - 18 < 9 \<and> bit va (30 + (n - 18))"
    using \<open>n < LENGTH(64)\<close> by (auto simp: bit_or_iff bit_push_bit_iff bit_PX)
  have "n < 9 \<or> 9 \<le> n \<and> n < 18 \<or> 18 \<le> n" by arith
  then have "bit va (n + 12) \<longleftrightarrow> bit (PX 0 va OR push_bit 9 (PX 1 va) OR push_bit 18 (PX 2 va)) n"
    unfolding e
  proof (elim disjE conjE)
    assume "9 \<le> n" "n < 18"
    then have "21 + (n - 9) = n + 12" "n - 9 < 9" "\<not> n < 9" "\<not> 18 \<le> n" by auto
    then show "bit va (n + 12) \<longleftrightarrow> n < 9 \<and> bit va (12 + n) \<or> 9 \<le> n \<and> n - 9 < 9 \<and> bit va (21 + (n - 9)) \<or>
      18 \<le> n \<and> n - 18 < 9 \<and> bit va (30 + (n - 18))" using \<open>9 \<le> n\<close> by (simp add: add.commute)
  next
    assume "18 \<le> n"
    then have "30 + (n - 18) = n + 12" "\<not> n < 9" "\<not> n - 9 < 9" by auto
    then show "bit va (n + 12) \<longleftrightarrow> n < 9 \<and> bit va (12 + n) \<or> 9 \<le> n \<and> n - 9 < 9 \<and> bit va (21 + (n - 9)) \<or>
      18 \<le> n \<and> n - 18 < 9 \<and> bit va (30 + (n - 18))" using \<open>18 \<le> n\<close> top by (auto simp: add.commute)
  qed (simp add: add.commute)
  then show "bit (drop_bit 12 va) n = bit (PX 0 va OR push_bit 9 (PX 1 va) OR push_bit 18 (PX 2 va)) n"
    by (simp add: bit_drop_bit_eq add.commute)
qed

lemma same_path_page:
  assumes "va < MAXVA" and "va' < MAXVA"
  shows "same_path 3 va va' \<longleftrightarrow> PGROUNDDOWN va = PGROUNDDOWN va'"
proof
  assume sp: "same_path 3 va va'"
  have "PX 2 va = PX 2 va'" "PX 1 va = PX 1 va'" "PX 0 va = PX 0 va'"
    using sp [unfolded same_path_def, rule_format, of 0] sp [unfolded same_path_def, rule_format, of 1]
      sp [unfolded same_path_def, rule_format, of 2] by simp_all
  then have "drop_bit 12 va = drop_bit 12 va'" using assms by (simp add: page_no_split)
  then show "PGROUNDDOWN va = PGROUNDDOWN va'" by (simp add: PGROUNDDOWN_push)
next
  assume "PGROUNDDOWN va = PGROUNDDOWN va'"
  then have "drop_bit 12 va = drop_bit 12 va'" using drop_bit_PGROUNDDOWN by metis
  then show "same_path 3 va va'" by (simp add: same_path_def PX_page_no del: drop_bit_drop_bit)
qed

lemma same_path_PGROUNDDOWN [simp]: "same_path k (PGROUNDDOWN va) va"
  by (simp add: same_path_def PX_page_no drop_bit_PGROUNDDOWN del: drop_bit_drop_bit)

lemma PGROUNDDOWN_aligned: "page_aligned va \<Longrightarrow> PGROUNDDOWN va = va"
  using unat_PGROUNDDOWN [of va] by (auto simp: page_aligned_def word_unat_eq_iff)

lemma page_aligned_PGROUNDDOWN [simp]: "page_aligned (PGROUNDDOWN va)"
  by (simp add: page_aligned_def unat_PGROUNDDOWN)

lemma PGROUNDDOWN_page_end:
  assumes "page_aligned va"
  shows "PGROUNDDOWN (va + PGSIZE - 1) = va"
proof -
  obtain k where k: "unat va = 4096 * k" using assms by (auto simp: page_aligned_def)
  then have "k < 4503599627370496" using unat_u64_less [of va] by simp
  then have "unat va + 4095 < 2 ^ 64" using k by simp
  then have "unat (va + 4095) = unat va + 4095" by (simp add: unat_word_ariths)
  moreover have "(unat va + 4095) div 4096 * 4096 = unat va" using k by simp
  ultimately have "unat (PGROUNDDOWN (va + 4095)) = unat va" by (simp add: unat_PGROUNDDOWN)
  then show ?thesis by (simp add: PGSIZE_def word_unat_eq_iff algebra_simps)
qed

text \<open>Mapping one page.\<close>

lemma mappages_one:
  assumes v: "kvalid s" and wf: "pt_wf s root" and va: "page_aligned va" "va < MAXVA"
  obtains (remap) "mappages root va PGSIZE pa perm s = None" "leaf s root va AND PTE_V \<noteq> 0"
  | (nomem) s' where "mappages root va PGSIZE pa perm s = Some (- 1, s')" "extends s root s'"
  | (mapped) s' where "mappages root va PGSIZE pa perm s = Some (0, s')" "evolves s root s'"
      "leaf s root va AND PTE_V = 0"
      "\<And>va'. leaf s' root va' =
        (if same_path 3 va va' then PA2PTE pa OR perm OR PTE_V else leaf s root va')"
proof -
  obtain pte s1 where "walk_level 2 root va True s = (pte, s1)" by (cases "walk_level 2 root va True s")
  then have w: "walk root va True s = Some (pte, s1)" using va(2) by (simp add: walk_def)
  note wa = walk_alloc [OF v wf w]
  let ?w = "PA2PTE pa OR perm OR PTE_V"
  have eq: "mappages root va PGSIZE pa perm s =
      (if pte = 0 then Some (- 1, s1) else if pte_at s1 pte AND PTE_V \<noteq> 0 then None
       else Some (0, set_pte pte ?w s1))"
    unfolding mappages_def PGROUNDDOWN_aligned [OF va(1)] PGROUNDDOWN_page_end [OF va(1)]
    by (subst mappages_from.simps) (simp add: w)
  show thesis
  proof (cases "pte = 0")
    case True
    then show thesis using nomem eq wa(1) by simp
  next
    case False
    then obtain q where q: "tbl s1 root 2 va = Some q" "pte = pte_addr q 0 va" using wa(2) by blast
    have lf: "leaf s1 root va = leaf s root va" using wa(1) by (simp add: extends_def)
    then have at: "pte_at s1 pte = leaf s root va" using q by (simp add: leaf_def)
    show thesis
    proof (cases "leaf s root va AND PTE_V = 0")
      case False
      then show thesis using remap eq at \<open>pte \<noteq> 0\<close> by simp
    next
      case True
      let ?s = "set_pte (pte_addr q 0 va) ?w s1"
      have ev: "evolves s root s1" and wf1: "pt_wf s1 root" and v1: "kvalid s1"
        using wa(1) by (simp_all add: extends_def evolves_def)
      note sl = set_leaf [OF wf1 q(1), where w = ?w]
      have qu: "in_use s1 q" using pt_wfD(1) [OF wf1 order_refl q(1)] .
      have qt: "is_table s1 root q" using q(1) is_table_def by blast
      have "mem ?s b = mem s1 b" if "in_use s1 x" "\<not> is_table s1 root x" "in_page x b" for x b
        by (rule set_pte_outside [OF other_page [OF qu that(1) _ that(3)]]) (use that qt in auto)
      then have "evolves s1 root ?s"
        using sl(3,4) kvalid_set_pte [OF v1 qu] unfolding evolves_def by (simp del: set_pte_sel(1))
      then have "evolves s root ?s" using evolves_trans [OF ev] by blast
      then show thesis
        using mapped [of ?s] eq at True \<open>pte \<noteq> 0\<close> q(2) sl(2) wa(1) by (simp add: extends_def)
    qed
  qed
qed

section \<open>User bytes\<close>

text \<open>\<open>user_byte s root va\<close> is the byte a user program sees at \<open>va\<close>.\<close>

definition user_byte :: "kmem \<Rightarrow> u64 \<Rightarrow> u64 \<Rightarrow> u8 option" where
  "user_byte s root va =
     (let pa0 = walkaddr root (PGROUNDDOWN va) s
      in if pa0 = 0 then None else Some (mem s (pa0 + (va - PGROUNDDOWN va))))"

definition page_off :: "u64 \<Rightarrow> nat" where
  "page_off va = unat va mod 4096"

lemma page_off_less: "page_off va < 4096"
  by (simp add: page_off_def)

lemma off_word: "va - PGROUNDDOWN va = of_nat (page_off va)"
proof -
  have "PGROUNDDOWN va \<le> va" by (simp add: word_le_nat_alt unat_PGROUNDDOWN)
  then have "unat (va - PGROUNDDOWN va) = unat va - unat va div 4096 * 4096"
    by (simp add: unat_sub unat_PGROUNDDOWN)
  also have "\<dots> = page_off va" by (simp add: page_off_def modulo_nat_def)
  finally show ?thesis using page_off_less [of va] by (simp add: word_unat_eq_iff)
qed

lemma page_chunk_nat: "page_chunk va len = min (4096 - page_off va) len"
proof -
  have "unat (PGSIZE - of_nat (page_off va)) = 4096 - page_off va"
    using page_off_less [of va]
    by (subst unat_sub) (simp_all add: PGSIZE_def word_le_nat_alt)
  then show ?thesis by (simp add: page_chunk_def off_word)
qed

lemma unat_plus_no_wrap: "unat va + i < 2 ^ 64 \<Longrightarrow> unat (va + of_nat i) = unat va + i" for va :: u64
  by (simp add: unat_word_ariths)

text \<open>Within a page the rounded address stays and the offset grows.\<close>

lemma same_page:
  assumes "unat va + i < 2 ^ 64" and "i < 4096 - page_off va"
  shows "PGROUNDDOWN (va + of_nat i) = PGROUNDDOWN va"
    and "va + of_nat i - PGROUNDDOWN va = of_nat (page_off va + i)"
proof -
  have "(unat va + i) div 4096 = unat va div 4096"
  proof -
    have "unat va = 4096 * (unat va div 4096) + page_off va" by (simp add: page_off_def)
    moreover have "(4096 * q + r + i) div 4096 = q" if "r + i < 4096" for q r :: nat using that by simp
    ultimately show ?thesis using assms(2) by (metis less_diff_conv add.commute)
  qed
  then show "PGROUNDDOWN (va + of_nat i) = PGROUNDDOWN va"
    by (simp add: word_unat_eq_iff unat_PGROUNDDOWN unat_plus_no_wrap [OF assms(1)])
  show "va + of_nat i - PGROUNDDOWN va = of_nat (page_off va + i)"
    using off_word [of va] by (simp add: algebra_simps)
qed

lemma next_page:
  assumes "unat va + (4096 - page_off va) < 2 ^ 64"
  shows "PGROUNDDOWN va + PGSIZE = va + of_nat (4096 - page_off va)"
proof -
  have "PGROUNDDOWN va = va - of_nat (page_off va)" using off_word [of va] by (simp add: algebra_simps)
  then show ?thesis using page_off_less [of va] by (simp add: PGSIZE_def of_nat_diff)
qed

lemma length_read_bytes [simp]: "length (read_bytes m a n) = n"
  by (induction n arbitrary: a) simp_all

lemma nth_read_bytes: "i < n \<Longrightarrow> read_bytes m a n ! i = m (a + of_nat i)"
  by (induction n arbitrary: a i) (auto simp: nth_Cons ac_simps split: nat.split)

lemma read_chunk:
  assumes "unat va + n < 2 ^ 64" and "n \<le> 4096 - page_off va"
    and "walkaddr root (PGROUNDDOWN va) s \<noteq> 0" and "i < n"
  shows "user_byte s root (va + of_nat i) =
    Some (read_bytes (mem s) (walkaddr root (PGROUNDDOWN va) s + (va - PGROUNDDOWN va)) n ! i)"
proof -
  have "unat va + i < 2 ^ 64" "i < 4096 - page_off va" using assms by auto
  note sp = same_page [OF this]
  show ?thesis
    using assms(3,4) by (simp add: user_byte_def sp off_word nth_read_bytes ac_simps)
qed

lemma copyin_acc_ok:
  assumes "unat va + length bs < 2 ^ 64"
    and "\<And>i. i < length bs \<Longrightarrow> user_byte s root (va + of_nat i) = Some (bs ! i)"
  shows "copyin_acc root va (length bs) acc s = Some (Inr (acc @ bs))"
  using assms
proof (induction "length bs" arbitrary: va bs acc rule: less_induct)
  case less
  show ?case
  proof (cases "bs = []")
    case True
    then show ?thesis by (subst copyin_acc.simps) simp
  next
    case False
    define n where "n = page_chunk va (length bs)"
    have n: "n \<le> length bs" "n \<le> 4096 - page_off va" "0 < n"
      using False page_off_less [of va] by (auto simp: n_def page_chunk_nat)
    let ?pa = "walkaddr root (PGROUNDDOWN va) s"
    have pa: "?pa \<noteq> 0" using less.prems(2) [of 0] False by (auto simp: user_byte_def Let_def split: if_splits)
    have rd: "read_bytes (mem s) (?pa + (va - PGROUNDDOWN va)) n = take n bs"
    proof (rule nth_equalityI)
      fix i assume "i < length (read_bytes (mem s) (?pa + (va - PGROUNDDOWN va)) n)"
      then show "read_bytes (mem s) (?pa + (va - PGROUNDDOWN va)) n ! i = take n bs ! i"
        using read_chunk [OF _ n(2) pa, of i] less.prems n(1) by auto
    qed (use n in simp)
    have step: "copyin_acc root va (length bs) acc s =
        copyin_acc root (PGROUNDDOWN va + PGSIZE) (length (drop n bs)) (acc @ take n bs) s"
      using False pa rd by (subst copyin_acc.simps) (simp add: n_def [symmetric])
    show ?thesis
    proof (cases "n = length bs")
      case True
      then show ?thesis unfolding step by (subst copyin_acc.simps) simp
    next
      case False
      then have nn: "n = 4096 - page_off va" by (simp add: n_def page_chunk_nat)
      then have np: "PGROUNDDOWN va + PGSIZE = va + of_nat n" using less.prems(1) n(1) by (simp add: next_page)
      have "unat (va + of_nat n) + length (drop n bs) < 2 ^ 64"
        using less.prems(1) n(1) by (simp add: unat_plus_no_wrap)
      moreover have "user_byte s root (va + of_nat n + of_nat i) = Some (drop n bs ! i)"
        if "i < length (drop n bs)" for i
        using less.prems(2) [of "n + i"] that n(1) by (simp add: ac_simps)
      moreover have "length (drop n bs) < length bs" using n by simp
      ultimately have "copyin_acc root (va + of_nat n) (length (drop n bs)) (acc @ take n bs) s =
          Some (Inr ((acc @ take n bs) @ drop n bs))" by (intro less.hyps)
      then show ?thesis unfolding step np by simp
    qed
  qed
qed

lemma write_bytes_apply:
  "length bs < 2 ^ 64 \<Longrightarrow>
   write_bytes a bs m x = (if unat (x - a) < length bs then bs ! unat (x - a) else m x)"
proof (induction bs arbitrary: a m)
  case (Cons b bs)
  then have n: "length bs < 2 ^ 64" by simp
  have ih: "write_bytes (a + 1) bs M x = (if unat (x - (a + 1)) < length bs then bs ! unat (x - (a + 1)) else M x)" for M
    using Cons.IH n by blast
  show ?case
  proof (cases "x = a")
    case True
    have "write_bytes (a + 1) bs (m(a := b)) x = b"
      unfolding ih using unat_minus_self_plus [OF n, of a] True by simp
    then show ?thesis using True by simp
  next
    case False
    then have "x - a \<noteq> 0" by simp
    then have "unat (x - a - 1) = unat (x - a) - 1" "unat (x - a) \<noteq> 0"
      by (simp_all add: unat_minus_one unat_eq_0)
    then show ?thesis
      using False unat_offset_Suc [OF n, of x a] by (auto simp: ih nth_Cons diff_diff_eq split: nat.split)
  qed
qed simp

definition user_mapped :: "kmem \<Rightarrow> u64 \<Rightarrow> u64 \<Rightarrow> bool" where
  "user_mapped s root va \<longleftrightarrow>
     va < MAXVA \<and> leaf s root va AND PTE_V \<noteq> 0 \<and> leaf s root va AND PTE_U \<noteq> 0"

text \<open>No two pages of the address space share a physical page, and user pages are no tables.\<close>

definition user_private :: "kmem \<Rightarrow> u64 \<Rightarrow> bool" where
  "user_private s root \<longleftrightarrow>
     (\<forall>x. user_mapped s root x \<longrightarrow>
        in_use s (PTE2PA (leaf s root x)) \<and> \<not> is_table s root (PTE2PA (leaf s root x))) \<and>
     (\<forall>x y. user_mapped s root x \<longrightarrow> user_mapped s root y \<longrightarrow>
        PTE2PA (leaf s root x) = PTE2PA (leaf s root y) \<longrightarrow> PGROUNDDOWN x = PGROUNDDOWN y)"

lemma leaf_PGROUNDDOWN [simp]: "leaf s root (PGROUNDDOWN va) = leaf s root va"
  by (rule leaf_cong) simp

lemma PGROUNDDOWN_le: "PGROUNDDOWN va \<le> va"
  by (simp add: word_le_nat_alt unat_PGROUNDDOWN)

lemma MAXVA_round: "PGROUNDDOWN va < MAXVA \<longleftrightarrow> va < MAXVA"
proof
  assume "PGROUNDDOWN va < MAXVA"
  then have "unat va div 4096 * 4096 < 0x4000000000"
    by (simp add: word_less_nat_alt unat_PGROUNDDOWN MAXVA_def)
  then have "unat va < 0x4000000000" by simp
  then show "va < MAXVA" by (simp add: word_less_nat_alt MAXVA_def)
qed (use PGROUNDDOWN_le order.strict_trans1 in blast)

lemma walkaddr_round:
  assumes "kvalid s" and "pt_wf s root"
  shows "walkaddr root (PGROUNDDOWN va) s = (if user_mapped s root va then PTE2PA (leaf s root va) else 0)"
  using walkaddr_leaf [OF assms, of "PGROUNDDOWN va"] by (simp add: user_mapped_def MAXVA_round)

lemma user_byte_mapped:
  assumes "kvalid s" and "pt_wf s root" and "user_private s root"
  shows "user_byte s root va =
    (if user_mapped s root va then Some (mem s (PTE2PA (leaf s root va) + (va - PGROUNDDOWN va))) else None)"
proof -
  have "PTE2PA (leaf s root va) \<noteq> 0" if "user_mapped s root va"
    using assms(3) that kvalid_nonnull [OF assms(1)] by (auto simp: user_private_def in_use_def)
  then show ?thesis by (auto simp: user_byte_def Let_def walkaddr_round [OF assms(1,2)])
qed

text \<open>Writing to a user page changes no table and no free page.\<close>

lemma write_user_page:
  assumes v: "kvalid s" and wf: "pt_wf s root" and q: "in_use s q" "\<not> is_table s root q"
    and m: "\<And>b. \<not> in_page q b \<Longrightarrow> m b = mem s b"
  defines "s' \<equiv> s\<lparr>mem := m\<rparr>"
  shows "kvalid s'" and "pt_wf s' root" and "leaf s' root va = leaf s root va"
    and "in_use s' x = in_use s x" and "is_table s' root x = is_table s root x"
proof -
  have ok: "page_ok s' = page_ok s" by (simp add: s'_def page_ok_def fun_eq_iff)
  show use: "in_use s' x = in_use s x" for x unfolding in_use_def ok by (simp add: s'_def)
  have other: "mem s' b = mem s b" if "page_aligned x" "x \<noteq> q" "in_page x b" for x b
    using that m in_page_unique [OF that(1) in_use_aligned [OF q(1)]] by (auto simp: s'_def)
  show "kvalid s'"
  proof (rule kvalid_mem [OF v])
    fix x a assume x: "page_ok s x" "refcnt s (page_idx x) = 0" "in_page x a"
    then have "x \<noteq> q" using q(1) by (auto simp: in_use_def)
    then show "mem s' a = mem s a" using other x by blast
  qed (simp_all add: s'_def)
  have tf: "mem s' b = mem s b" if "is_table s root x" "in_page x b" for x b
  proof -
    obtain k va where "k \<le> 2" "tbl s root k va = Some x" using \<open>is_table s root x\<close> is_table_def by blast
    then have "page_aligned x" using pt_wfD(1) [OF wf] in_use_aligned by blast
    then show ?thesis using other that q(2) by blast
  qed
  have t: "tbl s' root k va = tbl s root k va" if "k \<le> 2" for k va
    using tables_frame(1) [of s root s', OF tf] that by simp
  show "leaf s' root va = leaf s root va" using tables_frame(2) [of s root s', OF tf] by simp
  show "pt_wf s' root" by (rule pt_wf_frame [OF wf t]) (simp_all add: use)
  show "is_table s' root x = is_table s root x" unfolding is_table_def using t by metis
qed

lemma write_chunk:
  assumes v: "kvalid s" and wf: "pt_wf s root" and pr: "user_private s root"
    and va: "user_mapped s root va" and n: "length bs \<le> 4096 - page_off va" "unat va + length bs < 2 ^ 64"
  defines "s' \<equiv> s\<lparr>mem := write_bytes (PTE2PA (leaf s root va) + (va - PGROUNDDOWN va)) bs (mem s)\<rparr>"
  shows "kvalid s'" and "pt_wf s' root" and "user_private s' root" and "\<And>x. leaf s' root x = leaf s root x"
    and "\<And>x. user_byte s' root x =
      (if unat (x - va) < length bs then Some (bs ! unat (x - va)) else user_byte s root x)"
proof -
  let ?q = "PTE2PA (leaf s root va)"
  have q: "in_use s ?q" "\<not> is_table s root ?q" using pr va by (auto simp: user_private_def)
  have len: "length bs < 2 ^ 64" using n(2) by simp
  have out: "write_bytes (?q + (va - PGROUNDDOWN va)) bs (mem s) b = mem s b" if "\<not> in_page ?q b" for b
  proof -
    have "\<not> unat (b - (?q + (va - PGROUNDDOWN va))) < length bs"
    proof
      assume h: "unat (b - (?q + (va - PGROUNDDOWN va))) < length bs"
      define i where "i = unat (b - (?q + (va - PGROUNDDOWN va)))"
      have "b = ?q + of_nat (page_off va + i)"
        by (simp add: i_def off_word [symmetric] algebra_simps)
      moreover have "page_off va + i < 4096" using h n(1) by (simp add: i_def)
      ultimately show False using in_page_off [of "page_off va + i" ?q] that by simp
    qed
    then show ?thesis by (simp add: write_bytes_apply [OF len])
  qed
  note wu = write_user_page [OF v wf q out, folded s'_def]
  show "kvalid s'" "pt_wf s' root" and lf: "\<And>x. leaf s' root x = leaf s root x" using wu by simp_all
  have um: "user_mapped s' root x = user_mapped s root x" for x by (simp add: user_mapped_def lf)
  have use: "in_use s' x \<longleftrightarrow> in_use s x" for x by (rule wu(4))
  have tab: "is_table s' root x \<longleftrightarrow> is_table s root x" for x by (rule wu(5))
  show pr': "user_private s' root" using pr unfolding user_private_def um lf use tab .
  show "user_byte s' root x = (if unat (x - va) < length bs then Some (bs ! unat (x - va)) else user_byte s root x)" for x
  proof -
    have inside: "PGROUNDDOWN x = PGROUNDDOWN va" if "unat (x - va) < length bs"
    proof -
      have "unat va + unat (x - va) < 2 ^ 64" "unat (x - va) < 4096 - page_off va" using that n by auto
      from same_page(1) [OF this] show ?thesis by simp
    qed
    show ?thesis
    proof (cases "PGROUNDDOWN x = PGROUNDDOWN va")
      case True
      have "leaf s root x = leaf s root va" using leaf_PGROUNDDOWN True by metis
      moreover have "user_mapped s root x" using va True calculation MAXVA_round by (metis user_mapped_def)
      moreover have "?q + (x - PGROUNDDOWN va) - (?q + (va - PGROUNDDOWN va)) = x - va" by simp
      ultimately show ?thesis
        using True
        by (simp add: user_byte_mapped [OF wu(1,2) pr'] user_byte_mapped [OF v wf pr] um lf)
          (simp add: s'_def write_bytes_apply [OF len])
    next
      case False
      then have "\<not> unat (x - va) < length bs" using inside by blast
      moreover have "mem s' (PTE2PA (leaf s root x) + (x - PGROUNDDOWN x)) = mem s (PTE2PA (leaf s root x) + (x - PGROUNDDOWN x))"
        if x: "user_mapped s root x"
      proof -
        have ne: "PTE2PA (leaf s root x) \<noteq> ?q" and xu: "in_use s (PTE2PA (leaf s root x))"
          using pr x va False unfolding user_private_def by blast+
        have "in_page (PTE2PA (leaf s root x)) (PTE2PA (leaf s root x) + (x - PGROUNDDOWN x))"
          unfolding off_word by (rule in_page_off [OF page_off_less])
        then have "\<not> in_page ?q (PTE2PA (leaf s root x) + (x - PGROUNDDOWN x))"
          by (rule other_page [OF q(1) xu ne [symmetric]])
        then show ?thesis using out by (simp add: s'_def)
      qed
      ultimately show ?thesis
        by (simp add: user_byte_mapped [OF wu(1,2) pr'] user_byte_mapped [OF v wf pr] um lf)
    qed
  qed
qed

lemma offset_split:
  fixes x va :: u64
  assumes "n \<le> len" "len < 2 ^ 64"
  shows "unat (x - va) < len \<longleftrightarrow> unat (x - va) < n \<or> unat (x - (va + of_nat n)) < len - n"
    and "\<not> unat (x - va) < n \<Longrightarrow> unat (x - (va + of_nat n)) = unat (x - va) - n"
    and "unat (x - va) < n \<Longrightarrow> \<not> unat (x - (va + of_nat n)) < len - n"
proof -
  have n: "unat (of_nat n :: u64) = n" using assms by simp
  have e: "x - (va + of_nat n) = (x - va) - of_nat n" by (simp add: algebra_simps)
  show ge: "unat (x - (va + of_nat n)) = unat (x - va) - n" if "\<not> unat (x - va) < n"
    unfolding e using that n by (subst unat_sub) (simp_all add: word_le_nat_alt)
  show lt: "\<not> unat (x - (va + of_nat n)) < len - n" if "unat (x - va) < n"
  proof -
    have "unat (x - va - of_nat n) = 2 ^ 64 - (n - unat (x - va))"
      using that n by (simp add: unat_sub_if_size word_size)
    then show ?thesis unfolding e using that assms by simp
  qed
  show "unat (x - va) < len \<longleftrightarrow> unat (x - va) < n \<or> unat (x - (va + of_nat n)) < len - n"
    using ge lt assms(1) by (cases "unat (x - va) < n") auto
qed

lemma copyout_ok:
  assumes "kvalid s" and "pt_wf s root" and "user_private s root" and "unat va + length bs < 2 ^ 64"
    and "\<And>i. i < length bs \<Longrightarrow> user_mapped s root (va + of_nat i) \<and>
      leaf s root (va + of_nat i) AND PTE_F = 0"
  shows "\<exists>s'. copyout root va bs s = Some (0, s') \<and> kvalid s' \<and> pt_wf s' root \<and>
    user_private s' root \<and> (\<forall>x. leaf s' root x = leaf s root x) \<and>
    (\<forall>x. user_byte s' root x =
      (if unat (x - va) < length bs then Some (bs ! unat (x - va)) else user_byte s root x))"
  using assms
proof (induction "length bs" arbitrary: va bs s rule: less_induct)
  case less
  note v = less.prems(1) and wf = less.prems(2) and pr = less.prems(3)
  show ?case
  proof (cases "bs = []")
    case True
    then show ?thesis using less.prems(1-3) by (subst copyout.simps) simp
  next
    case False
    define n where "n = page_chunk va (length bs)"
    have n: "n \<le> length bs" "n \<le> 4096 - page_off va" "0 < n"
      using False page_off_less [of va] by (auto simp: n_def page_chunk_nat)
    have um: "user_mapped s root va" "leaf s root va AND PTE_F = 0" using less.prems(5) [of 0] False by auto
    let ?q = "PTE2PA (leaf s root va)"
    let ?s = "s\<lparr>mem := write_bytes (?q + (va - PGROUNDDOWN va)) (take n bs) (mem s)\<rparr>"
    have nz: "?q \<noteq> 0" using pr um kvalid_nonnull [OF v] by (auto simp: user_private_def in_use_def)
    have nocow: "cowpage root (PGROUNDDOWN va) s \<noteq> 0" using um by (simp add: cowpage_leaf [OF v wf])
    have step: "copyout root va bs s = copyout root (PGROUNDDOWN va + PGSIZE) (drop n bs) ?s"
      using False nz nocow um by (subst copyout.simps) (simp add: Let_def walkaddr_round [OF v wf] n_def [symmetric])
    have len: "length (take n bs) \<le> 4096 - page_off va" "unat va + length (take n bs) < 2 ^ 64"
      using n less.prems(4) by auto
    note wc = write_chunk [OF v wf pr um(1) len]
    have ln: "length (take n bs) = n" using n by simp
    show ?thesis
    proof (cases "n = length bs")
      case True
      then show ?thesis using wc unfolding step by (subst copyout.simps) simp
    next
      case False
      then have nn: "n = 4096 - page_off va" by (simp add: n_def page_chunk_nat)
      then have np: "PGROUNDDOWN va + PGSIZE = va + of_nat n" using less.prems(4) n(1) by (simp add: next_page)
      have "unat (va + of_nat n) + length (drop n bs) < 2 ^ 64"
        using less.prems(4) n(1) by (simp add: unat_plus_no_wrap)
      moreover have "user_mapped ?s root (va + of_nat n + of_nat i) \<and>
          leaf ?s root (va + of_nat n + of_nat i) AND PTE_F = 0" if "i < length (drop n bs)" for i
        using less.prems(5) [of "n + i"] that n(1) by (simp add: user_mapped_def wc(4) add.assoc)
      moreover have "length (drop n bs) < length bs" using n by simp
      ultimately obtain s' where s': "copyout root (va + of_nat n) (drop n bs) ?s = Some (0, s')"
        "kvalid s'" "pt_wf s' root" "user_private s' root" "\<forall>x. leaf s' root x = leaf ?s root x"
        "\<forall>x. user_byte s' root x = (if unat (x - (va + of_nat n)) < length (drop n bs)
           then Some (drop n bs ! unat (x - (va + of_nat n))) else user_byte ?s root x)"
        using less.hyps [of "drop n bs" ?s "va + of_nat n"] wc(1-3) by blast
      have "user_byte s' root x =
          (if unat (x - va) < length bs then Some (bs ! unat (x - va)) else user_byte s root x)" for x
      proof -
        have "length bs < 2 ^ 64" using less.prems(4) by simp
        note os = offset_split [OF n(1) this, of x va]
        show ?thesis
          using s'(6) os n(1) wc(5) [of x] by (cases "unat (x - va) < n") (auto simp: ln)
      qed
      then show ?thesis using s' wc(4) unfolding step np by (intro exI [of _ s']) simp
    qed
  qed
qed

text \<open>
  A concrete address space: one page of data at address 0, with its three tables, in a
  memory of four pages that are all in use.
\<close>

definition demo_root :: u64 where "demo_root = 0x87FFC000"
definition demo_l1 :: u64 where "demo_l1 = 0x87FFD000"
definition demo_l0 :: u64 where "demo_l0 = 0x87FFE000"
definition demo_data :: u64 where "demo_data = 0x87FFF000"

definition demo_empty :: kmem where
  "demo_empty = \<lparr>mem = (\<lambda>_. 0), freelist = (\<lambda>_. 0), refcnt = (\<lambda>_. 1),
     kernel_end = demo_root, hartid = 0\<rparr>"

definition demo_pte :: u64 where
  "demo_pte = PA2PTE demo_data OR (PTE_W OR PTE_R OR PTE_U) OR PTE_V"

definition demo :: kmem where
  "demo = set_pte (pte_addr demo_root 2 0) (PA2PTE demo_l1 OR PTE_V)
     (set_pte (pte_addr demo_l1 1 0) (PA2PTE demo_l0 OR PTE_V)
       (set_pte (pte_addr demo_l0 0 0) demo_pte demo_empty))"

lemmas demo_pages = demo_root_def demo_l1_def demo_l0_def demo_data_def

lemma demo_page_ok: "page_ok demo p \<longleftrightarrow> p \<in> {demo_root, demo_l1, demo_l0, demo_data}"
proof
  assume ok: "page_ok demo p"
  then obtain j where j: "unat p = 4096 * j" by (auto simp: page_ok_def)
  have "0x87FFC000 \<le> unat p" "unat p < 0x88000000"
    using ok by (simp_all add: page_ok_def demo_def demo_empty_def demo_pages PHYSTOP_def KERNBASE_def
        word_less_nat_alt word_le_nat_alt)
  then have "j = 0x87FFC \<or> j = 0x87FFD \<or> j = 0x87FFE \<or> j = 0x87FFF" using j by auto
  then show "p \<in> {demo_root, demo_l1, demo_l0, demo_data}"
    using j by (auto simp: demo_pages word_unat_eq_iff)
qed (auto simp: page_ok_def demo_def demo_empty_def demo_pages PHYSTOP_def KERNBASE_def)

lemma demo_in_use: "in_use demo p \<longleftrightarrow> p \<in> {demo_root, demo_l1, demo_l0, demo_data}"
proof -
  have "refcnt demo i = 1" for i by (simp add: demo_def demo_empty_def)
  then show ?thesis by (simp add: in_use_def demo_page_ok)
qed

lemma demo_kvalid: "kvalid demo"
proof -
  have "refcnt demo i = 1" for i by (simp add: demo_def demo_empty_def)
  then have "kmem_inv demo (\<lambda>_. [])"
    by (auto simp: kmem_inv_def is_int32_def NCPU_def) (simp_all add: demo_def demo_empty_def demo_root_def)
  then show ?thesis using kvalid_def by blast
qed

lemma PX_0 [simp]: "PX l 0 = 0"
  by (simp add: PX_def)

lemma pte_at_set_demo:
  assumes "p \<in> {demo_root, demo_l1, demo_l0}" and "q \<in> {demo_root, demo_l1, demo_l0}"
  shows "pte_at (set_pte (pte_addr p l 0) w s) (pte_addr q l' va) =
    (if p = q \<and> PX l' va = 0 then w else pte_at s (pte_addr q l' va))"
proof (cases "p = q")
  case True
  then show ?thesis using pte_at_set_index [of l 0 l' va p w s] by (auto simp: pte_addr_def)
next
  case False
  have "page_aligned p" "page_aligned q" using assms by (auto simp: page_aligned_def demo_pages)
  then have "mem (set_pte (pte_addr p l 0) w s) a = mem s a" if "in_page q a" for a
    using that False in_page_unique by (intro set_pte_outside) blast
  from pte_at_frame [OF this] show ?thesis using False by simp
qed

lemma demo_ne: "demo_root \<noteq> demo_l1" "demo_root \<noteq> demo_l0" "demo_l1 \<noteq> demo_l0"
    "demo_data \<noteq> demo_root" "demo_data \<noteq> demo_l1" "demo_data \<noteq> demo_l0"
  by (simp_all add: demo_pages)

lemma demo_entries:
  "pte_at demo (pte_addr demo_root l va) = (if PX l va = 0 then PA2PTE demo_l1 OR PTE_V else 0)"
  "pte_at demo (pte_addr demo_l1 l va) = (if PX l va = 0 then PA2PTE demo_l0 OR PTE_V else 0)"
  "pte_at demo (pte_addr demo_l0 l va) = (if PX l va = 0 then demo_pte else 0)"
proof -
  have "pte_at demo_empty a = 0" for a by (simp add: pte_at_def demo_empty_def load64_zero)
  then show "pte_at demo (pte_addr demo_root l va) = (if PX l va = 0 then PA2PTE demo_l1 OR PTE_V else 0)"
    and "pte_at demo (pte_addr demo_l1 l va) = (if PX l va = 0 then PA2PTE demo_l0 OR PTE_V else 0)"
    and "pte_at demo (pte_addr demo_l0 l va) = (if PX l va = 0 then demo_pte else 0)"
    using demo_ne by (simp_all add: demo_def pte_at_set_demo)
qed

lemma demo_new_pte:
  assumes "q \<in> {demo_root, demo_l1, demo_l0, demo_data}"
  shows "PTE2PA (PA2PTE q OR PTE_V) = q" "(PA2PTE q OR PTE_V) AND PTE_V \<noteq> 0"
proof -
  have "page_aligned q" "q < 0x100000000000000" using assms by (auto simp: page_aligned_def demo_pages)
  then show "PTE2PA (PA2PTE q OR PTE_V) = q" "(PA2PTE q OR PTE_V) AND PTE_V \<noteq> 0"
    by (rule PTE2PA_new)+
qed

lemma demo_tbl:
  "tbl demo demo_root 0 va = Some demo_root"
  "tbl demo demo_root (Suc 0) va = (if PX 2 va = 0 then Some demo_l1 else None)"
  "tbl demo demo_root (Suc (Suc 0)) va = (if PX 2 va = 0 \<and> PX 1 va = 0 then Some demo_l0 else None)"
proof -
  have "PTE_V \<noteq> 0" by (simp add: PTE_V_def)
  then show "tbl demo demo_root 0 va = Some demo_root"
    and "tbl demo demo_root (Suc 0) va = (if PX 2 va = 0 then Some demo_l1 else None)"
    and "tbl demo demo_root (Suc (Suc 0)) va = (if PX 2 va = 0 \<and> PX 1 va = 0 then Some demo_l0 else None)"
    by (simp_all add: demo_entries demo_new_pte)
qed

lemma demo_leaf: "leaf demo demo_root va = (if same_path 3 0 va then demo_pte else 0)"
proof -
  have "same_path 3 0 va \<longleftrightarrow> PX 2 va = 0 \<and> PX 1 va = 0 \<and> PX 0 va = 0"
    by (auto simp: same_path_def less_Suc_eq numeral_3_eq_3)
  then show ?thesis using demo_tbl(3) [of va] by (simp add: leaf_def numeral_2_eq_2 [symmetric] demo_entries)
qed

lemma demo_pt_wf: "pt_wf demo demo_root"
proof -
  have cases: "k = 0 \<and> p = demo_root \<or> k = 1 \<and> p = demo_l1 \<and> PX 2 va = 0 \<or>
      k = 2 \<and> p = demo_l0 \<and> PX 2 va = 0 \<and> PX 1 va = 0"
    if "k \<le> 2" "tbl demo demo_root k va = Some p" for k va p
  proof -
    have "k = 0 \<or> k = Suc 0 \<or> k = Suc (Suc 0)" using that(1) by arith
    then consider "k = 0" | "k = Suc 0" | "k = Suc (Suc 0)" by blast
    then show ?thesis using that(2) by cases (auto simp: demo_tbl simp del: tbl.simps split: if_splits)
  qed
  show ?thesis
    unfolding pt_wf_def
  proof (intro conjI allI impI)
    fix k va p assume "k \<le> 2" "tbl demo demo_root k va = Some p"
    from cases [OF this] show "in_use demo p" by (auto simp: demo_in_use)
  next
    fix k k' va va' p
    assume a: "k \<le> 2" "k' \<le> 2" "tbl demo demo_root k va = Some p" "tbl demo demo_root k' va' = Some p"
    note c = cases [OF a(1,3)] cases [OF a(2,4)]
    show "k = k'" using c demo_ne by auto
    show "same_path k va va'" using c demo_ne by (auto simp: same_path_def less_Suc_eq numeral_2_eq_2)
  qed
qed

lemma demo_pte_facts:
  "PTE2PA demo_pte = demo_data" "demo_pte AND PTE_V \<noteq> 0" "demo_pte AND PTE_U \<noteq> 0" "demo_pte AND PTE_F = 0"
  by (simp_all add: demo_pte_def PTE2PA_def PA2PTE_def demo_data_def PTE_V_def PTE_R_def PTE_W_def
      PTE_U_def PTE_F_def push_bit_eq_mult drop_bit_eq_div)

lemma demo_user_mapped: "user_mapped demo demo_root x \<longleftrightarrow> PGROUNDDOWN x = 0"
proof -
  have "PGROUNDDOWN 0 = 0" "(0 :: u64) < MAXVA" by (simp_all add: PGROUNDDOWN_def MAXVA_def)
  moreover have "x < MAXVA" if "PGROUNDDOWN x = 0"
    using that MAXVA_round [of x] by (simp add: MAXVA_def)
  ultimately show ?thesis
    using same_path_page [of 0 x] by (auto simp: user_mapped_def demo_leaf demo_pte_facts)
qed

lemma demo_leaf_page: "PGROUNDDOWN x = 0 \<Longrightarrow> leaf demo demo_root x = demo_pte"
  using demo_user_mapped [of x] by (auto simp: user_mapped_def demo_leaf split: if_splits)

lemma demo_private: "user_private demo demo_root"
proof -
  have "\<not> is_table demo demo_root demo_data"
  proof
    assume "is_table demo demo_root demo_data"
    then obtain k va where k: "k \<le> 2" "tbl demo demo_root k va = Some demo_data"
      using is_table_def by blast
    have "k = 0 \<or> k = Suc 0 \<or> k = Suc (Suc 0)" using k(1) by arith
    then show False using k(2) demo_ne by (auto simp: demo_tbl simp del: tbl.simps split: if_splits)
  qed
  then show ?thesis
    by (simp add: user_private_def demo_user_mapped demo_leaf_page demo_pte_facts demo_in_use)
qed

section \<open>Virtual memory is correct\<close>

text \<open>
  C5. Mapping one page and looking it up again: when \<^verbatim>\<open>mappages\<close> succeeds on a
  page-aligned user address with the user permission, \<^verbatim>\<open>walkaddr\<close> returns the mapped
  physical page there, every other address translates as before, and the page-table and
  allocator invariants are kept. When it fails for lack of memory no translation changes; it
  panics only on a page that is already mapped.
\<close>

theorem mappages_walkaddr:
  assumes "kvalid s" and "pt_wf s root" and "page_aligned va" and "va < MAXVA"
    and "page_aligned pa" and "pa < 0x100000000000000" and "perm < 0x400" and "perm AND PTE_U \<noteq> 0"
  shows "case mappages root va PGSIZE pa perm s of
      None \<Rightarrow> leaf s root va AND PTE_V \<noteq> 0
    | Some (r, s') \<Rightarrow> kvalid s' \<and> pt_wf s' root \<and>
        (if r = 0
         then \<forall>x. walkaddr root x s' =
           (if x < MAXVA \<and> PGROUNDDOWN x = va then pa else walkaddr root x s)
         else \<forall>x. walkaddr root x s' = walkaddr root x s)"
  using assms(1-4)
proof (cases rule: mappages_one [where pa = pa and perm = perm])
  case remap
  then show ?thesis by simp
next
  case (nomem s')
  then have "kvalid s'" "pt_wf s' root" by (simp_all add: extends_def evolves_def)
  then show ?thesis
    using nomem assms(1,2) by (simp add: walkaddr_leaf extends_def)
next
  case (mapped s')
  let ?w = "PA2PTE pa OR perm OR PTE_V"
  have v': "kvalid s'" "pt_wf s' root" using mapped(2) by (simp_all add: evolves_def)
  have "perm OR PTE_V < 0x400"
  proof -
    have "bit (perm OR PTE_V) n \<Longrightarrow> n < 10" for n
      using bit_word_small [of perm 10 n] assms(7) by (auto simp: bit_simps PTE_V_def word_less_nat_alt)
    then have "take_bit 10 (perm OR PTE_V) = perm OR PTE_V"
      by (intro bit_word_eqI) (auto simp: bit_simps)
    then have "unat (perm OR PTE_V) = take_bit 10 (unat (perm OR PTE_V))"
      by (metis unsigned_take_bit_eq)
    also have "\<dots> < 2 ^ 10" by (rule take_bit_nat_less_exp)
    finally show ?thesis by (simp add: word_less_nat_alt)
  qed
  then have pa: "PTE2PA ?w = pa"
    using PTE2PA_PA2PTE [OF assms(6), of "perm OR PTE_V"] PGROUNDDOWN_aligned [OF assms(5)]
    by (simp add: or.assoc)
  have "bit (?w AND PTE_V) 0" by (simp add: PTE_V_def bit_simps)
  then have V: "?w AND PTE_V \<noteq> 0" by auto
  have "?w AND PTE_U = (PA2PTE pa OR PTE_V) AND PTE_U OR (perm AND PTE_U)"
    by (rule bit_word_eqI) (auto simp: bit_simps)
  then have U: "?w AND PTE_U \<noteq> 0" using assms(8) by (auto simp: bit_eq_iff bit_simps)
  have "walkaddr root x s' = (if x < MAXVA \<and> PGROUNDDOWN x = va then pa else walkaddr root x s)" for x
    using same_path_page [OF assms(4), of x] PGROUNDDOWN_aligned [OF assms(3)] pa V U
    by (auto simp: walkaddr_leaf [OF v'] walkaddr_leaf [OF assms(1,2)] mapped(4))
  then show ?thesis using mapped(1) v' by simp
qed

theorem mappages_walkaddr_witness:
  "\<exists>s'. mappages demo_root 0x1000 PGSIZE 0x80000000 (PTE_U OR PTE_R) demo = Some (0, s') \<and>
    walkaddr demo_root 0x1000 s' = 0x80000000"
proof -
  have px: "PX (Suc (Suc 0)) 0x1000 = 0" "PX (Suc 0) 0x1000 = 0" "PX 0 0x1000 = 1"
    by (simp_all add: PX_def drop_bit_eq_div)
  have nz: "PTE_V \<noteq> 0" by (simp add: PTE_V_def)
  have "walk_level (Suc (Suc 0)) demo_root 0x1000 True demo = (pte_addr demo_l0 0 0x1000, demo)"
    using nz px by (simp add: Let_def demo_entries demo_new_pte)
  then have "walk_level 2 demo_root 0x1000 True demo = (pte_addr demo_l0 0 0x1000, demo)"
    by (simp only: numeral_2_eq_2)
  then have w: "walk demo_root 0x1000 True demo = Some (pte_addr demo_l0 0 0x1000, demo)"
    by (simp add: walk_def MAXVA_def)
  have al: "page_aligned 0x1000" "page_aligned 0x80000000" by (simp_all add: page_aligned_def)
  have pn: "pte_addr demo_l0 0 0x1000 \<noteq> 0" using px by (simp add: pte_addr_def demo_l0_def)
  obtain s' where s': "mappages demo_root 0x1000 PGSIZE 0x80000000 (PTE_U OR PTE_R) demo = Some (0, s')"
    unfolding mappages_def PGROUNDDOWN_aligned [OF al(1)] PGROUNDDOWN_page_end [OF al(1)]
    using w px pn by (subst (asm) mappages_from.simps) (simp add: demo_entries)
  have "(0x1000 :: u64) < MAXVA" "(0x80000000 :: u64) < 0x100000000000000"
    "PTE_U OR PTE_R < 0x400" "(PTE_U OR PTE_R) AND PTE_U \<noteq> 0"
    by (simp_all add: MAXVA_def PTE_U_def PTE_R_def)
  from mappages_walkaddr [OF demo_kvalid demo_pt_wf al(1) this(1) al(2) this(2-4)] s'
  show ?thesis using PGROUNDDOWN_aligned [OF al(1)] by (auto simp: MAXVA_def)
qed

text \<open>
  C4. What \<^verbatim>\<open>copyout\<close> writes, \<^verbatim>\<open>copyin\<close> reads back: on a mapped,
  private and not copy-on-write user region of any length, across page boundaries,
  \<^verbatim>\<open>copyout\<close> succeeds, changes exactly the bytes of the region as seen by the user
  and no translation, and a following \<^verbatim>\<open>copyin\<close> of the region returns the bytes
  written.
\<close>

theorem copyout_copyin:
  assumes "kvalid s" and "pt_wf s root" and "user_private s root" and "unat va + length bs < 2 ^ 64"
    and "\<And>i. i < length bs \<Longrightarrow> user_mapped s root (va + of_nat i) \<and>
      leaf s root (va + of_nat i) AND PTE_F = 0"
  shows "\<exists>s'. copyout root va bs s = Some (0, s') \<and> copyin root va (length bs) s' = Some (Inr bs) \<and>
    (\<forall>x. leaf s' root x = leaf s root x) \<and>
    (\<forall>x. length bs \<le> unat (x - va) \<longrightarrow> user_byte s' root x = user_byte s root x)"
proof -
  obtain s' where s': "copyout root va bs s = Some (0, s')" "\<forall>x. leaf s' root x = leaf s root x"
    "\<forall>x. user_byte s' root x =
      (if unat (x - va) < length bs then Some (bs ! unat (x - va)) else user_byte s root x)"
    using copyout_ok [OF assms] by blast
  have "user_byte s' root (va + of_nat i) = Some (bs ! i)" if "i < length bs" for i
    using s'(3) that assms(4) by simp
  then have "copyin root va (length bs) s' = Some (Inr bs)"
    unfolding copyin_def using copyin_acc_ok [OF assms(4), of s' root "[]"] by simp
  then show ?thesis using s' by auto
qed

theorem copyout_copyin_witness:
  "\<exists>s'. copyout demo_root 8 [1, 2, 3] demo = Some (0, s') \<and>
    copyin demo_root 8 3 s' = Some (Inr [1, 2, 3])"
proof -
  have "user_mapped demo demo_root (8 + of_nat i) \<and> leaf demo demo_root (8 + of_nat i) AND PTE_F = 0"
    if "i < length [1, 2, 3 :: u8]" for i
  proof -
    have "unat (8 + of_nat i :: u64) = 8 + i" using that by (simp add: unat_word_ariths)
    then have "PGROUNDDOWN (8 + of_nat i) = 0" using that by (simp add: word_unat_eq_iff unat_PGROUNDDOWN)
    then show ?thesis by (simp add: demo_user_mapped demo_leaf_page demo_pte_facts)
  qed
  then show ?thesis
    using copyout_copyin [OF demo_kvalid demo_pt_wf demo_private, of 8 "[1, 2, 3]"]
    by (auto simp: numeral_3_eq_3)
qed

end
