(* ===== verification/Either_Copy.thy ===== *)
theory Either_Copy
  imports VM
begin

text \<open>
  \<^verbatim>\<open>either_copyout\<close> and \<^verbatim>\<open>either_copyin\<close> of \<^verbatim>\<open>kernel/proc/proc.c\<close>: copies
  between a kernel buffer, a byte list here, and an address that is a user address of the
  calling process or a kernel address. \<open>Inl e\<close> of \<open>either_copyin\<close> is an error return.
\<close>

definition either_copyout :: "u64 \<Rightarrow> bool \<Rightarrow> u64 \<Rightarrow> u8 list \<Rightarrow> kmem \<Rightarrow> (int \<times> kmem) option" where
  "either_copyout pagetable user_dst dst src s =
     (if user_dst then copyout pagetable dst src s
      else Some (0, s\<lparr>mem := write_bytes dst src (mem s)\<rparr>))"

definition either_copyin :: "u64 \<Rightarrow> bool \<Rightarrow> u64 \<Rightarrow> nat \<Rightarrow> kmem \<Rightarrow> (int + u8 list) option" where
  "either_copyin pagetable user_src src len s =
     (if user_src then copyin pagetable src len s else Some (Inr (read_bytes (mem s) src len)))"

section \<open>User buffers\<close>

lemma copyin_byte: "user_byte s root va = Some c \<Longrightarrow> unat va + 1 < 2 ^ 64 \<Longrightarrow> copyin root va 1 s = Some (Inr [c])"
  unfolding copyin_def using copyin_acc_ok [of va "[c]" s root "[]"] by simp

text \<open>The bytes of a user buffer.\<close>

definition user_bytes :: "kmem \<Rightarrow> u64 \<Rightarrow> u64 \<Rightarrow> u8 list \<Rightarrow> bool" where
  "user_bytes s root addr bs \<longleftrightarrow> unat addr + length bs < 2 ^ 64 \<and>
     (\<forall>i < length bs. user_byte s root (addr + of_nat i) = Some (bs ! i))"

text \<open>A user buffer the kernel can write to.\<close>

definition user_room :: "kmem \<Rightarrow> u64 \<Rightarrow> u64 \<Rightarrow> nat \<Rightarrow> bool" where
  "user_room s root addr n \<longleftrightarrow> kvalid s \<and> pt_wf s root \<and> user_private s root \<and> unat addr + n < 2 ^ 64 \<and>
     (\<forall>k < n. user_mapped s root (addr + of_nat k) \<and> leaf s root (addr + of_nat k) AND PTE_F = 0)"

lemma copyout_byte:
  assumes "user_room s root addr n" and "i < n"
  shows "\<exists>s'. copyout root (addr + of_nat i) [c] s = Some (0, s') \<and> user_room s' root addr n \<and>
    (\<forall>x. user_byte s' root x = (if unat (x - addr) = i then Some c else user_byte s root x))"
proof -
  note R = assms(1) [unfolded user_room_def]
  have "unat (addr + of_nat i) + length [c] < 2 ^ 64"
    using R assms(2) by (simp add: unat_plus_no_wrap)
  then obtain s' where s': "copyout root (addr + of_nat i) [c] s = Some (0, s')" "kvalid s'" "pt_wf s' root"
    "user_private s' root" "\<forall>x. leaf s' root x = leaf s root x"
    "\<forall>x. user_byte s' root x = (if unat (x - (addr + of_nat i)) < length [c]
       then Some ([c] ! unat (x - (addr + of_nat i))) else user_byte s root x)"
    using copyout_ok [of s root "addr + of_nat i" "[c]"] R assms(2) by auto
  have "unat (x - (addr + of_nat i)) < length [c] \<longleftrightarrow> unat (x - addr) = i" for x
  proof -
    have i: "unat (of_nat i :: u64) = i" using R assms(2) by (intro of_nat_inverse [OF refl]) simp
    have "unat (x - (addr + of_nat i)) < length [c] \<longleftrightarrow> x - addr = of_nat i"
      by (auto simp: unat_eq_0 diff_eq_eq algebra_simps)
    then show ?thesis using i by (auto simp: word_unat_eq_iff)
  qed
  moreover have "user_room s' root addr n" using R s' by (simp add: user_room_def user_mapped_def)
  ultimately show ?thesis using s'(1,6) by auto
qed

section \<open>Buffers in the example address space\<close>

lemma demo_low: "x < 4096 \<Longrightarrow> PGROUNDDOWN (of_nat x) = (0 :: u64)"
  by (simp add: word_unat_eq_iff unat_PGROUNDDOWN unat_of_nat take_bit_nat_eq_self)

lemma demo_room: "n < 4096 \<Longrightarrow> user_room demo demo_root 0 n"
  using demo_kvalid demo_pt_wf demo_private demo_low
  by (simp add: user_room_def demo_user_mapped demo_leaf_page demo_pte_facts)

definition demo_bytes :: "nat \<Rightarrow> u8 list" where
  "demo_bytes n = map (\<lambda>i. the (user_byte demo demo_root (of_nat i))) [0..<n]"

lemma demo_user_bytes: "n < 4096 \<Longrightarrow> user_bytes demo demo_root 0 (demo_bytes n)"
  using demo_low by (simp add: user_bytes_def demo_bytes_def user_byte_mapped [OF demo_kvalid demo_pt_wf demo_private] demo_user_mapped)

end
