(* ===== verification/Byte_Queue.thy ===== *)
theory Byte_Queue
  imports Prelude
begin

text \<open>
  The contract of the bounded byte queues of the kernel, which are ring buffers: the pipe, the
  transmit buffer of the UART and the input buffer of the console. \<open>cont\<close> is the queue a
  state stands for, oldest byte first. What follows from the contract is proved once: transfers
  of many bytes, and that over any run of single-byte operations no byte is lost, duplicated
  or reordered.
\<close>

datatype queue_op = Put u8 | Get

primrec puts :: "queue_op list \<Rightarrow> u8 list" where
  "puts [] = []"
| "puts (x # xs) = (case x of Put c \<Rightarrow> [c] | Get \<Rightarrow> []) @ puts xs"

locale byte_queue =
  fixes cont :: "'s \<Rightarrow> u8 list"
    and push :: "u8 \<Rightarrow> 's \<Rightarrow> 's"
    and front :: "'s \<Rightarrow> u8"
    and pop :: "'s \<Rightarrow> 's"
    and ok :: "'s \<Rightarrow> bool"
    and cap :: nat
  assumes push_law: "ok s \<Longrightarrow> length (cont s) < cap \<Longrightarrow> ok (push c s) \<and> cont (push c s) = cont s @ [c]"
    and pop_law: "ok s \<Longrightarrow> cont s \<noteq> [] \<Longrightarrow> ok (pop s) \<and> cont s = front s # cont (pop s)"
    and bound: "ok s \<Longrightarrow> length (cont s) \<le> cap"
begin

lemma push_many:
  "ok s \<Longrightarrow> length (cont s) + length bs \<le> cap \<Longrightarrow>
   ok (fold push bs s) \<and> cont (fold push bs s) = cont s @ bs"
proof (induction bs arbitrary: s)
  case (Cons b bs)
  then have "ok (push b s) \<and> cont (push b s) = cont s @ [b]" by (intro push_law) simp_all
  then show ?case using Cons.IH [of "push b s"] Cons.prems(2) by simp
qed simp

lemma pop_many:
  "ok s \<Longrightarrow> n \<le> length (cont s) \<Longrightarrow> ok ((pop ^^ n) s) \<and> cont ((pop ^^ n) s) = drop n (cont s)"
proof (induction n)
  case (Suc n)
  then have ih: "ok ((pop ^^ n) s)" "cont ((pop ^^ n) s) = drop n (cont s)" by simp_all
  then have "cont ((pop ^^ n) s) \<noteq> []" using Suc.prems(2) by simp
  from pop_law [OF ih(1) this] show ?case using ih(2)
    by (metis drop_Suc funpow.simps(2) list.sel(3) o_apply tl_drop)
qed simp

text \<open>A run of operations that respect the bounds of the queue; the bytes taken out, in order.\<close>

fun run :: "queue_op list \<Rightarrow> 's \<Rightarrow> (u8 list \<times> 's) option" where
  "run [] s = Some ([], s)"
| "run (Put c # xs) s = (if length (cont s) < cap then run xs (push c s) else None)"
| "run (Get # xs) s =
     (if cont s = [] then None
      else (case run xs (pop s) of None \<Rightarrow> None | Some (out, t) \<Rightarrow> Some (front s # out, t)))"

lemma stream:
  "ok s \<Longrightarrow> run xs s = Some (out, t) \<Longrightarrow> ok t \<and> out @ cont t = cont s @ puts xs"
proof (induction xs s arbitrary: out rule: run.induct)
  case (2 c xs s)
  then have r: "length (cont s) < cap" "run xs (push c s) = Some (out, t)" by (auto split: if_splits)
  then show ?case using 2(1) [OF r(1) _ r(2)] push_law [OF 2(2) r(1), of c] by simp
next
  case (3 xs s)
  then obtain out' where r: "cont s \<noteq> []" "run xs (pop s) = Some (out', t)" "out = front s # out'"
    by (auto split: if_splits option.splits)
  then show ?case using 3(1) [OF r(1) _ r(2)] pop_law [OF 3(2) r(1)] by simp
qed simp

end

section \<open>Ring segments\<close>

text \<open>
  The \<open>n\<close> bytes of a ring buffer of size \<open>m\<close> from the 32-bit counter \<open>a\<close> on. The
  index survives the wrap of the counter if \<open>m\<close> divides \<open>2^32\<close>.
\<close>

definition ring :: "nat \<Rightarrow> (nat \<Rightarrow> u8) \<Rightarrow> u32 \<Rightarrow> nat \<Rightarrow> u8 list" where
  "ring m buf a n = map (\<lambda>k. buf ((unat a + k) mod m)) [0..<n]"

lemma length_ring [simp]: "length (ring m buf a n) = n"
  by (simp add: ring_def)

lemma ring_0 [simp]: "ring m buf a 0 = []"
  by (simp add: ring_def)

lemma unat_add_mod:
  assumes "m dvd 2 ^ 32"
  shows "unat (a + of_nat k :: u32) mod m = (unat a + k) mod m"
proof -
  have "unat (a + of_nat k :: u32) mod m = ((unat a + k mod 2 ^ 32) mod 2 ^ 32) mod m"
    by (simp add: unat_word_ariths unat_of_nat take_bit_eq_mod)
  also have "\<dots> = (unat a + k mod 2 ^ 32) mod m" by (rule mod_mod_cancel [OF assms])
  also have "\<dots> = (unat a + k) mod m" by (metis assms mod_add_right_eq mod_mod_cancel)
  finally show ?thesis .
qed

lemma mod_add_inj: "a < m \<Longrightarrow> b < m \<Longrightarrow> (n + a) mod m = (n + b) mod m \<longleftrightarrow> a = (b :: nat)"
proof (induction a b rule: linorder_wlog)
  case (le a b)
  have "m dvd b - a \<longleftrightarrow> b = a" using le by (auto dest: dvd_imp_le)
  then show ?case using mod_eq_dvd_iff_nat [of "n + a" "n + b" m] le by auto
qed auto

lemma ring_snoc: "ring m buf a (Suc n) = ring m buf a n @ [buf ((unat a + n) mod m)]"
  by (simp add: ring_def)

lemma ring_upd:
  assumes "n < m"
  shows "ring m (buf((unat a + n) mod m := c)) a (Suc n) = ring m buf a n @ [c]"
proof -
  have "(unat a + k) mod m \<noteq> (unat a + n) mod m" if "k < n" for k
    using that assms mod_add_inj [of k m n "unat a"] by simp
  then show ?thesis by (simp add: ring_def)
qed

lemma ring_append:
  assumes "m dvd 2 ^ 32"
  shows "ring m buf a (i + j) = ring m buf a i @ ring m buf (a + of_nat i) j"
proof (induction j)
  case (Suc j)
  have "(unat (a + of_nat i) + j) mod m = (unat (a + of_nat i) mod m + j) mod m"
    by (simp add: mod_add_left_eq)
  also have "\<dots> = (unat a + (i + j)) mod m"
    unfolding unat_add_mod [OF assms] by (simp add: mod_add_left_eq add.assoc)
  finally show ?case using Suc by (simp add: ring_snoc)
qed simp

lemma ring_cons:
  assumes "m dvd 2 ^ 32"
  shows "ring m buf a (Suc n) = buf (unat a mod m) # ring m buf (a + 1) n"
  using ring_append [OF assms, of buf a 1 n] by (simp add: ring_def)

lemma unat_diff_Suc:
  assumes "(a :: u32) \<noteq> b"
  shows "unat (a - b) = Suc (unat (a - (b + 1)))" and "unat (a - b) = Suc (unat (a - 1 - b))"
proof -
  have "unat (a - b - 1) = unat (a - b) - 1" "unat (a - b) \<noteq> 0"
    using unat_minus_one [of "a - b"] assms by (simp_all add: unat_eq_0)
  then show "unat (a - b) = Suc (unat (a - (b + 1)))" "unat (a - b) = Suc (unat (a - 1 - b))"
    by (simp_all add: diff_diff_eq add.commute)
qed

lemma unat_diff_plus1: "unat (a - b) + 1 < 2 ^ 32 \<Longrightarrow> unat (a + 1 - b :: u32) = Suc (unat (a - b))"
  using unat_word_ariths(1) [of "a - b" 1] by (simp add: add_diff_eq diff_add_eq)

lemma unat_diff_eq:
  assumes "k < 2 ^ 32"
  shows "(a :: u32) = b + of_nat k \<longleftrightarrow> unat (a - b) = k"
proof -
  have "unat (of_nat k :: u32) = k" using assms by (intro of_nat_inverse [OF refl]) simp
  moreover have "a = b + of_nat k \<longleftrightarrow> a - b = of_nat k" by (auto simp: algebra_simps)
  ultimately show ?thesis by (auto simp: word_unat_eq_iff)
qed

end
