(* ===== verification/Pipe.thy ===== *)
theory Pipe
  imports Either_Copy Byte_Queue
begin

text \<open>
  Pipes, \<^verbatim>\<open>kernel/proc/pipe.c\<close>. The ring buffer is indexed by two counters that wrap at
  \<open>2^32\<close>. A call that has to wait is modelled up to the point where it sleeps; it continues
  from there, with the pipe and the process as they are then. \<open>p_rsleep\<close> and \<open>p_wsleep\<close>
  say whether some process sleeps on \<^verbatim>\<open>&pi->nread\<close> or \<^verbatim>\<open>&pi->nwrite\<close>;
  \<^verbatim>\<open>wakeup\<close> clears them.
\<close>

section \<open>Operations\<close>

definition PIPESIZE :: nat where "PIPESIZE = 512"

record pipe =
  p_data :: "nat \<Rightarrow> u8"
  p_nread :: u32
  p_nwrite :: u32
  p_readopen :: bool
  p_writeopen :: bool
  p_rsleep :: bool
  p_wsleep :: bool

text \<open>What a call does: it returns a value, or it sleeps with \<open>i\<close> bytes transferred so far.\<close>

datatype pipe_out = Returned int pipe kmem | Sleeping int pipe kmem

definition pipe_init :: "pipe \<Rightarrow> pipe" where
  "pipe_init pi = pi\<lparr>p_readopen := True, p_writeopen := True, p_nwrite := 0, p_nread := 0,
     p_rsleep := False, p_wsleep := False\<rparr>"

definition pipe_full :: "pipe \<Rightarrow> bool" where
  "pipe_full pi \<longleftrightarrow> p_nwrite pi = p_nread pi + of_nat PIPESIZE"

definition pipe_push :: "u8 \<Rightarrow> pipe \<Rightarrow> pipe" where
  "pipe_push ch pi = pi\<lparr>p_data := (p_data pi)(unat (p_nwrite pi) mod PIPESIZE := ch), p_nwrite := p_nwrite pi + 1\<rparr>"

definition pipe_head :: "pipe \<Rightarrow> u8" where
  "pipe_head pi = p_data pi (unat (p_nread pi) mod PIPESIZE)"

definition pipe_pop :: "pipe \<Rightarrow> pipe" where
  "pipe_pop pi = pi\<lparr>p_nread := p_nread pi + 1\<rparr>"

function pipewrite_from :: "bool \<Rightarrow> u64 \<Rightarrow> u64 \<Rightarrow> int \<Rightarrow> int \<Rightarrow> pipe \<Rightarrow> kmem \<Rightarrow> pipe_out option" where
  "pipewrite_from killed pagetable addr n i pi s =
     (if i < n then
        if pipe_full pi then
          if \<not> p_readopen pi \<or> killed then Some (Returned (- 1) pi s)
          else Some (Sleeping i (pi\<lparr>p_rsleep := False, p_wsleep := True\<rparr>) s)
        else
          (case copyin pagetable (addr + of_int i) 1 s of
             None \<Rightarrow> None
           | Some (Inl e) \<Rightarrow> Some (Returned i (pi\<lparr>p_rsleep := False\<rparr>) s)
           | Some (Inr ch) \<Rightarrow> pipewrite_from killed pagetable addr n (i + 1) (pipe_push (hd ch) pi) s)
      else Some (Returned i (pi\<lparr>p_rsleep := False\<rparr>) s))"
  by pat_completeness auto
termination by (relation "measure (\<lambda>(killed, pagetable, addr, n, i, pi, s). nat (n - i))") auto

definition pipewrite :: "bool \<Rightarrow> u64 \<Rightarrow> pipe \<Rightarrow> u64 \<Rightarrow> int \<Rightarrow> kmem \<Rightarrow> pipe_out option" where
  "pipewrite killed pagetable pi addr n s = pipewrite_from killed pagetable addr n 0 pi s"

function piperead_from :: "u64 \<Rightarrow> u64 \<Rightarrow> int \<Rightarrow> int \<Rightarrow> pipe \<Rightarrow> kmem \<Rightarrow> (int \<times> pipe \<times> kmem) option" where
  "piperead_from pagetable addr n i pi s =
     (if i < n \<and> p_nread pi \<noteq> p_nwrite pi then
        (case copyout pagetable (addr + of_int i) [pipe_head pi] s of
           None \<Rightarrow> None
         | Some (r, s) \<Rightarrow>
             if r = - 1 then Some (i, pipe_pop pi, s)
             else piperead_from pagetable addr n (i + 1) (pipe_pop pi) s)
      else Some (i, pi, s))"
  by pat_completeness auto
termination by (relation "measure (\<lambda>(pagetable, addr, n, i, pi, s). nat (n - i))") auto

definition piperead :: "bool \<Rightarrow> u64 \<Rightarrow> pipe \<Rightarrow> u64 \<Rightarrow> int \<Rightarrow> kmem \<Rightarrow> pipe_out option" where
  "piperead killed pagetable pi addr n s =
     (if p_nread pi = p_nwrite pi \<and> p_writeopen pi then
        if killed then Some (Returned (- 1) pi s)
        else Some (Sleeping 0 (pi\<lparr>p_rsleep := True\<rparr>) s)
      else
        (case piperead_from pagetable addr n 0 pi s of
           None \<Rightarrow> None
         | Some (i, pi, s) \<Rightarrow> Some (Returned i (pi\<lparr>p_wsleep := False\<rparr>) s)))"

text \<open>\<^verbatim>\<open>pipeclose\<close>: the pipe with one end closed, and whether its page is to be freed.\<close>

definition close_end :: "bool \<Rightarrow> pipe \<Rightarrow> pipe" where
  "close_end writable pi =
     (if writable then pi\<lparr>p_writeopen := False, p_rsleep := False\<rparr>
      else pi\<lparr>p_readopen := False, p_wsleep := False\<rparr>)"

definition pipeclose :: "u64 \<Rightarrow> bool \<Rightarrow> pipe \<Rightarrow> kmem \<Rightarrow> (pipe \<times> kmem) option" where
  "pipeclose a writable pi s =
     (let pi = close_end writable pi
      in if \<not> p_readopen pi \<and> \<not> p_writeopen pi
         then map_option (\<lambda>s. (pi, s)) (kfree a s)
         else Some (pi, s))"

section \<open>The byte queue a pipe implements\<close>

definition pipe_len :: "pipe \<Rightarrow> nat" where
  "pipe_len pi = unat (p_nwrite pi - p_nread pi)"

definition contents :: "pipe \<Rightarrow> u8 list" where
  "contents pi = ring PIPESIZE (p_data pi) (p_nread pi) (pipe_len pi)"

definition pipe_ok :: "pipe \<Rightarrow> bool" where
  "pipe_ok pi \<longleftrightarrow> pipe_len pi \<le> PIPESIZE"

lemma length_contents [simp]: "length (contents pi) = pipe_len pi"
  by (simp add: contents_def)

lemma pipe_full_iff: "pipe_full pi \<longleftrightarrow> pipe_len pi = PIPESIZE"
  unfolding pipe_full_def pipe_len_def by (rule unat_diff_eq) (simp add: PIPESIZE_def)

lemma pipe_empty_iff: "p_nread pi = p_nwrite pi \<longleftrightarrow> contents pi = []"
proof -
  have "contents pi = [] \<longleftrightarrow> p_nwrite pi - p_nread pi = 0"
    unfolding length_0_conv [symmetric] length_contents pipe_len_def by (simp only: unat_eq_0)
  then show ?thesis by auto
qed

lemma PIPESIZE_dvd: "PIPESIZE dvd 2 ^ 32"
  by (simp add: PIPESIZE_def)

lemma nwrite_index: "unat (p_nwrite pi) mod PIPESIZE = (unat (p_nread pi) + pipe_len pi) mod PIPESIZE"
  using unat_add_mod [OF PIPESIZE_dvd, of "p_nread pi" "pipe_len pi"] by (simp add: pipe_len_def)

lemma contents_push:
  assumes "pipe_len pi < PIPESIZE"
  shows "contents (pipe_push ch pi) = contents pi @ [ch]" and "pipe_ok (pipe_push ch pi)"
proof -
  have len: "pipe_len (pipe_push ch pi) = Suc (pipe_len pi)"
    using assms unat_diff_plus1 [of "p_nwrite pi" "p_nread pi"] by (simp add: pipe_len_def pipe_push_def PIPESIZE_def)
  then show "pipe_ok (pipe_push ch pi)" using assms by (simp add: pipe_ok_def)
  show "contents (pipe_push ch pi) = contents pi @ [ch]"
    unfolding contents_def len using ring_upd [OF assms] by (simp add: pipe_push_def nwrite_index)
qed

lemma contents_pop:
  assumes "p_nread pi \<noteq> p_nwrite pi"
  shows "contents pi = pipe_head pi # contents (pipe_pop pi)"
proof -
  have "pipe_len pi = Suc (pipe_len (pipe_pop pi))"
    using unat_diff_Suc(1) [of "p_nwrite pi" "p_nread pi"] assms by (simp add: pipe_len_def pipe_pop_def)
  then show ?thesis
    by (simp add: contents_def ring_cons [OF PIPESIZE_dvd]) (simp add: pipe_pop_def pipe_head_def)
qed

lemma pipe_ok_pop: "p_nread pi \<noteq> p_nwrite pi \<Longrightarrow> pipe_ok pi \<Longrightarrow> pipe_ok (pipe_pop pi)"
  using arg_cong [OF contents_pop, of pi length] by (simp add: pipe_ok_def)

interpretation pipeq: byte_queue contents pipe_push pipe_head pipe_pop pipe_ok PIPESIZE
proof unfold_locales
  fix pi c assume "pipe_ok pi" and "length (contents pi) < PIPESIZE"
  then show "pipe_ok (pipe_push c pi) \<and> contents (pipe_push c pi) = contents pi @ [c]"
    using contents_push [of pi c] by simp
next
  fix pi assume "pipe_ok pi" and "contents pi \<noteq> []"
  then have ne: "p_nread pi \<noteq> p_nwrite pi" using pipe_empty_iff by blast
  then show "pipe_ok (pipe_pop pi) \<and> contents pi = pipe_head pi # contents (pipe_pop pi)"
    using contents_pop [OF ne] pipe_ok_pop [OF ne \<open>pipe_ok pi\<close>] by blast
qed (simp add: pipe_ok_def)

declare pipewrite_from.simps [simp del] piperead_from.simps [simp del]

section \<open>Writing\<close>

text \<open>What a writer appends before it returns or sleeps.\<close>

definition write_out :: "bool \<Rightarrow> nat \<Rightarrow> u8 list \<Rightarrow> pipe \<Rightarrow> kmem \<Rightarrow> pipe_out option \<Rightarrow> bool" where
  "write_out killed i bs pi s r \<longleftrightarrow>
     (let j = min (length bs) (i + (PIPESIZE - pipe_len pi))
      in \<exists>pi'. contents pi' = contents pi @ drop i (take j bs) \<and> pipe_ok pi' \<and>
           p_readopen pi' = p_readopen pi \<and> p_writeopen pi' = p_writeopen pi \<and>
           (if j = length bs then r = Some (Returned (int j) pi' s) \<and> \<not> p_rsleep pi' \<and> p_wsleep pi' = p_wsleep pi
            else if \<not> p_readopen pi \<or> killed then r = Some (Returned (- 1) pi' s) \<and> p_rsleep pi' = p_rsleep pi
            else r = Some (Sleeping (int j) pi' s) \<and> \<not> p_rsleep pi' \<and> p_wsleep pi'))"

lemma pipe_push_sel [simp]:
  "p_readopen (pipe_push c pi) = p_readopen pi" "p_writeopen (pipe_push c pi) = p_writeopen pi"
  "p_rsleep (pipe_push c pi) = p_rsleep pi" "p_wsleep (pipe_push c pi) = p_wsleep pi"
  by (simp_all add: pipe_push_def)

lemma pipewrite_from_ok:
  assumes "pipe_ok pi" and "user_bytes s root addr bs" and "i \<le> length bs"
  shows "write_out killed i bs pi s (pipewrite_from killed root addr (int (length bs)) (int i) pi s)"
  using assms
proof (induction "length bs - i" arbitrary: i pi)
  case 0
  then have i: "i = length bs" by simp
  then show ?case using 0
    by (subst pipewrite_from.simps) (auto simp: write_out_def Let_def contents_def pipe_len_def pipe_ok_def
        intro!: exI [of _ "pi\<lparr>p_rsleep := False\<rparr>"])
next
  case (Suc m)
  then have i: "i < length bs" by simp
  show ?case
  proof (cases "pipe_full pi")
    case True
    then have j: "min (length bs) (i + (PIPESIZE - pipe_len pi)) = i" "pipe_len pi = PIPESIZE"
      using i by (simp_all add: pipe_full_iff)
    show ?thesis
    proof (cases "\<not> p_readopen pi \<or> killed")
      case T: True
      then show ?thesis using True i Suc.prems(1) unfolding write_out_def j
        by (subst pipewrite_from.simps) (auto simp: Let_def)
    next
      case F: False
      then show ?thesis using True i Suc.prems(1) unfolding write_out_def j
        by (subst pipewrite_from.simps) (auto simp: Let_def contents_def pipe_len_def pipe_ok_def
          intro!: exI [of _ "pi\<lparr>p_rsleep := False, p_wsleep := True\<rparr>"])
    qed
  next
    case False
    then have l: "pipe_len pi < PIPESIZE" using Suc.prems(1) by (simp add: pipe_full_iff pipe_ok_def)
    let ?p = "pipe_push (bs ! i) pi"
    have "unat (addr + of_nat i) + 1 < 2 ^ 64"
      using Suc.prems(2) i by (simp add: user_bytes_def unat_plus_no_wrap)
    then have c: "copyin root (addr + of_nat i) 1 s = Some (Inr [bs ! i])"
      using Suc.prems(2) i by (intro copyin_byte) (simp_all add: user_bytes_def)
    have step: "pipewrite_from killed root addr (int (length bs)) (int i) pi s =
        pipewrite_from killed root addr (int (length bs)) (int (Suc i)) ?p s"
      using False i c by (subst pipewrite_from.simps) (simp add: add.commute)
    have push: "pipe_ok ?p \<and> contents ?p = contents pi @ [bs ! i]"
      by (rule pipeq.push_law [OF Suc.prems(1)]) (simp add: l)
    then have ok: "pipe_ok ?p" ..
    have len: "pipe_len ?p = Suc (pipe_len pi)"
      using arg_cong [OF conjunct2 [OF push], of length] by simp
    have IH: "write_out killed (Suc i) bs ?p s (pipewrite_from killed root addr (int (length bs)) (int (Suc i)) ?p s)"
      using Suc i by (intro Suc.hyps) (auto intro: ok)
    define J where "J = min (length bs) (i + (PIPESIZE - pipe_len pi))"
    have j: "min (length bs) (Suc i + (PIPESIZE - pipe_len ?p)) = J"
      using l by (simp add: len J_def)
    have d: "drop i (take J bs) = bs ! i # drop (Suc i) (take J bs)"
      using i l by (subst Cons_nth_drop_Suc [symmetric]) (auto simp: J_def)
    show ?thesis
      using IH unfolding step write_out_def j J_def [symmetric] Let_def conjunct2 [OF push] d pipe_push_sel
      by simp
  qed
qed

section \<open>Reading\<close>

lemma pipe_pop_sel [simp]:
  "p_readopen (pipe_pop pi) = p_readopen pi" "p_writeopen (pipe_pop pi) = p_writeopen pi"
  "p_rsleep (pipe_pop pi) = p_rsleep pi" "p_wsleep (pipe_pop pi) = p_wsleep pi"
  by (simp_all add: pipe_pop_def)

lemma piperead_from_ok:
  assumes "user_room s root addr n" and "i \<le> n"
  shows "\<exists>j pi' s'. piperead_from root addr (int n) (int i) pi s = Some (int j, pi', s') \<and>
    j = min n (i + pipe_len pi) \<and> contents pi' = drop (j - i) (contents pi) \<and>
    pi' = pi\<lparr>p_nread := p_nread pi'\<rparr> \<and> user_room s' root addr n \<and>
    (\<forall>x. user_byte s' root x =
       (if i \<le> unat (x - addr) \<and> unat (x - addr) < j then Some (contents pi ! (unat (x - addr) - i))
        else user_byte s root x))"
  using assms
proof (induction "n - i" arbitrary: i pi s)
  case 0
  then have "i = n" by simp
  then show ?case using 0 by (subst piperead_from.simps) auto
next
  case (Suc m)
  then have i: "i < n" by simp
  show ?case
  proof (cases "p_nread pi = p_nwrite pi")
    case True
    then have "pipe_len pi = 0" "contents pi = []" by (simp_all add: pipe_len_def contents_def)
    then show ?thesis using True i Suc.prems by (subst piperead_from.simps) auto
  next
    case False
    note pop = contents_pop [OF False]
    have len: "pipe_len pi = Suc (pipe_len (pipe_pop pi))" using arg_cong [OF pop, of length] by simp
    obtain s1 where s1: "copyout root (addr + of_nat i) [pipe_head pi] s = Some (0, s1)" "user_room s1 root addr n"
      "\<forall>x. user_byte s1 root x = (if unat (x - addr) = i then Some (pipe_head pi) else user_byte s root x)"
      using copyout_byte [OF Suc.prems(1) i] by blast
    have step: "piperead_from root addr (int n) (int i) pi s =
        piperead_from root addr (int n) (int (Suc i)) (pipe_pop pi) s1"
      using False i s1(1) by (subst piperead_from.simps) (simp add: add.commute)
    have m: "m = n - Suc i" using Suc.hyps(2) by simp
    obtain j pi' s' where r: "piperead_from root addr (int n) (int (Suc i)) (pipe_pop pi) s1 = Some (int j, pi', s')"
      "j = min n (Suc i + pipe_len (pipe_pop pi))" "contents pi' = drop (j - Suc i) (contents (pipe_pop pi))"
      "pi' = (pipe_pop pi)\<lparr>p_nread := p_nread pi'\<rparr>" "user_room s' root addr n"
      "\<forall>x. user_byte s' root x = (if Suc i \<le> unat (x - addr) \<and> unat (x - addr) < j
         then Some (contents (pipe_pop pi) ! (unat (x - addr) - Suc i)) else user_byte s1 root x)"
      using Suc.hyps(1) [OF m s1(2) Suc_leI [OF i], of "pipe_pop pi"] by blast
    have j: "j = min n (i + pipe_len pi)" "Suc i \<le> j" using r(2) len i by auto
    have c: "contents pi' = drop (j - i) (contents pi)"
      using r(3) j(2) by (simp add: pop Suc_diff_Suc [symmetric] Suc_diff_le)
    have p: "pi' = pi\<lparr>p_nread := p_nread pi'\<rparr>" using r(4) by (metis pipe_pop_def pipe.surjective pipe.update_convs(2))
    have u: "user_byte s' root x = (if i \<le> unat (x - addr) \<and> unat (x - addr) < j
        then Some (contents pi ! (unat (x - addr) - i)) else user_byte s root x)" for x
      using r(6) s1(3) j(2) by (cases "unat (x - addr) = i") (auto simp: pop nth_Cons')
    show ?thesis unfolding step r(1) using j(1) c p r(5) u by blast
  qed
qed

section \<open>Waking up\<close>

fun out_pipe :: "pipe_out \<Rightarrow> pipe" where
  "out_pipe (Returned r pi s) = pi"
| "out_pipe (Sleeping i pi s) = pi"

text \<open>
  Calls on a pipe in any order, from any process and any address space. An end is closed when
  its last descriptor is closed, so no process is inside a call on it. Writers are not killed.
\<close>

inductive pipe_step :: "pipe \<Rightarrow> pipe \<Rightarrow> bool" where
  step_pipewrite: "p_writeopen pi \<Longrightarrow> pipewrite_from False root addr n i pi s = Some r \<Longrightarrow> pipe_step pi (out_pipe r)"
| step_piperead: "p_readopen pi \<Longrightarrow> piperead killed root pi addr n s = Some r \<Longrightarrow> pipe_step pi (out_pipe r)"
| step_close_read: "\<not> p_rsleep pi \<Longrightarrow> pipe_step pi (close_end False pi)"
| step_close_write: "\<not> p_wsleep pi \<Longrightarrow> pipe_step pi (close_end True pi)"

definition writers_awake :: "pipe \<Rightarrow> bool" where
  "writers_awake pi \<longleftrightarrow> pipe_ok pi \<and> (p_wsleep pi \<longrightarrow> pipe_full pi \<and> p_readopen pi \<and> p_writeopen pi)"

definition pipe_awake :: "pipe \<Rightarrow> bool" where
  "pipe_awake pi \<longleftrightarrow> writers_awake pi \<and>
     (p_rsleep pi \<longrightarrow> contents pi = [] \<and> p_readopen pi \<and> p_writeopen pi)"

lemma pipewrite_from_awake:
  "pipewrite_from False root addr n i pi s = Some r \<Longrightarrow> writers_awake pi \<Longrightarrow> p_writeopen pi \<Longrightarrow>
   writers_awake (out_pipe r) \<and> p_readopen (out_pipe r) = p_readopen pi \<and>
   (p_rsleep (out_pipe r) \<longrightarrow> p_rsleep pi \<and> \<not> p_readopen pi)"
proof (induction "nat (n - i)" arbitrary: i pi)
  case 0
  then show ?case by (auto simp: pipewrite_from.simps writers_awake_def pipe_ok_def pipe_full_iff pipe_len_def)
next
  case (Suc m)
  then have i: "i < n" by simp
  show ?case
  proof (cases "pipe_full pi")
    case True
    then show ?thesis using Suc.prems i
      by (subst (asm) pipewrite_from.simps)
        (auto simp: writers_awake_def pipe_ok_def pipe_full_iff pipe_len_def split: if_splits)
  next
    case False
    then have l: "pipe_len pi < PIPESIZE" and w: "\<not> p_wsleep pi"
      using Suc.prems(2) by (auto simp: writers_awake_def pipe_full_iff pipe_ok_def)
    have a: "writers_awake (pi\<lparr>p_rsleep := False\<rparr>)"
      using Suc.prems(2) by (simp add: writers_awake_def pipe_ok_def pipe_full_iff pipe_len_def)
    have p: "writers_awake (pipe_push c pi)" for c
      using contents_push(2) [OF l] w by (simp add: writers_awake_def)
    have m: "m = nat (n - (i + 1))" using Suc.hyps(2) by simp
    from Suc.prems(1) i False consider "out_pipe r = pi\<lparr>p_rsleep := False\<rparr>"
      | c where "pipewrite_from False root addr n (i + 1) (pipe_push c pi) s = Some r"
      by (subst (asm) pipewrite_from.simps) (auto split: option.splits sum.splits)
    then show ?thesis
    proof cases
      case 2
      then show ?thesis using Suc.hyps(1) [OF m 2 p] Suc.prems(3) by simp
    qed (use a in simp)
  qed
qed

lemma piperead_from_awake:
  "piperead_from root addr n i pi s = Some (j, pi', s') \<Longrightarrow> pipe_ok pi \<Longrightarrow>
   pipe_ok pi' \<and> p_readopen pi' = p_readopen pi \<and> p_writeopen pi' = p_writeopen pi \<and> p_rsleep pi' = p_rsleep pi \<and>
   p_wsleep pi' = p_wsleep pi \<and> (contents pi = [] \<longrightarrow> contents pi' = [])"
proof (induction "nat (n - i)" arbitrary: i pi s)
  case 0
  then show ?case by (auto simp: piperead_from.simps)
next
  case (Suc m)
  show ?case
  proof (cases "p_nread pi = p_nwrite pi")
    case True
    then show ?thesis using Suc.prems by (auto simp: piperead_from.simps)
  next
    case False
    have "pipe_ok (pipe_pop pi)" by (rule pipe_ok_pop [OF False Suc.prems(2)])
    moreover have "contents pi \<noteq> []" using False pipe_empty_iff by blast
    ultimately show ?thesis using Suc.prems False Suc.hyps(1) [of "i + 1" "pipe_pop pi"] Suc.hyps(2)
      by (subst (asm) piperead_from.simps) (auto split: option.splits if_splits)
  qed
qed

lemma pipe_awake_step:
  assumes "pipe_step pi pi'" and "pipe_awake pi"
  shows "pipe_awake pi'"
  using assms
proof cases
  case (step_pipewrite root addr n i s r)
  then have "writers_awake (out_pipe r)" "p_rsleep (out_pipe r) \<longrightarrow> p_rsleep pi \<and> \<not> p_readopen pi"
    using pipewrite_from_awake [of root addr n i pi s r] assms(2) by (simp_all add: pipe_awake_def)
  then show ?thesis using assms(2) step_pipewrite(1) by (auto simp: pipe_awake_def)
next
  case (step_piperead killed root addr n s r)
  show ?thesis
  proof (cases "p_nread pi = p_nwrite pi \<and> p_writeopen pi")
    case True
    then have "contents pi = []" "\<not> pipe_full pi"
      by (simp_all add: pipe_full_iff pipe_len_def contents_def PIPESIZE_def)
    then show ?thesis using True step_piperead assms(2)
      by (auto simp: piperead_def pipe_awake_def writers_awake_def pipe_ok_def contents_def pipe_len_def split: if_splits)
  next
    case False
    then obtain j q s' where q: "piperead_from root addr n 0 pi s = Some (j, q, s')" "out_pipe r = q\<lparr>p_wsleep := False\<rparr>"
      using step_piperead(3) unfolding piperead_def if_not_P [OF False] by (auto split: option.splits)
    have "\<not> p_rsleep pi" using False assms(2) pipe_empty_iff by (auto simp: pipe_awake_def)
    then show ?thesis using piperead_from_awake [OF q(1)] assms(2) q(2) step_piperead(1)
      by (simp add: pipe_awake_def writers_awake_def pipe_ok_def pipe_len_def)
  qed
qed (use assms(2) in \<open>auto simp: pipe_awake_def writers_awake_def close_end_def pipe_ok_def contents_def pipe_len_def\<close>)

section \<open>Properties\<close>

text \<open>
  C15. \<^verbatim>\<open>pipewrite\<close> appends the caller's bytes in order, as many as the buffer has room for:
  it returns \<open>n\<close> if all fit; otherwise it fills the buffer and then fails if the read end is
  closed or the caller is killed, and else sleeps, after waking the readers. The ring arithmetic
  is correct also when the 32-bit counters wrap around.
\<close>

theorem pipewrite_fifo:
  assumes "pipe_ok pi" and "user_bytes s root addr bs"
  shows "let j = min (length bs) (PIPESIZE - pipe_len pi); r = pipewrite killed root pi addr (int (length bs)) s
    in \<exists>pi'. contents pi' = contents pi @ take j bs \<and> pipe_ok pi' \<and>
      r = Some (if j = length bs then Returned (int j) pi' s
                else if \<not> p_readopen pi \<or> killed then Returned (- 1) pi' s else Sleeping (int j) pi' s)"
  using pipewrite_from_ok [OF assms, of 0 killed]
  by (auto simp: write_out_def pipewrite_def Let_def split: if_splits)

text \<open>
  C16. \<^verbatim>\<open>piperead\<close> on a pipe that is not empty, or that no writer has open, delivers the
  oldest bytes, at most \<open>n\<close>, to the caller's buffer, removes exactly those from the pipe and
  returns their number; no other byte of the caller's memory changes.
\<close>

theorem piperead_fifo:
  assumes "user_room s root addr n" and "contents pi \<noteq> [] \<or> \<not> p_writeopen pi"
  shows "let j = min n (pipe_len pi)
    in \<exists>pi' s'. piperead killed root pi addr (int n) s = Some (Returned (int j) pi' s') \<and>
      contents pi' = drop j (contents pi) \<and>
      (\<forall>x. user_byte s' root x =
         (if unat (x - addr) < j then Some (contents pi ! unat (x - addr)) else user_byte s root x))"
proof -
  have ne: "\<not> (p_nread pi = p_nwrite pi \<and> p_writeopen pi)" using assms(2) pipe_empty_iff by auto
  obtain j pi' s' where r: "piperead_from root addr (int n) 0 pi s = Some (int j, pi', s')"
    "j = min n (pipe_len pi)" "contents pi' = drop j (contents pi)"
    "\<forall>x. user_byte s' root x =
       (if unat (x - addr) < j then Some (contents pi ! unat (x - addr)) else user_byte s root x)"
    using piperead_from_ok [OF assms(1), of 0 pi] by auto
  have "piperead killed root pi addr (int n) s = Some (Returned (int j) (pi'\<lparr>p_wsleep := False\<rparr>) s')"
    unfolding piperead_def if_not_P [OF ne] r(1) by simp
  moreover have "contents (pi'\<lparr>p_wsleep := False\<rparr>) = drop j (contents pi)"
    using r(3) by (simp add: contents_def pipe_len_def)
  ultimately show ?thesis using r(2,4) unfolding Let_def by auto
qed


text \<open>
  A killed writer that fills the pipe returns without waking the readers: the bytes are in
  the pipe and the reader that slept on the empty pipe keeps sleeping.
\<close>

theorem pipewrite_killed_strands_reader:
  assumes "contents pi = []" and "p_rsleep pi" and "user_bytes s root addr bs" and "PIPESIZE < length bs"
  shows "\<exists>pi'. pipewrite True root pi addr (int (length bs)) s = Some (Returned (- 1) pi' s) \<and>
    p_rsleep pi' \<and> contents pi' = take PIPESIZE bs"
proof -
  have "pipe_len pi = 0" using arg_cong [OF assms(1), of length] by simp
  then have ok: "pipe_ok pi" "pipe_len pi = 0" by (simp_all add: pipe_ok_def)
  show ?thesis using pipewrite_from_ok [OF ok(1) assms(3), of 0 True] assms ok(2)
    by (auto simp: write_out_def pipewrite_def Let_def)
qed

definition demo_pipe :: pipe where
  "demo_pipe = \<lparr>p_data = (\<lambda>_. 7), p_nread = - 2, p_nwrite = - 2, p_readopen = True, p_writeopen = True,
     p_rsleep = True, p_wsleep = False\<rparr>"

lemma demo_pipe_empty: "contents demo_pipe = []" "pipe_len demo_pipe = 0" "pipe_ok demo_pipe"
  by (simp_all add: contents_def pipe_len_def demo_pipe_def pipe_ok_def)

theorem pipewrite_fifo_witness:
  "\<exists>pi'. contents pi' = demo_bytes 3 \<and> pipewrite False demo_root demo_pipe 0 3 demo = Some (Returned 3 pi' demo)"
proof -
  have "length (demo_bytes 3) = 3" by (simp add: demo_bytes_def)
  then show ?thesis
    using pipewrite_fifo [OF demo_pipe_empty(3) demo_user_bytes, of 3 False] demo_pipe_empty
    by (auto simp: Let_def PIPESIZE_def)
qed

theorem piperead_fifo_witness:
  "\<exists>pi' s'. piperead False demo_root (pipe_push 5 demo_pipe) 0 3 demo = Some (Returned 1 pi' s') \<and>
     contents pi' = [] \<and> user_byte s' demo_root 0 = Some 5"
proof -
  have c: "contents (pipe_push 5 demo_pipe) = [5]"
    using contents_push(1) [of demo_pipe 5] demo_pipe_empty by (simp add: PIPESIZE_def)
  have l: "pipe_len (pipe_push 5 demo_pipe) = 1" using arg_cong [OF c, of length] by simp
  show ?thesis
    using piperead_fifo [OF demo_room, of 3 "pipe_push 5 demo_pipe" False] c l
    by (fastforce simp: Let_def)
qed


theorem pipewrite_killed_strands_reader_witness:
  "\<exists>pi'. pipewrite True demo_root demo_pipe 0 600 demo = Some (Returned (- 1) pi' demo) \<and>
     p_rsleep pi' \<and> length (contents pi') = 512"
proof -
  have l: "length (demo_bytes 600) = 600" by (simp add: demo_bytes_def)
  have "p_rsleep demo_pipe" by (simp add: demo_pipe_def)
  from pipewrite_killed_strands_reader [OF demo_pipe_empty(1) this demo_user_bytes, of 600] l
  show ?thesis by (fastforce simp: PIPESIZE_def)
qed

end
