(* ===== verification/Console.thy ===== *)
theory Console
  imports Either_Copy Byte_Queue
begin

text \<open>
  The UART driver \<^verbatim>\<open>kernel/driver/uart.c\<close> and the console \<^verbatim>\<open>kernel/driver/console.c\<close>.
  The device is the parameter \<open>D\<close>: its state type and what a read and a write of one of its
  registers does. Waiting for the device is a loop that may not end (\<open>None\<close>). A call that
  sleeps is modelled up to there.
\<close>

section \<open>The UART\<close>

definition RHR :: nat where "RHR = 0"
definition THR :: nat where "THR = 0"
definition IER :: nat where "IER = 1"
definition FCR :: nat where "FCR = 2"
definition LCR :: nat where "LCR = 3"
definition LSR :: nat where "LSR = 5"
definition LSR_TX_IDLE :: u8 where "LSR_TX_IDLE = 32"
definition UART_TX_BUF_SIZE :: nat where "UART_TX_BUF_SIZE = 32"
definition INPUT_BUF :: nat where "INPUT_BUF = 128"
definition BACKSPACE :: nat where "BACKSPACE = 0x100"

record 'd uart_ops =
  rd_reg :: "nat \<Rightarrow> 'd \<Rightarrow> u8 \<times> 'd"
  wr_reg :: "nat \<Rightarrow> u8 \<Rightarrow> 'd \<Rightarrow> 'd"

record 'd console =
  udev :: 'd
  panicked :: bool
  tx_buf :: "nat \<Rightarrow> u8"
  tx_w :: nat
  tx_r :: nat
  tx_sleep :: bool
  cons_buf :: "nat \<Rightarrow> u8"
  cons_r :: u32
  cons_w :: u32
  cons_e :: u32
  cons_sleep :: bool

definition ReadReg :: "'d uart_ops \<Rightarrow> nat \<Rightarrow> 'd console \<Rightarrow> u8 \<times> 'd console" where
  "ReadReg D r s = (let (v, d) = rd_reg D r (udev s) in (v, s\<lparr>udev := d\<rparr>))"

definition WriteReg :: "'d uart_ops \<Rightarrow> nat \<Rightarrow> u8 \<Rightarrow> 'd console \<Rightarrow> 'd console" where
  "WriteReg D r v s = s\<lparr>udev := wr_reg D r v (udev s)\<rparr>"

definition uartinit :: "'d uart_ops \<Rightarrow> 'd console \<Rightarrow> 'd console" where
  "uartinit D s =
     fold (\<lambda>(r, v). WriteReg D r v)
       [(IER, 0), (LCR, 128), (0, 3), (1, 0), (LCR, 3), (FCR, 7), (IER, 3)] s"

partial_function (option) uartstart :: "'d uart_ops \<Rightarrow> 'd console \<Rightarrow> 'd console option" where
  "uartstart D s =
     (if tx_w s = tx_r s then Some s
      else
        let (lsr, s) = ReadReg D LSR s
        in if lsr AND LSR_TX_IDLE = 0 then Some s
           else
             let c = tx_buf s (tx_r s);
                 s = s\<lparr>tx_r := (tx_r s + 1) mod UART_TX_BUF_SIZE, tx_sleep := False\<rparr>
             in uartstart D (WriteReg D THR c s))"

text \<open>
  \<^verbatim>\<open>uartputc\<close> up to its return or its sleep: the flag tells whether the character was
  taken. \<open>None\<close>: after a panic it spins for ever.
\<close>

definition tx_full :: "'d console \<Rightarrow> bool" where
  "tx_full s \<longleftrightarrow> (tx_w s + 1) mod UART_TX_BUF_SIZE = tx_r s"

definition tx_put :: "u8 \<Rightarrow> 'd console \<Rightarrow> 'd console" where
  "tx_put c s = s\<lparr>tx_buf := (tx_buf s)(tx_w s := c), tx_w := (tx_w s + 1) mod UART_TX_BUF_SIZE\<rparr>"

definition uartputc :: "'d uart_ops \<Rightarrow> u8 \<Rightarrow> 'd console \<Rightarrow> (bool \<times> 'd console) option" where
  "uartputc D c s =
     (if panicked s then None
      else if tx_full s then Some (False, s\<lparr>tx_sleep := True\<rparr>)
      else map_option (Pair True) (uartstart D (tx_put c s)))"

partial_function (option) uart_wait :: "'d uart_ops \<Rightarrow> 'd console \<Rightarrow> 'd console option" where
  "uart_wait D s =
     (let (lsr, s) = ReadReg D LSR s
      in if lsr AND LSR_TX_IDLE = 0 then uart_wait D s else Some s)"

definition uartputc_sync :: "'d uart_ops \<Rightarrow> u8 \<Rightarrow> 'd console \<Rightarrow> 'd console option" where
  "uartputc_sync D c s =
     (if panicked s then None else map_option (WriteReg D THR c) (uart_wait D s))"

definition uartgetc :: "'d uart_ops \<Rightarrow> 'd console \<Rightarrow> u8 option \<times> 'd console" where
  "uartgetc D s =
     (let (lsr, s) = ReadReg D LSR s
      in if lsr AND 1 \<noteq> 0 then (let (c, s) = ReadReg D RHR s in (Some c, s)) else (None, s))"

section \<open>The console\<close>

definition consputc :: "'d uart_ops \<Rightarrow> nat \<Rightarrow> 'd console \<Rightarrow> 'd console option" where
  "consputc D c s =
     (if c = BACKSPACE
      then do {
        s \<leftarrow> uartputc_sync D 8 s;
        s \<leftarrow> uartputc_sync D 32 s;
        uartputc_sync D 8 s
      }
      else uartputc_sync D (of_nat c) s)"

text \<open>
  \<^verbatim>\<open>consolewrite\<close> from byte \<open>i\<close> on. It holds \<^verbatim>\<open>cons.lock\<close>, so when
  \<^verbatim>\<open>uartputc\<close> sleeps, \<^verbatim>\<open>sched\<close> finds two locks held and panics: \<open>None\<close>.
\<close>

function consolewrite_from ::
  "'d uart_ops \<Rightarrow> u64 \<Rightarrow> bool \<Rightarrow> u64 \<Rightarrow> int \<Rightarrow> int \<Rightarrow> kmem \<Rightarrow> 'd console \<Rightarrow> (int \<times> 'd console) option" where
  "consolewrite_from D pagetable user_src src n i m s =
     (if i < n then
        (case either_copyin pagetable user_src (src + of_int i) 1 m of
           None \<Rightarrow> None
         | Some (Inl e) \<Rightarrow> Some (i, s)
         | Some (Inr c) \<Rightarrow>
             (case uartputc D (hd c) s of
                None \<Rightarrow> None
              | Some (taken, s) \<Rightarrow>
                  if taken then consolewrite_from D pagetable user_src src n (i + 1) m s else None))
      else Some (i, s))"
  by pat_completeness auto
termination
  by (relation "measure (\<lambda>(D, pagetable, user_src, src, n, i, m, s). nat (n - i))") auto

definition consolewrite ::
  "'d uart_ops \<Rightarrow> u64 \<Rightarrow> bool \<Rightarrow> u64 \<Rightarrow> int \<Rightarrow> kmem \<Rightarrow> 'd console \<Rightarrow> (int \<times> 'd console) option" where
  "consolewrite D pagetable user_src src n m s = consolewrite_from D pagetable user_src src n 0 m s"

text \<open>
  \<^verbatim>\<open>consoleread\<close> with \<open>n\<close> bytes still wanted of \<open>target\<close>: it returns a value or
  sleeps on \<^verbatim>\<open>&cons.r\<close> and continues with the \<open>n\<close> and \<open>dst\<close> given.
\<close>

datatype 'd cread_out = CReturned int kmem "'d console" | CSleeping int u64 kmem "'d console"

function consoleread_from ::
  "bool \<Rightarrow> u64 \<Rightarrow> bool \<Rightarrow> int \<Rightarrow> u64 \<Rightarrow> int \<Rightarrow> kmem \<Rightarrow> 'd console \<Rightarrow> 'd cread_out option" where
  "consoleread_from killed pagetable user_dst target dst n m s =
     (if n > 0 then
        if cons_r s = cons_w s then
          if killed then Some (CReturned (- 1) m s)
          else Some (CSleeping n dst m (s\<lparr>cons_sleep := True\<rparr>))
        else
          let c = cons_buf s (unat (cons_r s) mod INPUT_BUF);
              s' = s\<lparr>cons_r := cons_r s + 1\<rparr>
          in if c = 4 then Some (CReturned (target - n) m (if n < target then s else s'))
             else
               (case either_copyout pagetable user_dst dst [c] m of
                  None \<Rightarrow> None
                | Some (r, m) \<Rightarrow>
                    if r = - 1 then Some (CReturned (target - n) m s')
                    else if c = 10 then Some (CReturned (target - (n - 1)) m s')
                    else consoleread_from killed pagetable user_dst target (dst + 1) (n - 1) m s')
      else Some (CReturned (target - n) m s))"
  by pat_completeness auto
termination
  by (relation "measure (\<lambda>(killed, pagetable, user_dst, target, dst, n, m, s). nat n)") auto

definition consoleread ::
  "bool \<Rightarrow> u64 \<Rightarrow> bool \<Rightarrow> u64 \<Rightarrow> int \<Rightarrow> kmem \<Rightarrow> 'd console \<Rightarrow> 'd cread_out option" where
  "consoleread killed pagetable user_dst dst n m s = consoleread_from killed pagetable user_dst n dst n m s"

text \<open>
  \<^verbatim>\<open>consoleintr\<close> for one input byte. \<open>ps\<close> is the text \<^verbatim>\<open>procdump\<close> prints.
\<close>

partial_function (option) kill_line :: "'d uart_ops \<Rightarrow> 'd console \<Rightarrow> 'd console option" where
  "kill_line D s =
     (if cons_e s \<noteq> cons_w s \<and> cons_buf s (unat (cons_e s - 1) mod INPUT_BUF) \<noteq> 10
      then do {
        s \<leftarrow> consputc D BACKSPACE (s\<lparr>cons_e := cons_e s - 1\<rparr>);
        kill_line D s
      }
      else Some s)"

primrec print_bytes :: "'d uart_ops \<Rightarrow> u8 list \<Rightarrow> 'd console \<Rightarrow> 'd console option" where
  "print_bytes D [] s = Some s"
| "print_bytes D (c # cs) s = do { s \<leftarrow> consputc D (unat c) s; print_bytes D cs s }"

definition store_input :: "u8 \<Rightarrow> 'd console \<Rightarrow> 'd console" where
  "store_input c s =
     (let s = s\<lparr>cons_buf := (cons_buf s)(unat (cons_e s) mod INPUT_BUF := c), cons_e := cons_e s + 1\<rparr>
      in if c = 10 \<or> c = 4 \<or> cons_e s = cons_r s + of_nat INPUT_BUF
         then s\<lparr>cons_w := cons_e s, cons_sleep := False\<rparr> else s)"

definition consoleintr :: "'d uart_ops \<Rightarrow> u8 list \<Rightarrow> u8 \<Rightarrow> 'd console \<Rightarrow> 'd console option" where
  "consoleintr D ps c s =
     (if c = 16 then print_bytes D ps s
      else if c = 21 then kill_line D s
      else if c = 8 \<or> c = 127 then
        if cons_e s \<noteq> cons_w s then consputc D BACKSPACE (s\<lparr>cons_e := cons_e s - 1\<rparr>) else Some s
      else if c \<noteq> 0 \<and> cons_e s - cons_r s < of_nat INPUT_BUF then
        let c = (if c = 13 then 10 else c)
        in map_option (store_input c) (consputc D (unat c) s)
      else Some s)"

partial_function (option) uartintr_input :: "'d uart_ops \<Rightarrow> u8 list \<Rightarrow> 'd console \<Rightarrow> 'd console option" where
  "uartintr_input D ps s =
     (let (c, s) = uartgetc D s
      in case c of None \<Rightarrow> Some s
         | Some c \<Rightarrow> do { s \<leftarrow> consoleintr D ps c s; uartintr_input D ps s })"

definition uartintr :: "'d uart_ops \<Rightarrow> u8 list \<Rightarrow> 'd console \<Rightarrow> 'd console option" where
  "uartintr D ps s = do { s \<leftarrow> uartintr_input D ps s; uartstart D s }"

definition consoleinit :: "'d uart_ops \<Rightarrow> 'd console \<Rightarrow> 'd console" where
  "consoleinit D s = uartinit D s"

section \<open>The transmit buffer is a byte queue\<close>

definition tx_len :: "'d console \<Rightarrow> nat" where
  "tx_len s = (tx_w s + UART_TX_BUF_SIZE - tx_r s) mod UART_TX_BUF_SIZE"

definition txq :: "'d console \<Rightarrow> u8 list" where
  "txq s = ring UART_TX_BUF_SIZE (tx_buf s) (of_nat (tx_r s)) (tx_len s)"

definition tx_ok :: "'d console \<Rightarrow> bool" where
  "tx_ok s \<longleftrightarrow> tx_w s < UART_TX_BUF_SIZE \<and> tx_r s < UART_TX_BUF_SIZE"

definition tx_front :: "'d console \<Rightarrow> u8" where
  "tx_front s = tx_buf s (tx_r s)"

definition tx_pop :: "'d console \<Rightarrow> 'd console" where
  "tx_pop s = s\<lparr>tx_r := (tx_r s + 1) mod UART_TX_BUF_SIZE, tx_sleep := False\<rparr>"

lemma UART_dvd: "UART_TX_BUF_SIZE dvd 2 ^ 32"
  by (simp add: UART_TX_BUF_SIZE_def)

lemma unat_tx: "k < UART_TX_BUF_SIZE \<Longrightarrow> unat (of_nat k :: u32) = k"
  by (rule of_nat_inverse [OF refl]) (simp add: UART_TX_BUF_SIZE_def)

lemma length_txq [simp]: "length (txq s) = tx_len s"
  by (simp add: txq_def)

lemma tx_len_cases:
  assumes "tx_ok s"
  shows "tx_len s = (if tx_r s \<le> tx_w s then tx_w s - tx_r s else tx_w s + 32 - tx_r s)"
proof (cases "tx_r s \<le> tx_w s")
  case True
  then have e: "tx_w s + 32 - tx_r s = tx_w s - tx_r s + 32" by simp
  have "tx_len s = (tx_w s - tx_r s) mod 32" unfolding tx_len_def UART_TX_BUF_SIZE_def e by simp
  moreover have "tx_w s - tx_r s < 32" using assms by (simp add: tx_ok_def UART_TX_BUF_SIZE_def less_imp_diff_less)
  ultimately show ?thesis using True by simp
qed (use assms in \<open>simp add: tx_len_def tx_ok_def UART_TX_BUF_SIZE_def\<close>)

lemma tx_empty_iff: "tx_ok s \<Longrightarrow> tx_w s = tx_r s \<longleftrightarrow> txq s = []"
  using tx_len_cases [of s] unfolding length_0_conv [symmetric] length_txq
  by (auto simp: tx_ok_def UART_TX_BUF_SIZE_def split: if_splits)

lemma tx_full_iff: "tx_ok s \<Longrightarrow> tx_full s \<longleftrightarrow> tx_len s = 31"
  using tx_len_cases [of s]
  by (auto simp: tx_full_def tx_ok_def UART_TX_BUF_SIZE_def mod_if split: if_splits)

lemma tx_w_index: "tx_ok s \<Longrightarrow> tx_w s = (tx_r s + tx_len s) mod UART_TX_BUF_SIZE"
  using tx_len_cases [of s] by (auto simp: tx_ok_def UART_TX_BUF_SIZE_def mod_if)

lemma tx_put_law:
  assumes "tx_ok s" and "tx_len s < 31"
  shows "tx_ok (tx_put c s) \<and> txq (tx_put c s) = txq s @ [c]"
proof -
  have ok: "tx_ok (tx_put c s)" using assms(1) by (simp add: tx_ok_def tx_put_def UART_TX_BUF_SIZE_def)
  have r: "tx_r s < UART_TX_BUF_SIZE" using assms(1) by (simp add: tx_ok_def)
  have len: "tx_len (tx_put c s) = Suc (tx_len s)"
    using tx_len_cases [OF ok] tx_len_cases [OF assms(1)] assms
    by (auto simp: tx_put_def tx_ok_def UART_TX_BUF_SIZE_def mod_if split: if_splits)
  have "tx_len s < UART_TX_BUF_SIZE" using assms(2) by (simp add: UART_TX_BUF_SIZE_def)
  from ring_upd [OF this, of "tx_buf s" "of_nat (tx_r s)" c] show ?thesis
    using ok len tx_w_index [OF assms(1)] by (simp add: txq_def unat_tx [OF r]) (simp add: tx_put_def)
qed

lemma ring_mod: "unat a mod m = unat b mod m \<Longrightarrow> ring m buf a n = ring m buf b n"
  unfolding ring_def by (metis mod_add_left_eq)

lemma tx_pop_law:
  assumes "tx_ok s" and "txq s \<noteq> []"
  shows "tx_ok (tx_pop s) \<and> txq s = tx_front s # txq (tx_pop s)"
proof -
  have ok: "tx_ok (tx_pop s)" using assms(1) by (simp add: tx_ok_def tx_pop_def UART_TX_BUF_SIZE_def)
  have r: "tx_r s < UART_TX_BUF_SIZE" using assms(1) by (simp add: tx_ok_def)
  have ne: "tx_w s \<noteq> tx_r s" using assms tx_empty_iff by blast
  have len: "tx_len s = Suc (tx_len (tx_pop s))"
    using tx_len_cases [OF ok] tx_len_cases [OF assms(1)] assms(1) ne
    by (auto simp: tx_pop_def tx_ok_def UART_TX_BUF_SIZE_def mod_if split: if_splits)
  have "unat (of_nat (tx_r s) + 1 :: u32) mod UART_TX_BUF_SIZE = unat (of_nat (tx_r (tx_pop s)) :: u32) mod UART_TX_BUF_SIZE"
    using unat_add_mod [OF UART_dvd, of "of_nat (tx_r s)" 1] unat_tx [OF r] unat_tx [of "tx_r (tx_pop s)"] ok
    by (simp add: tx_pop_def tx_ok_def)
  from ring_mod [OF this] show ?thesis
    using ok r by (simp add: txq_def len ring_cons [OF UART_dvd] unat_tx tx_front_def) (simp add: tx_pop_def)
qed

interpretation uartq: byte_queue txq tx_put tx_front tx_pop tx_ok 31
proof unfold_locales
  show "length (txq s) \<le> 31" if "tx_ok s" for s :: "'a console"
    using tx_len_cases [OF that] that by (auto simp: tx_ok_def UART_TX_BUF_SIZE_def)
qed (use tx_put_law tx_pop_law in auto)

text \<open>A device that also records what is written to its transmit register.\<close>

definition traced :: "'d uart_ops \<Rightarrow> ('d \<times> u8 list) uart_ops" where
  "traced D = \<lparr>rd_reg = (\<lambda>r (d, l). let (v, d') = rd_reg D r d in (v, (d', l))),
     wr_reg = (\<lambda>r v (d, l). (wr_reg D r v d, if r = THR then l @ [v] else l))\<rparr>"

abbreviation sent :: "('d \<times> u8 list) console \<Rightarrow> u8 list" where
  "sent s \<equiv> snd (udev s)"

lemma ReadReg_traced:
  obtains v d where "ReadReg (traced D) r s = (v, s\<lparr>udev := (d, sent s)\<rparr>)"
  by (cases "udev s"; cases "rd_reg D r (fst (udev s))") (auto simp: ReadReg_def traced_def)

lemma txq_dev [simp]: "txq (s\<lparr>udev := d\<rparr>) = txq s" "tx_ok (s\<lparr>udev := d\<rparr>) = tx_ok s"
  by (simp_all add: txq_def tx_len_def tx_ok_def)

lemma uartstart_ok:
  assumes "tx_ok s"
  shows "\<exists>s' out. uartstart (traced D) s = Some s' \<and> tx_ok s' \<and> sent s' = sent s @ out \<and> out @ txq s' = txq s \<and>
    panicked s' = panicked s"
  using assms
proof (induction "tx_len s" arbitrary: s rule: less_induct)
  case less
  show ?case
  proof (cases "tx_w s = tx_r s")
    case True
    then show ?thesis using less.prems by (subst uartstart.simps) simp
  next
    case False
    obtain v d where r: "ReadReg (traced D) LSR s = (v, s\<lparr>udev := (d, sent s)\<rparr>)" by (rule ReadReg_traced)
    show ?thesis
    proof (cases "v AND LSR_TX_IDLE = 0")
      case True
      then show ?thesis using less.prems False r by (subst uartstart.simps) simp
    next
      case idle: False
      let ?t = "(tx_pop s)\<lparr>udev := (wr_reg D THR (tx_front s) d, sent s @ [tx_front s])\<rparr>"
      have step: "uartstart (traced D) s = uartstart (traced D) ?t"
        using False r idle by (subst uartstart.simps)
          (simp add: Let_def tx_pop_def tx_front_def WriteReg_def traced_def)
      have p: "tx_ok (tx_pop s) \<and> txq s = tx_front s # txq (tx_pop s)"
        using uartq.pop_law less.prems False tx_empty_iff by blast
      have "length (txq s) = Suc (length (txq (tx_pop s)))" by (subst conjunct2 [OF p]) simp
      then have "tx_len ?t < tx_len s" by (simp add: tx_len_def)
      from less.hyps [OF this] p obtain s' out where "uartstart (traced D) ?t = Some s'" "tx_ok s'"
        "sent s' = sent s @ tx_front s # out" "out @ txq s' = txq (tx_pop s)" "panicked s' = panicked s"
        by (auto simp: tx_pop_def)
      then show ?thesis using p unfolding step by auto
    qed
  qed
qed

section \<open>The line discipline\<close>

text \<open>What the console input buffer stands for: the finished lines, and the line being edited.\<close>

definition done_len :: "'d console \<Rightarrow> nat" where
  "done_len s = unat (cons_w s - cons_r s)"

definition edit_len :: "'d console \<Rightarrow> nat" where
  "edit_len s = unat (cons_e s - cons_w s)"

definition done_input :: "'d console \<Rightarrow> u8 list" where
  "done_input s = ring INPUT_BUF (cons_buf s) (cons_r s) (done_len s)"

definition edit_input :: "'d console \<Rightarrow> u8 list" where
  "edit_input s = ring INPUT_BUF (cons_buf s) (cons_w s) (edit_len s)"

definition cons_ok :: "'d console \<Rightarrow> bool" where
  "cons_ok s \<longleftrightarrow> done_len s + edit_len s \<le> INPUT_BUF \<and> 10 \<notin> set (edit_input s)"

text \<open>The editor the console implements, on the finished lines and the current one.\<close>

definition edit_key :: "u8 \<Rightarrow> u8 list \<times> u8 list \<Rightarrow> u8 list \<times> u8 list" where
  "edit_key c p =
     (case p of (finished, line) \<Rightarrow>
        if c = 16 then (finished, line)
        else if c = 21 then (finished, [])
        else if c = 8 \<or> c = 127 then (finished, butlast line)
        else if c = 0 \<or> length finished + length line \<ge> INPUT_BUF then (finished, line)
        else
          let c = (if c = 13 then 10 else c); line = line @ [c]
          in if c = 10 \<or> c = 4 \<or> length finished + length line = INPUT_BUF then (finished @ line, [])
             else (finished, line))"

text \<open>Echoing changes the device only.\<close>

definition same_input :: "'d console \<Rightarrow> 'd console \<Rightarrow> bool" where
  "same_input s t \<longleftrightarrow> (\<exists>d. t = s\<lparr>udev := d\<rparr>)"

lemma same_input_refl [simp]: "same_input s s"
  unfolding same_input_def by (rule exI [of _ "udev s"]) simp

lemma same_input_trans: "same_input s t \<Longrightarrow> same_input t u \<Longrightarrow> same_input s u"
  by (auto simp: same_input_def)

lemma same_input_dev [simp]: "same_input s (t\<lparr>udev := d\<rparr>) \<longleftrightarrow> same_input s t"
  by (auto simp: same_input_def) (metis console.surjective console.update_convs(1))

lemma same_input_ReadReg: "ReadReg D r s = (v, t) \<Longrightarrow> same_input s t"
  by (auto simp: ReadReg_def split: prod.splits)

lemma same_input_dev_left [simp]: "same_input (s\<lparr>udev := d\<rparr>) t \<longleftrightarrow> same_input s t"
  by (auto simp: same_input_def)

lemma uart_wait_same: "uart_wait D s = Some t \<Longrightarrow> same_input s t"
proof (induction rule: uart_wait.raw_induct [rotated, consumes 1])
  case (1 f D s t)
  obtain v u where u: "ReadReg D LSR s = (v, u)" by fastforce
  then have "same_input u t" using 1 by (cases "v AND LSR_TX_IDLE = 0") auto
  then show ?case using same_input_ReadReg [OF u] same_input_trans by blast
qed

lemma consputc_same: "consputc D c s = Some t \<Longrightarrow> same_input s t"
  by (auto simp: consputc_def uartputc_sync_def WriteReg_def split: if_splits dest!: uart_wait_same)
    (meson same_input_trans)

lemma same_input_sel:
  assumes "same_input s t"
  shows "cons_e t = cons_e s" and "cons_w t = cons_w s" and "cons_r t = cons_r s" and "cons_buf t = cons_buf s"
    and "done_input t = done_input s" and "edit_input t = edit_input s" and "done_len t = done_len s"
    and "edit_len t = edit_len s" and "cons_ok t = cons_ok s" and "panicked t = panicked s"
  using assms by (auto simp: same_input_def done_input_def edit_input_def done_len_def edit_len_def cons_ok_def)

lemma INPUT_BUF_dvd: "INPUT_BUF dvd 2 ^ 32"
  by (simp add: INPUT_BUF_def)

text \<open>Dropping the last byte of the current line.\<close>

lemma erase_one:
  assumes "cons_e s \<noteq> cons_w s"
  defines "t \<equiv> s\<lparr>cons_e := cons_e s - 1\<rparr>"
  shows "edit_input s = edit_input t @ [cons_buf s (unat (cons_e s - 1) mod INPUT_BUF)]"
    and "edit_len s = Suc (edit_len t)" and "done_input t = done_input s" and "done_len t = done_len s"
proof -
  show len: "edit_len s = Suc (edit_len t)"
    using unat_diff_Suc(2) [OF assms(1)] by (simp add: edit_len_def t_def)
  have "unat (cons_e s - 1) mod INPUT_BUF = (unat (cons_w s) + edit_len t) mod INPUT_BUF"
    using unat_add_mod [OF INPUT_BUF_dvd, of "cons_w s" "edit_len t"] by (simp add: edit_len_def t_def)
  then show "edit_input s = edit_input t @ [cons_buf s (unat (cons_e s - 1) mod INPUT_BUF)]"
    by (simp add: edit_input_def len ring_snoc) (simp add: t_def)
qed (simp_all add: t_def done_input_def done_len_def)

lemma edit_input_empty: "cons_e s = cons_w s \<longleftrightarrow> edit_input s = []"
proof -
  have "edit_input s = [] \<longleftrightarrow> cons_e s - cons_w s = 0"
    unfolding length_0_conv [symmetric] edit_input_def length_ring edit_len_def by (simp only: unat_eq_0)
  then show ?thesis by auto
qed

lemma erase_ok: "cons_ok s \<Longrightarrow> cons_e s \<noteq> cons_w s \<Longrightarrow> cons_ok (s\<lparr>cons_e := cons_e s - 1\<rparr>)"
  using erase_one [of s] by (simp add: cons_ok_def)

lemma kill_line_ok:
  "kill_line D s = Some t \<Longrightarrow> cons_ok s \<Longrightarrow> cons_ok t \<and> edit_input t = [] \<and> done_input t = done_input s"
proof (induction rule: kill_line.raw_induct [rotated, consumes 1])
  case (1 f D s t)
  show ?case
  proof (cases "cons_e s = cons_w s")
    case True
    then show ?thesis using 1(2,3) edit_input_empty [of s] by simp
  next
    case False
    let ?u = "s\<lparr>cons_e := cons_e s - 1\<rparr>"
    have "cons_buf s (unat (cons_e s - 1) mod INPUT_BUF) \<noteq> 10"
      using erase_one(1) [OF False] 1(3) by (auto simp: cons_ok_def)
    then obtain v where v: "consputc D BACKSPACE ?u = Some v" "f D v = Some t"
      using 1(2) False by auto
    note S = same_input_sel [OF consputc_same [OF v(1)]]
    show ?thesis using 1(1) [OF v(2)] erase_ok [OF 1(3) False] erase_one(3) [OF False] S(5,9) by simp
  qed
qed

lemma unat_add_no_wrap: "unat a + unat b < 2 ^ 32 \<Longrightarrow> unat (a + b :: u32) = unat a + unat b"
  by (simp add: unat_word_ariths)

lemma input_len: "cons_ok s \<Longrightarrow> unat (cons_e s - cons_r s) = done_len s + edit_len s"
  using unat_add_no_wrap [of "cons_w s - cons_r s" "cons_e s - cons_w s"]
  by (simp add: cons_ok_def done_len_def edit_len_def INPUT_BUF_def)

lemma input_all:
  "done_input s @ edit_input s = ring INPUT_BUF (cons_buf s) (cons_r s) (done_len s + edit_len s)"
  using ring_append [OF INPUT_BUF_dvd, of "cons_buf s" "cons_r s" "done_len s" "edit_len s"]
  by (simp add: done_input_def edit_input_def done_len_def)

lemma length_input [simp]: "length (done_input s) = done_len s" "length (edit_input s) = edit_len s"
  by (simp_all add: done_input_def edit_input_def)

lemma store_byte:
  fixes c :: u8
  assumes "cons_ok s" and "done_len s + edit_len s < INPUT_BUF"
  defines "t \<equiv> s\<lparr>cons_buf := (cons_buf s)(unat (cons_e s) mod INPUT_BUF := c), cons_e := cons_e s + 1\<rparr>"
  shows "done_input t = done_input s" and "edit_input t = edit_input s @ [c]" and "done_len t = done_len s"
    and "edit_len t = Suc (edit_len s)"
proof -
  have len: "edit_len t = Suc (edit_len s)" "done_len t = done_len s"
    using unat_diff_plus1 [of "cons_e s" "cons_w s"] assms(2)
    by (simp_all add: edit_len_def done_len_def t_def INPUT_BUF_def)
  have "unat (cons_e s) mod INPUT_BUF = (unat (cons_r s) + (done_len s + edit_len s)) mod INPUT_BUF"
    using unat_add_mod [OF INPUT_BUF_dvd, of "cons_r s" "done_len s + edit_len s"] input_len [OF assms(1), symmetric]
    by simp
  then have "done_input t @ edit_input t = (done_input s @ edit_input s) @ [c]"
    unfolding input_all len using ring_upd [OF assms(2)] by (simp add: t_def)
  then have "done_input t = done_input s \<and> edit_input t = edit_input s @ [c]"
    unfolding append_assoc by (subst (asm) append_eq_append_conv) (simp_all add: len)
  then show "done_input t = done_input s" "edit_input t = edit_input s @ [c]" by simp_all
  show "done_len t = done_len s" "edit_len t = Suc (edit_len s)" by (fact len)+
qed

lemma commit_line:
  assumes "done_len s + edit_len s \<le> INPUT_BUF"
  defines "t \<equiv> s\<lparr>cons_w := cons_e s, cons_sleep := False\<rparr>"
  shows "done_input t = done_input s @ edit_input s" and "edit_input t = []" and "cons_ok t"
proof -
  have "done_len t = done_len s + edit_len s"
    using unat_add_no_wrap [of "cons_w s - cons_r s" "cons_e s - cons_w s"] assms(1)
    by (simp add: done_len_def edit_len_def t_def INPUT_BUF_def)
  moreover show "edit_input t = []" by (simp add: edit_input_def edit_len_def t_def)
  moreover have "edit_len t = 0" by (simp add: edit_len_def t_def)
  ultimately show "done_input t = done_input s @ edit_input s" "cons_ok t"
    using assms(1) input_all [of s] input_all [of t] by (simp_all add: cons_ok_def) (simp add: t_def)
qed

lemma store_input_ok:
  assumes "cons_ok s" and "done_len s + edit_len s < INPUT_BUF" and "c \<noteq> 0" and "c \<noteq> 16" and "c \<noteq> 21"
    and "c \<noteq> 8" and "c \<noteq> 127" and "c \<noteq> 13"
  shows "cons_ok (store_input c s) \<and>
    (done_input (store_input c s), edit_input (store_input c s)) = edit_key c (done_input s, edit_input s)"
proof -
  let ?t = "s\<lparr>cons_buf := (cons_buf s)(unat (cons_e s) mod INPUT_BUF := c), cons_e := cons_e s + 1\<rparr>"
  note B = store_byte [OF assms(1,2), of c]
  have le: "done_len ?t + edit_len ?t \<le> INPUT_BUF" using B assms(2) by simp
  have "unat (cons_e ?t - cons_r ?t) = done_len ?t + edit_len ?t"
    using unat_add_no_wrap [of "cons_w ?t - cons_r ?t" "cons_e ?t - cons_w ?t"] le
    by (simp add: done_len_def edit_len_def INPUT_BUF_def)
  then have full: "cons_e ?t = cons_r ?t + of_nat INPUT_BUF \<longleftrightarrow> done_len ?t + edit_len ?t = INPUT_BUF"
    using unat_diff_eq [of INPUT_BUF "cons_e ?t" "cons_r ?t"] by (simp add: INPUT_BUF_def)
  show ?thesis
  proof (cases "c = 10 \<or> c = 4 \<or> cons_e ?t = cons_r ?t + of_nat INPUT_BUF")
    case True
    then have "store_input c s = ?t\<lparr>cons_w := cons_e ?t, cons_sleep := False\<rparr>"
      unfolding store_input_def Let_def if_P [OF True] by simp
    then show ?thesis using commit_line [OF le] B True full assms(2-) by (auto simp: edit_key_def)
  next
    case False
    then have "store_input c s = ?t" unfolding store_input_def Let_def if_not_P [OF False] by simp
    then show ?thesis using B False full assms le by (auto simp: edit_key_def cons_ok_def)
  qed
qed

lemma consoleintr_ok:
  assumes "cons_ok s" and "consoleintr D ps c s = Some t"
  shows "cons_ok t \<and> (done_input t, edit_input t) = edit_key c (done_input s, edit_input s)"
proof -
  have room: "cons_e s - cons_r s < of_nat INPUT_BUF \<longleftrightarrow> done_len s + edit_len s < INPUT_BUF"
    using input_len [OF assms(1)] by (simp add: word_less_nat_alt INPUT_BUF_def)
  have pr: "same_input s t" if "print_bytes D xs s = Some t" for xs s
    using that by (induction xs arbitrary: s) (auto dest!: consputc_same intro: same_input_trans)
  consider "c = 16" | "c = 21" | "c = 8 \<or> c = 127" | "c = 0 \<or> \<not> done_len s + edit_len s < INPUT_BUF"
      "c \<noteq> 16" "c \<noteq> 21" "c \<noteq> 8" "c \<noteq> 127"
    | "c \<noteq> 0" "done_len s + edit_len s < INPUT_BUF" "c \<noteq> 16" "c \<noteq> 21" "c \<noteq> 8" "c \<noteq> 127" by blast
  then show ?thesis
  proof cases
    case 1
    then show ?thesis using assms same_input_sel [OF pr] by (auto simp: consoleintr_def edit_key_def)
  next
    case 2
    then show ?thesis using assms kill_line_ok [of D s t] by (simp add: consoleintr_def edit_key_def)
  next
    case 3
    show ?thesis
    proof (cases "cons_e s = cons_w s")
      case True
      then show ?thesis using 3 assms edit_input_empty [of s] by (auto simp: consoleintr_def edit_key_def)
    next
      case False
      then have "consputc D BACKSPACE (s\<lparr>cons_e := cons_e s - 1\<rparr>) = Some t"
        using 3 assms(2) by (auto simp: consoleintr_def)
      note S = same_input_sel [OF consputc_same [OF this]]
      show ?thesis using S(5,6,9) erase_ok [OF assms(1) False] erase_one [OF False] 3 by (auto simp: edit_key_def)
    qed
  next
    case 4
    then show ?thesis using assms room by (auto simp: consoleintr_def edit_key_def)
  next
    case 5
    define c' :: u8 where "c' = (if c = 13 then 10 else c)"
    obtain u where u: "consputc D (unat c') s = Some u" "t = store_input c' u"
      using 5 assms(2) room by (auto simp: consoleintr_def c'_def Let_def)
    note S = same_input_sel [OF consputc_same [OF u(1)]]
    have "cons_ok u" "done_len u + edit_len u < INPUT_BUF" using S 5 assms(1) by simp_all
    from store_input_ok [OF this, of c'] show ?thesis using 5 S unfolding u(2)
      by (auto simp: c'_def edit_key_def split: if_splits)
  qed
qed

declare consoleread_from.simps [simp del] consolewrite_from.simps [simp del]

section \<open>Reading a line\<close>

lemma done_pop:
  assumes "cons_r s \<noteq> cons_w s"
  defines "t \<equiv> s\<lparr>cons_r := cons_r s + 1\<rparr>"
  shows "done_input s = cons_buf s (unat (cons_r s) mod INPUT_BUF) # done_input t" and "edit_input t = edit_input s"
proof -
  have "done_len s = Suc (done_len t)" using unat_diff_Suc(1) [of "cons_w s" "cons_r s"] assms by (simp add: done_len_def)
  then show "done_input s = cons_buf s (unat (cons_r s) mod INPUT_BUF) # done_input t"
    by (simp add: done_input_def ring_cons [OF INPUT_BUF_dvd]) (simp add: t_def)
qed (simp add: t_def edit_input_def edit_len_def)

lemma done_empty: "cons_r s = cons_w s \<longleftrightarrow> done_input s = []"
proof -
  have "done_input s = [] \<longleftrightarrow> cons_w s - cons_r s = 0"
    unfolding length_0_conv [symmetric] done_input_def length_ring done_len_def by (simp only: unat_eq_0)
  then show ?thesis by auto
qed

lemma consoleread_from_line:
  assumes "user_room m root addr N" and "done_input s = l @ 10 # rest" and "10 \<notin> set l" and "4 \<notin> set l"
    and "int (length l) < n" and "i + length l < N"
  shows "\<exists>m' s'. consoleread_from killed root True target (addr + of_nat i) n m s =
      Some (CReturned (target - n + int (length l) + 1) m' s') \<and> done_input s' = rest \<and> edit_input s' = edit_input s \<and>
    (\<forall>x. user_byte m' root x =
       (if i \<le> unat (x - addr) \<and> unat (x - addr) < i + length l + 1 then Some ((l @ [10]) ! (unat (x - addr) - i))
        else user_byte m root x))"
  using assms
proof (induction l arbitrary: i n m s)
  case Nil
  have ne: "cons_r s \<noteq> cons_w s" using Nil.prems(2) done_empty [of s] by auto
  have c: "cons_buf s (unat (cons_r s) mod INPUT_BUF) = 10" "done_input (s\<lparr>cons_r := cons_r s + 1\<rparr>) = rest"
    using done_pop(1) [OF ne] Nil.prems(2) by simp_all
  obtain m' where m': "copyout root (addr + of_nat i) [10] m = Some (0, m')" "user_room m' root addr N"
    "\<forall>x. user_byte m' root x = (if unat (x - addr) = i then Some 10 else user_byte m root x)"
    using copyout_byte [OF Nil.prems(1), of i 10] Nil.prems(6) by auto
  show ?case using Nil.prems(5) ne c m' done_pop(2) [OF ne]
    by (subst consoleread_from.simps) (auto simp: Let_def either_copyout_def)
next
  case (Cons b l)
  have ne: "cons_r s \<noteq> cons_w s" using Cons.prems(2) done_empty [of s] by auto
  let ?t = "s\<lparr>cons_r := cons_r s + 1\<rparr>"
  have c: "cons_buf s (unat (cons_r s) mod INPUT_BUF) = b" "done_input ?t = l @ 10 # rest"
    using done_pop(1) [OF ne] Cons.prems(2) by simp_all
  obtain m' where m': "copyout root (addr + of_nat i) [b] m = Some (0, m')" "user_room m' root addr N"
    "\<forall>x. user_byte m' root x = (if unat (x - addr) = i then Some b else user_byte m root x)"
    using copyout_byte [OF Cons.prems(1), of i b] Cons.prems(6) by auto
  have step: "consoleread_from killed root True target (addr + of_nat i) n m s =
      consoleread_from killed root True target (addr + of_nat (Suc i)) (n - 1) m' ?t"
    using Cons.prems(3-5) ne c(1) m'(1)
    by (subst consoleread_from.simps) (simp add: Let_def either_copyout_def ac_simps)
  have "\<exists>m'' s'. consoleread_from killed root True target (addr + of_nat (Suc i)) (n - 1) m' ?t =
      Some (CReturned (target - (n - 1) + int (length l) + 1) m'' s') \<and> done_input s' = rest \<and>
      edit_input s' = edit_input ?t \<and>
      (\<forall>x. user_byte m'' root x =
       (if Suc i \<le> unat (x - addr) \<and> unat (x - addr) < Suc i + length l + 1
        then Some ((l @ [10]) ! (unat (x - addr) - Suc i)) else user_byte m' root x))"
    by (rule Cons.IH [OF m'(2) c(2)]) (use Cons.prems in auto)
  then obtain m'' s' where r: "consoleread_from killed root True target (addr + of_nat (Suc i)) (n - 1) m' ?t =
      Some (CReturned (target - (n - 1) + int (length l) + 1) m'' s')" "done_input s' = rest"
      "edit_input s' = edit_input ?t"
      "\<forall>x. user_byte m'' root x =
       (if Suc i \<le> unat (x - addr) \<and> unat (x - addr) < Suc i + length l + 1
        then Some ((l @ [10]) ! (unat (x - addr) - Suc i)) else user_byte m' root x)" by blast
  have u: "user_byte m'' root x =
       (if i \<le> unat (x - addr) \<and> unat (x - addr) < i + length (b # l) + 1
        then Some (((b # l) @ [10]) ! (unat (x - addr) - i)) else user_byte m root x)" for x
    using r(4) m'(3) by (cases "unat (x - addr) = i") (auto simp: nth_Cons')
  show ?case unfolding step r(1) using r(2,3) u done_pop(2) [OF ne] by (auto simp: algebra_simps)
qed

section \<open>Writing to a slow device\<close>

text \<open>A device that does not get ready for another byte.\<close>

definition busy :: "'d uart_ops \<Rightarrow> bool" where
  "busy D \<longleftrightarrow> (\<forall>d. fst (rd_reg D LSR d) AND LSR_TX_IDLE = 0)"

lemma uartstart_busy:
  assumes "busy D"
  shows "\<exists>d. uartstart D s = Some (s\<lparr>udev := d\<rparr>)"
proof -
  obtain v d where r: "rd_reg D LSR (udev s) = (v, d)" by fastforce
  then have "v AND LSR_TX_IDLE = 0" using assms unfolding busy_def by (metis fst_conv)
  then show ?thesis using r by (subst uartstart.simps) (auto simp: ReadReg_def intro: exI [of _ "udev s"])
qed

lemma consolewrite_busy:
  assumes "busy D" and "tx_ok s" and "\<not> panicked s" and "user_bytes m root addr bs" and "i \<le> length bs"
  shows "if length (txq s) + (length bs - i) \<le> 31
    then \<exists>s'. consolewrite_from D root True addr (int (length bs)) (int i) m s = Some (int (length bs), s') \<and>
      txq s' = txq s @ drop i bs
    else consolewrite_from D root True addr (int (length bs)) (int i) m s = None"
  using assms(2,3,5)
proof (induction "length bs - i" arbitrary: i s)
  case 0
  then have "i = length bs" by simp
  moreover have "length (txq s) \<le> 31" by (rule uartq.bound [OF 0(2)])
  ultimately show ?case by (subst (1 2) consolewrite_from.simps) simp
next
  case (Suc k)
  then have i: "i < length bs" by simp
  have "unat (addr + of_nat i) + 1 < 2 ^ 64"
    using assms(4) i by (simp add: user_bytes_def unat_plus_no_wrap)
  then have c: "copyin root (addr + of_nat i) 1 m = Some (Inr [bs ! i])"
    using assms(4) i by (intro copyin_byte) (simp_all add: user_bytes_def)
  show ?case
  proof (cases "tx_full s")
    case True
    then have "\<not> length (txq s) + (length bs - i) \<le> 31" using tx_full_iff [OF Suc.prems(1)] i by simp
    then show ?thesis using True i c Suc.prems(2)
      by (simp only: if_False) (subst consolewrite_from.simps, simp add: either_copyin_def uartputc_def)
  next
    case False
    have l: "length (txq s) < 31" using False tx_full_iff [OF Suc.prems(1)] uartq.bound [OF Suc.prems(1)] by simp
    note p = uartq.push_law [OF Suc.prems(1) l, of "bs ! i"]
    obtain d where d: "uartstart D (tx_put (bs ! i) s) = Some ((tx_put (bs ! i) s)\<lparr>udev := d\<rparr>)"
      using uartstart_busy [OF assms(1)] by blast
    let ?t = "(tx_put (bs ! i) s)\<lparr>udev := d\<rparr>"
    have step: "consolewrite_from D root True addr (int (length bs)) (int i) m s =
        consolewrite_from D root True addr (int (length bs)) (int (Suc i)) m ?t"
      using i c d False Suc.prems(2)
      by (subst consolewrite_from.simps) (simp add: either_copyin_def uartputc_def add.commute)
    have k: "k = length bs - Suc i" using Suc.hyps(2) by simp
    have t: "tx_ok ?t" "\<not> panicked ?t" "Suc i \<le> length bs" "txq ?t = txq s @ [bs ! i]"
      using p Suc.prems(2) i by (simp_all add: tx_put_def)
    have d: "drop i bs = bs ! i # drop (Suc i) bs" using i by (simp add: Cons_nth_drop_Suc)
    have e: "length (txq ?t) + (length bs - Suc i) = length (txq s) + (length bs - i)"
      unfolding t(4) using i by simp
    show ?thesis using Suc.hyps(1) [OF k t(1-3)] unfolding step e unfolding t(4) d
      by (simp cong: if_cong)
  qed
qed

section \<open>Properties\<close>


text \<open>
  C19. \<^verbatim>\<open>consoleread\<close> returns a line at a time: if a finished line is waiting and fits,
  it is copied to the caller with its newline, its length is returned, and exactly these bytes
  are taken from the input; later input and all other user memory are unchanged.
\<close>

theorem consoleread_line:
  assumes "user_room m root addr N" and "done_input s = l @ 10 # rest" and "10 \<notin> set l" and "4 \<notin> set l"
    and "int (length l) < n" and "length l < N"
  shows "\<exists>m' s'. consoleread killed root True addr n m s = Some (CReturned (int (length l) + 1) m' s') \<and>
    done_input s' = rest \<and> edit_input s' = edit_input s \<and>
    (\<forall>x. user_byte m' root x =
       (if unat (x - addr) < length l + 1 then Some ((l @ [10]) ! unat (x - addr)) else user_byte m root x))"
  using consoleread_from_line [OF assms(1-5), of 0 killed n] assms(6)
  by (simp add: consoleread_def cong: if_cong)

text \<open>
  The transmit buffer of the UART loses and reorders nothing: \<^verbatim>\<open>uartputc\<close> either
  finds the buffer full and sleeps with the queue unchanged, or it takes the character, and
  what has gone to the transmit register followed by what is still buffered is what was
  buffered followed by the character, for any behaviour of the device.
\<close>

theorem uartputc_fifo:
  assumes "tx_ok s" and "\<not> panicked s"
  shows "if length (txq s) = 31
    then \<exists>s'. uartputc (traced D) c s = Some (False, s') \<and> txq s' = txq s \<and> sent s' = sent s
    else \<exists>s' out. uartputc (traced D) c s = Some (True, s') \<and> tx_ok s' \<and>
      sent s' = sent s @ out \<and> out @ txq s' = txq s @ [c]"
proof (cases "tx_full s")
  case True
  have "txq (s\<lparr>tx_sleep := True\<rparr>) = txq s" by (simp add: txq_def tx_len_def)
  then show ?thesis using True assms tx_full_iff [OF assms(1)] by (simp add: uartputc_def)
next
  case False
  then have l: "length (txq s) < 31" using tx_full_iff [OF assms(1)] uartq.bound [OF assms(1)] by simp
  note p = uartq.push_law [OF assms(1) l, of c]
  obtain s' out where "uartstart (traced D) (tx_put c s) = Some s'" "tx_ok s'"
    "sent s' = sent (tx_put c s) @ out" "out @ txq s' = txq (tx_put c s)"
    using uartstart_ok [OF conjunct1 [OF p]] by blast
  moreover have "sent (tx_put c s) = sent s" by (simp add: tx_put_def)
  ultimately show ?thesis using False assms(2) p l by (auto simp: uartputc_def)
qed

text \<open>
  A write to the console that outruns the device panics: \<^verbatim>\<open>consolewrite\<close> holds
  \<^verbatim>\<open>cons.lock\<close> when \<^verbatim>\<open>uartputc\<close> sleeps on the full buffer. While the device
  accepts no byte, a write succeeds exactly if the bytes fit into the rest of the 31-byte
  transmit queue.
\<close>

theorem consolewrite_panics_when_full:
  assumes "busy D" and "tx_ok s" and "\<not> panicked s" and "user_bytes m root addr bs"
  shows "if length (txq s) + length bs \<le> 31
    then \<exists>s'. consolewrite D root True addr (int (length bs)) m s = Some (int (length bs), s') \<and>
      txq s' = txq s @ bs
    else consolewrite D root True addr (int (length bs)) m s = None"
  using consolewrite_busy [OF assms, of 0] by (simp add: consolewrite_def cong: if_cong)

definition demo_uart :: "unit uart_ops" where
  "demo_uart = \<lparr>rd_reg = (\<lambda>r d. (0, d)), wr_reg = (\<lambda>r v d. d)\<rparr>"

definition demo_console :: "'d \<Rightarrow> 'd console" where
  "demo_console d = \<lparr>udev = d, panicked = False, tx_buf = (\<lambda>_. 0), tx_w = 0, tx_r = 0, tx_sleep = False,
     cons_buf = (\<lambda>_. 0), cons_r = - 1, cons_w = - 1, cons_e = - 1, cons_sleep = False\<rparr>"

lemma demo_console_ok: "tx_ok (demo_console d)" "\<not> panicked (demo_console d)" "txq (demo_console d) = []"
    "cons_ok (demo_console d)" "done_input (demo_console d) = []" "edit_input (demo_console d) = []"
  by (simp_all add: demo_console_def tx_ok_def UART_TX_BUF_SIZE_def txq_def tx_len_def cons_ok_def done_input_def
      edit_input_def done_len_def edit_len_def)


theorem consoleread_line_witness:
  "\<exists>m' s'. consoleread False demo_root True 0 9 demo (store_input 10 (demo_console ())) = Some (CReturned 1 m' s') \<and>
     done_input s' = [] \<and> user_byte m' demo_root 0 = Some 10"
proof -
  have "done_len (demo_console ()) + edit_len (demo_console ()) < INPUT_BUF"
    by (simp add: done_len_def edit_len_def INPUT_BUF_def demo_console_def)
  from store_input_ok [OF demo_console_ok(4) this, of 10]
  have d: "done_input (store_input 10 (demo_console ())) = [] @ 10 # []"
    by (simp add: demo_console_ok edit_key_def INPUT_BUF_def)
  show ?thesis using consoleread_line [OF demo_room d, of 9 9 False] by fastforce
qed

theorem uartputc_fifo_witness:
  "\<exists>s' out. uartputc (traced demo_uart) 65 (demo_console ((), [])) = Some (True, s') \<and>
     sent s' = out \<and> out @ txq s' = [65]"
proof -
  have q: "txq (demo_console ((), [] :: u8 list)) = []" and u: "sent (demo_console ((), [])) = []"
    by (simp_all add: demo_console_ok) (simp add: demo_console_def)
  show ?thesis
    using uartputc_fifo [OF demo_console_ok(1,2), of "((), [])" demo_uart 65] unfolding q u by auto
qed

theorem consolewrite_panics_when_full_witness:
  "consolewrite demo_uart demo_root True 0 32 demo (demo_console ()) = None"
proof -
  have b: "busy demo_uart" by (simp add: busy_def demo_uart_def)
  have "length (demo_bytes 32) = 32" by (simp add: demo_bytes_def)
  then show ?thesis
    using consolewrite_panics_when_full [OF b demo_console_ok(1,2) demo_user_bytes, of 32] by simp
qed

end
