(* ===== verification/Fs.thy ===== *)
theory Fs
  imports Log Locks Either_Copy
begin

text \<open>
  The file system, \<^verbatim>\<open>kernel/filesystem/fs.c\<close>: block allocator, inodes, file contents,
  directories and path names, as operations on the superblock, the log with the block contents
  the buffer cache shows (theory \<open>Log\<close>), and the inode cache. \<^verbatim>\<open>bread\<close> reads the
  visible contents of a block; a changed buffer is given to \<^verbatim>\<open>log_write\<close>. \<open>None\<close>
  means that the call does not return: a panic, or a wait for an inode lock that another process
  holds. Kernel-side buffers are byte lists; \<open>pid\<close> is the calling process.
\<close>

section \<open>State\<close>

definition FSMAGIC :: u32 where "FSMAGIC = 0x10203040"
definition NDIRECT :: nat where "NDIRECT = 11"
definition NINDIRECT :: nat where "NINDIRECT = BSIZE div 4"
definition NDINDIRECT :: nat where "NDINDIRECT = (BSIZE div 4) * (BSIZE div 4)"
definition MAXFILE :: nat where "MAXFILE = NDIRECT + NINDIRECT + NDINDIRECT"
definition NADDR_PER_BLOCK :: nat where "NADDR_PER_BLOCK = BSIZE div 4"
definition IPB :: nat where "IPB = BSIZE div 64"
definition BPB :: nat where "BPB = BSIZE * 8"
definition DIRSIZ :: nat where "DIRSIZ = 14"
definition ROOTINO :: u32 where "ROOTINO = 1"
definition ROOTDEV :: u32 where "ROOTDEV = 1"
definition T_DIR :: u8 where "T_DIR = 1"
definition T_FILE :: u8 where "T_FILE = 2"
definition T_DEVICE :: u8 where "T_DEVICE = 3"
definition T_SYMLINK :: u8 where "T_SYMLINK = 4"

record superblock =
  sb_magic :: u32
  sb_size :: u32
  sb_nblocks :: u32
  sb_ninodes :: u32
  sb_nlog :: u32
  sb_logstart :: u32
  sb_inodestart :: u32
  sb_bmapstart :: u32

record inode =
  i_dev :: u32
  i_inum :: u32
  i_ref :: int
  i_lock :: sleeplock
  i_valid :: bool
  i_type :: u8
  i_mode :: u8
  i_major :: u16
  i_minor :: u16
  i_nlink :: u16
  i_size :: u32
  i_addrs :: "nat \<Rightarrow> u32"

record fs =
  fs_sb :: superblock
  fs_log :: logst
  icache :: "nat \<Rightarrow> inode"

definition upd_inode :: "nat \<Rightarrow> (inode \<Rightarrow> inode) \<Rightarrow> fs \<Rightarrow> fs" where
  "upd_inode ip f s = s\<lparr>icache := (icache s)(ip := f (icache s ip))\<rparr>"

text \<open>Reading a block, and handing a changed one to the log.\<close>

definition bdata :: "nat \<Rightarrow> fs \<Rightarrow> block" where
  "bdata b s = l_view (fs_log s) b"

definition bput :: "nat \<Rightarrow> block \<Rightarrow> fs \<Rightarrow> fs option" where
  "bput b d s =
     (case log_write (of_nat b) (set_view b d (fs_log s)) of
        None \<Rightarrow> None
      | Some l \<Rightarrow> Some (s\<lparr>fs_log := l\<rparr>))"

primrec ofold :: "('a \<Rightarrow> 's \<Rightarrow> 's option) \<Rightarrow> 'a list \<Rightarrow> 's \<Rightarrow> 's option" where
  "ofold f [] s = Some s"
| "ofold f (x # xs) s = (case f x s of None \<Rightarrow> None | Some s \<Rightarrow> ofold f xs s)"

section \<open>Blocks\<close>

definition readsb :: "fs \<Rightarrow> superblock" where
  "readsb s =
     (let d = bdata 1 s
      in \<lparr>sb_magic = get32 0 d, sb_size = get32 4 d, sb_nblocks = get32 8 d, sb_ninodes = get32 12 d,
          sb_nlog = get32 16 d, sb_logstart = get32 20 d, sb_inodestart = get32 24 d,
          sb_bmapstart = get32 28 d\<rparr>)"

definition fsinit :: "fs \<Rightarrow> fs option" where
  "fsinit s =
     (let sb = readsb s; s = s\<lparr>fs_sb := sb\<rparr>
      in if sb_magic sb \<noteq> FSMAGIC then None
         else (case initlog (unat (sb_logstart sb)) (sint (sb_nlog sb)) (fs_log s) of
                 None \<Rightarrow> None
               | Some l \<Rightarrow> Some (s\<lparr>fs_log := l\<rparr>)))"

definition bzero :: "nat \<Rightarrow> fs \<Rightarrow> fs option" where
  "bzero b s = bput b (\<lambda>i. if i < BSIZE then 0 else bdata b s i) s"

definition BBLOCK :: "nat \<Rightarrow> fs \<Rightarrow> nat" where
  "BBLOCK b s = b div BPB + unat (sb_bmapstart (fs_sb s))"

definition IBLOCK :: "nat \<Rightarrow> fs \<Rightarrow> nat" where
  "IBLOCK i s = i div IPB + unat (sb_inodestart (fs_sb s))"

definition bit_used :: "block \<Rightarrow> nat \<Rightarrow> bool" where
  "bit_used d bi \<longleftrightarrow> d (bi div 8) AND push_bit (bi mod 8) 1 \<noteq> 0"

definition set_used :: "nat \<Rightarrow> block \<Rightarrow> block" where
  "set_used bi d = d(bi div 8 := d (bi div 8) OR push_bit (bi mod 8) 1)"

definition clear_used :: "nat \<Rightarrow> block \<Rightarrow> block" where
  "clear_used bi d = d(bi div 8 := d (bi div 8) AND NOT (push_bit (bi mod 8) 1))"

function balloc_from :: "nat \<Rightarrow> fs \<Rightarrow> (nat \<times> fs) option" where
  "balloc_from b s =
     (if b < unat (sb_size (fs_sb s)) then
        (case find (\<lambda>bi. \<not> bit_used (bdata (BBLOCK b s) s) bi) [0..<min BPB (unat (sb_size (fs_sb s)) - b)] of
           Some bi \<Rightarrow>
             do {
               s \<leftarrow> bput (BBLOCK b s) (set_used bi (bdata (BBLOCK b s) s)) s;
               s \<leftarrow> bzero (b + bi) s;
               Some (b + bi, s)
             }
         | None \<Rightarrow> balloc_from (b + BPB) s)
      else None)"
  by pat_completeness auto
termination
  by (relation "measure (\<lambda>(b, s). unat (sb_size (fs_sb s)) - b)") (auto simp: BPB_def BSIZE_def)

definition balloc :: "fs \<Rightarrow> (nat \<times> fs) option" where
  "balloc s = balloc_from 0 s"

definition bfree :: "nat \<Rightarrow> fs \<Rightarrow> fs option" where
  "bfree b s =
     (let d = bdata (BBLOCK b s) s; bi = b mod BPB
      in if \<not> bit_used d bi then None else bput (BBLOCK b s) (clear_used bi d) s)"

section \<open>Inodes\<close>

definition iinit :: "fs \<Rightarrow> fs" where
  "iinit s = fold (\<lambda>i. upd_inode i (\<lambda>x. x\<lparr>i_lock := initsleeplock (i_lock x)\<rparr>)) [0..<NINODE] s"

text \<open>The first slot that is free and lies before the entry found, as the scan remembers it.\<close>

definition iget :: "u32 \<Rightarrow> u32 \<Rightarrow> fs \<Rightarrow> (nat \<times> fs) option" where
  "iget dev inum s =
     (case find (\<lambda>ip. i_ref (icache s ip) > 0 \<and> i_dev (icache s ip) = dev \<and> i_inum (icache s ip) = inum) [0..<NINODE] of
        Some ip \<Rightarrow> Some (ip, upd_inode ip (\<lambda>x. x\<lparr>i_ref := i_ref x + 1\<rparr>) s)
      | None \<Rightarrow>
          (case find (\<lambda>ip. i_ref (icache s ip) = 0) [0..<NINODE] of
             None \<Rightarrow> None
           | Some ip \<Rightarrow>
               Some (ip, upd_inode ip (\<lambda>x. x\<lparr>i_dev := dev, i_inum := inum, i_ref := 1, i_valid := False\<rparr>) s)))"

definition idup :: "nat \<Rightarrow> fs \<Rightarrow> fs" where
  "idup ip s = upd_inode ip (\<lambda>x. x\<lparr>i_ref := i_ref x + 1\<rparr>) s"

text \<open>The 64 bytes of an on-disk inode: mode, type, major, minor, nlink, size, addrs.\<close>

definition dinode_off :: "nat \<Rightarrow> nat" where
  "dinode_off inum = (inum mod IPB) * 64"

definition put_addrs :: "nat \<Rightarrow> (nat \<Rightarrow> u32) \<Rightarrow> block \<Rightarrow> block" where
  "put_addrs i a d = fold (\<lambda>k. put32 (i + 12 + 4 * k) (a k)) [0..<NDIRECT + 2] d"

definition put_dinode :: "nat \<Rightarrow> inode \<Rightarrow> block \<Rightarrow> block" where
  "put_dinode i ip d =
     (let d = d(i + 1 := i_type ip);
          d = put16 (i + 2) (i_major ip) d;
          d = put16 (i + 4) (i_minor ip) d;
          d = put16 (i + 6) (i_nlink ip) d;
          d = put32 (i + 8) (i_size ip) d;
          d = d(i := i_mode ip)
      in put_addrs i (i_addrs ip) d)"

definition get_dinode :: "nat \<Rightarrow> block \<Rightarrow> inode \<Rightarrow> inode" where
  "get_dinode i d ip =
     ip\<lparr>i_type := d (i + 1), i_major := get16 (i + 2) d, i_minor := get16 (i + 4) d,
        i_nlink := get16 (i + 6) d, i_size := get32 (i + 8) d, i_mode := d i,
        i_addrs := (\<lambda>k. if k < NDIRECT + 2 then get32 (i + 12 + 4 * k) d else i_addrs ip k)\<rparr>"

definition ialloc :: "u32 \<Rightarrow> u8 \<Rightarrow> fs \<Rightarrow> (nat \<times> fs) option" where
  "ialloc dev type s =
     (case find (\<lambda>inum. bdata (IBLOCK inum s) s (dinode_off inum + 1) = 0) [1..<unat (sb_ninodes (fs_sb s))] of
        None \<Rightarrow> None
      | Some inum \<Rightarrow>
          let d = put_bytes (dinode_off inum) (replicate 64 0) (bdata (IBLOCK inum s) s);
              d = d(dinode_off inum + 1 := type, dinode_off inum := 3)
          in do {
            s \<leftarrow> bput (IBLOCK inum s) d s;
            iget dev (of_nat inum) s
          })"

definition iupdate :: "nat \<Rightarrow> fs \<Rightarrow> fs option" where
  "iupdate ip s =
     (let inum = unat (i_inum (icache s ip)); b = IBLOCK inum s
      in bput b (put_dinode (dinode_off inum) (icache s ip) (bdata b s)) s)"

definition ilock :: "int \<Rightarrow> nat \<Rightarrow> fs \<Rightarrow> fs option" where
  "ilock pid ip s =
     (if i_ref (icache s ip) < 1 then None
      else
        (case acquiresleep pid (i_lock (icache s ip)) of
           None \<Rightarrow> None
         | Some lk \<Rightarrow>
             let s = upd_inode ip (\<lambda>x. x\<lparr>i_lock := lk\<rparr>) s
             in if \<not> i_valid (icache s ip) then
                  let inum = unat (i_inum (icache s ip));
                      s = upd_inode ip (\<lambda>x. (get_dinode (dinode_off inum) (bdata (IBLOCK inum s) s) x)\<lparr>i_valid := True\<rparr>) s
                  in if i_type (icache s ip) = 0 then None else Some s
                else Some s))"

definition iunlock :: "int \<Rightarrow> nat \<Rightarrow> fs \<Rightarrow> fs option" where
  "iunlock pid ip s =
     (if \<not> holdingsleep pid (i_lock (icache s ip)) \<or> i_ref (icache s ip) < 1 then None
      else Some (upd_inode ip (\<lambda>x. x\<lparr>i_lock := releasesleep (i_lock x)\<rparr>) s))"

section \<open>File contents\<close>

text \<open>
  \<^verbatim>\<open>a[i]\<close> of the block \<open>addr\<close>, allocated if it is zero: one level of \<^verbatim>\<open>bmap\<close>.
\<close>

definition bmap_slot :: "nat \<Rightarrow> nat \<Rightarrow> fs \<Rightarrow> (nat \<times> fs) option" where
  "bmap_slot addr i s =
     (let a = unat (get32 (4 * i) (bdata addr s))
      in if a \<noteq> 0 then Some (a, s)
         else do {
           (a, s) \<leftarrow> balloc s;
           s \<leftarrow> bput addr (put32 (4 * i) (of_nat a) (bdata addr s)) s;
           Some (a, s)
         })"

definition bmap_addr :: "nat \<Rightarrow> nat \<Rightarrow> fs \<Rightarrow> (nat \<times> fs) option" where
  "bmap_addr ip k s =
     (let a = unat (i_addrs (icache s ip) k)
      in if a \<noteq> 0 then Some (a, s)
         else do {
           (a, s) \<leftarrow> balloc s;
           Some (a, upd_inode ip (\<lambda>x. x\<lparr>i_addrs := (i_addrs x)(k := of_nat a)\<rparr>) s)
         })"

definition bmap :: "nat \<Rightarrow> nat \<Rightarrow> fs \<Rightarrow> (nat \<times> fs) option" where
  "bmap ip bn s =
     (if bn < NDIRECT then bmap_addr ip bn s
      else
        let bn = bn - NDIRECT
        in if bn < NINDIRECT then do {
             (addr, s) \<leftarrow> bmap_addr ip NDIRECT s;
             bmap_slot addr bn s
           }
           else
             let bn = bn - NINDIRECT
             in if bn < NDINDIRECT then do {
                  (addr, s) \<leftarrow> bmap_addr ip (NDIRECT + 1) s;
                  (addr, s) \<leftarrow> bmap_slot addr (bn div NADDR_PER_BLOCK) s;
                  bmap_slot addr (bn mod NADDR_PER_BLOCK) s
                }
                else None)"

text \<open>Freeing the blocks an index block lists, and what else hangs below each of them.\<close>

definition free_slots :: "(nat \<Rightarrow> fs \<Rightarrow> fs option) \<Rightarrow> nat \<Rightarrow> nat \<Rightarrow> fs \<Rightarrow> fs option" where
  "free_slots f addr n s =
     ofold (\<lambda>j s. let a = unat (get32 (4 * j) (bdata addr s)) in if a = 0 then Some s else f a s) [0..<n] s"

definition set_addr0 :: "nat \<Rightarrow> nat \<Rightarrow> fs \<Rightarrow> fs" where
  "set_addr0 ip k s = upd_inode ip (\<lambda>x. x\<lparr>i_addrs := (i_addrs x)(k := 0)\<rparr>) s"

definition trunc_direct :: "nat \<Rightarrow> fs \<Rightarrow> fs option" where
  "trunc_direct ip s =
     ofold (\<lambda>i s. let a = unat (i_addrs (icache s ip) i)
                  in if a = 0 then Some s else map_option (set_addr0 ip i) (bfree a s)) [0..<NDIRECT] s"

definition trunc_indirect :: "nat \<Rightarrow> fs \<Rightarrow> fs option" where
  "trunc_indirect ip s =
     (let a = unat (i_addrs (icache s ip) NDIRECT)
      in if a = 0 then Some s
         else do {
           s \<leftarrow> free_slots bfree a NINDIRECT s;
           s \<leftarrow> bfree a s;
           Some (set_addr0 ip NDIRECT s)
         })"

definition trunc_double :: "nat \<Rightarrow> fs \<Rightarrow> fs option" where
  "trunc_double ip s =
     (let a = unat (i_addrs (icache s ip) (NDIRECT + 1))
      in if a = 0 then Some s
         else do {
           s \<leftarrow> free_slots (\<lambda>a1 s. do { s \<leftarrow> free_slots bfree a1 NADDR_PER_BLOCK s; bfree a1 s }) a NADDR_PER_BLOCK s;
           s \<leftarrow> bfree a s;
           Some (set_addr0 ip (NDIRECT + 1) s)
         })"

definition itrunc :: "nat \<Rightarrow> fs \<Rightarrow> fs option" where
  "itrunc ip s = do {
     s \<leftarrow> trunc_direct ip s;
     s \<leftarrow> trunc_indirect ip s;
     s \<leftarrow> trunc_double ip s;
     iupdate ip (upd_inode ip (\<lambda>x. x\<lparr>i_size := 0\<rparr>) s)
   }"

definition iput :: "int \<Rightarrow> nat \<Rightarrow> fs \<Rightarrow> fs option" where
  "iput pid ip s =
     do {
       s \<leftarrow> (if i_ref (icache s ip) = 1 \<and> i_valid (icache s ip) \<and> i_nlink (icache s ip) = 0 then
               (case acquiresleep pid (i_lock (icache s ip)) of
                  None \<Rightarrow> None
                | Some lk \<Rightarrow> do {
                    s \<leftarrow> itrunc ip (upd_inode ip (\<lambda>x. x\<lparr>i_lock := lk\<rparr>) s);
                    s \<leftarrow> iupdate ip (upd_inode ip (\<lambda>x. x\<lparr>i_type := 0\<rparr>) s);
                    Some (upd_inode ip (\<lambda>x. x\<lparr>i_valid := False, i_lock := releasesleep (i_lock x)\<rparr>) s)
                  })
             else Some s);
       Some (upd_inode ip (\<lambda>x. x\<lparr>i_ref := i_ref x - 1\<rparr>) s)
     }"

definition iunlockput :: "int \<Rightarrow> nat \<Rightarrow> fs \<Rightarrow> fs option" where
  "iunlockput pid ip s = do { s \<leftarrow> iunlock pid ip s; iput pid ip s }"

record stat =
  st_dev :: u32
  st_ino :: u32
  st_type :: u8
  st_mode :: u8
  st_nlink :: u16
  st_size :: u64

definition stati :: "inode \<Rightarrow> stat" where
  "stati ip = \<lparr>st_dev = i_dev ip, st_ino = i_inum ip, st_type = i_type ip, st_mode = i_mode ip,
     st_nlink = i_nlink ip, st_size = ucast (i_size ip)\<rparr>"

text \<open>
  Where \<^verbatim>\<open>readi\<close> copies to and \<^verbatim>\<open>writei\<close> from: a user address in a page
  table, or a kernel buffer. Bytes for the kernel buffer are appended to the list.
\<close>

datatype place = UserAddr u64 u64 | KernelBuf "u8 list"

definition copy_to :: "place \<Rightarrow> nat \<Rightarrow> u8 list \<Rightarrow> kmem \<Rightarrow> (int \<times> place \<times> kmem) option" where
  "copy_to p tot bs m =
     (case p of
        UserAddr root dst \<Rightarrow> map_option (\<lambda>(r, m). (r, p, m)) (either_copyout root True (dst + of_nat tot) bs m)
      | KernelBuf buf \<Rightarrow> Some (0, KernelBuf (buf @ bs), m))"

definition copy_from :: "place \<Rightarrow> nat \<Rightarrow> nat \<Rightarrow> kmem \<Rightarrow> (int + u8 list) option" where
  "copy_from p tot n m =
     (case p of
        UserAddr root src \<Rightarrow> either_copyin root True (src + of_nat tot) n m
      | KernelBuf buf \<Rightarrow> Some (Inr (take n (drop tot buf))))"

text \<open>
  The loops of \<^verbatim>\<open>readi\<close> and \<^verbatim>\<open>writei\<close> run after the checks that exclude an
  overflow of \<^verbatim>\<open>off + n\<close>, so their 32-bit arithmetic is that of the natural numbers.
\<close>

definition chunk :: "nat \<Rightarrow> nat \<Rightarrow> nat" where
  "chunk off n = min n (BSIZE - off mod BSIZE)"

lemma chunk_pos [simp]: "0 < n \<Longrightarrow> 0 < chunk off n"
  by (simp add: chunk_def BSIZE_def)

function readi_from ::
  "nat \<Rightarrow> nat \<Rightarrow> nat \<Rightarrow> nat \<Rightarrow> place \<Rightarrow> kmem \<Rightarrow> fs \<Rightarrow> (nat \<times> place \<times> kmem \<times> fs) option" where
  "readi_from ip off n tot p m s =
     (if tot < n then
        (case bmap ip (off div BSIZE) s of
           None \<Rightarrow> None
         | Some (b, s) \<Rightarrow>
             let k = chunk off (n - tot)
             in (case copy_to p tot (get_bytes (off mod BSIZE) k (bdata b s)) m of
                   None \<Rightarrow> None
                 | Some (r, p, m) \<Rightarrow>
                     if r = - 1 then Some (tot, p, m, s)
                     else readi_from ip (off + k) n (tot + k) p m s))
      else Some (tot, p, m, s))"
  by pat_completeness auto
termination
  by (relation "measure (\<lambda>(ip, off, n, tot, p, m, s). n - tot)") (auto intro!: diff_less_mono2)

definition readi :: "nat \<Rightarrow> place \<Rightarrow> u32 \<Rightarrow> u32 \<Rightarrow> kmem \<Rightarrow> fs \<Rightarrow> (nat \<times> place \<times> kmem \<times> fs) option" where
  "readi ip dst off n m s =
     (let size = i_size (icache s ip)
      in if off > size \<or> off + n < off then Some (0, dst, m, s)
         else
           let n = (if off + n > size then size - off else n)
           in readi_from ip (unat off) (unat n) 0 dst m s)"

text \<open>The result of the loop is the offset it reached.\<close>

function writei_from :: "nat \<Rightarrow> nat \<Rightarrow> nat \<Rightarrow> nat \<Rightarrow> place \<Rightarrow> kmem \<Rightarrow> fs \<Rightarrow> (nat \<times> fs) option" where
  "writei_from ip off n tot p m s =
     (if tot < n then
        (case bmap ip (off div BSIZE) s of
           None \<Rightarrow> None
         | Some (b, s) \<Rightarrow>
             let k = chunk off (n - tot)
             in (case copy_from p tot k m of
                   None \<Rightarrow> None
                 | Some (Inl e) \<Rightarrow> Some (off, s)
                 | Some (Inr bs) \<Rightarrow>
                     (case bput b (put_bytes (off mod BSIZE) bs (bdata b s)) s of
                        None \<Rightarrow> None
                      | Some s \<Rightarrow> writei_from ip (off + k) n (tot + k) p m s)))
      else Some (off, s))"
  by pat_completeness auto
termination
  by (relation "measure (\<lambda>(ip, off, n, tot, p, m, s). n - tot)") (auto intro!: diff_less_mono2)

definition writei :: "nat \<Rightarrow> place \<Rightarrow> u32 \<Rightarrow> u32 \<Rightarrow> kmem \<Rightarrow> fs \<Rightarrow> (int \<times> fs) option" where
  "writei ip src off n m s =
     (if off > i_size (icache s ip) \<or> off + n < off then Some (- 1, s)
      else if unat (off + n) > MAXFILE * BSIZE then Some (- 1, s)
      else do {
        (off', s) \<leftarrow> writei_from ip (unat off) (unat n) 0 src m s;
        s \<leftarrow> (if n > 0 then
                iupdate ip (if off' > unat (i_size (icache s ip))
                            then upd_inode ip (\<lambda>x. x\<lparr>i_size := of_nat off'\<rparr>) s else s)
              else Some s);
        Some (sint n, s)
      })"

section \<open>Directories\<close>

text \<open>C strings are byte lists; past the end of the list there is the terminating NUL.\<close>

definition hd0 :: "u8 list \<Rightarrow> u8" where
  "hd0 xs = (if xs = [] then 0 else hd xs)"

primrec strncmp_list :: "nat \<Rightarrow> u8 list \<Rightarrow> u8 list \<Rightarrow> int" where
  "strncmp_list 0 p q = 0"
| "strncmp_list (Suc n) p q =
     (if hd0 p \<noteq> 0 \<and> hd0 p = hd0 q then strncmp_list n (tl p) (tl q) else uint (hd0 p) - uint (hd0 q))"

primrec strncpy_list :: "nat \<Rightarrow> u8 list \<Rightarrow> u8 list" where
  "strncpy_list 0 t = []"
| "strncpy_list (Suc n) t = (if hd0 t = 0 then replicate (Suc n) 0 else hd0 t # strncpy_list n (tl t))"

definition namecmp :: "u8 list \<Rightarrow> u8 list \<Rightarrow> int" where
  "namecmp p q = strncmp_list DIRSIZ p q"

text \<open>A directory entry: the inode number and the name, 16 bytes.\<close>

definition de_inum :: "u8 list \<Rightarrow> u16" where
  "de_inum de = ucast (de ! 0) OR push_bit 8 (ucast (de ! 1))"

definition de_name :: "u8 list \<Rightarrow> u8 list" where
  "de_name de = drop 2 de"

definition mk_dirent :: "u32 \<Rightarrow> u8 list \<Rightarrow> u8 list" where
  "mk_dirent inum name = [ucast inum, ucast (drop_bit 8 inum)] @ strncpy_list DIRSIZ name"

definition read_dirent :: "nat \<Rightarrow> nat \<Rightarrow> kmem \<Rightarrow> fs \<Rightarrow> (u8 list \<times> fs) option" where
  "read_dirent dp off m s =
     (case readi dp (KernelBuf []) (of_nat off) 16 m s of
        Some (r, KernelBuf de, m, s) \<Rightarrow> if r = 16 then Some (de, s) else None
      | _ \<Rightarrow> None)"

text \<open>
  The scan for a name returns the offset and inode number; the scan for a free entry the
  offset, which is the size if there is none.
\<close>

function dir_find :: "nat \<Rightarrow> u8 list \<Rightarrow> nat \<Rightarrow> kmem \<Rightarrow> nat \<Rightarrow> fs \<Rightarrow> ((nat \<times> u16) option \<times> fs) option" where
  "dir_find dp name off m sz s =
     (if off < sz then
        (case read_dirent dp off m s of
           None \<Rightarrow> None
         | Some (de, s) \<Rightarrow>
             if de_inum de \<noteq> 0 \<and> namecmp name (de_name de) = 0 then Some (Some (off, de_inum de), s)
             else dir_find dp name (off + 16) m sz s)
      else Some (None, s))"
  by pat_completeness auto
termination
  by (relation "measure (\<lambda>(dp, name, off, m, sz, s). sz - off)") auto

function dir_free :: "nat \<Rightarrow> nat \<Rightarrow> kmem \<Rightarrow> nat \<Rightarrow> fs \<Rightarrow> (nat \<times> fs) option" where
  "dir_free dp off m sz s =
     (if off < sz then
        (case read_dirent dp off m s of
           None \<Rightarrow> None
         | Some (de, s) \<Rightarrow> if de_inum de = 0 then Some (off, s) else dir_free dp (off + 16) m sz s)
      else Some (off, s))"
  by pat_completeness auto
termination
  by (relation "measure (\<lambda>(dp, off, m, sz, s). sz - off)") auto

text \<open>The result is the inode, or \<open>None\<close> inside for the null pointer, with the offset.\<close>

definition dirlookup :: "nat \<Rightarrow> u8 list \<Rightarrow> kmem \<Rightarrow> fs \<Rightarrow> ((nat \<times> nat) option \<times> fs) option" where
  "dirlookup dp name m s =
     (if i_type (icache s dp) \<noteq> T_DIR then None
      else
        (case dir_find dp name 0 m (unat (i_size (icache s dp))) s of
           None \<Rightarrow> None
         | Some (None, s) \<Rightarrow> Some (None, s)
         | Some (Some (off, inum), s) \<Rightarrow>
             map_option (\<lambda>(ip, s). (Some (ip, off), s)) (iget (i_dev (icache s dp)) (ucast inum) s)))"

definition dirlink :: "int \<Rightarrow> nat \<Rightarrow> u8 list \<Rightarrow> u32 \<Rightarrow> kmem \<Rightarrow> fs \<Rightarrow> (int \<times> fs) option" where
  "dirlink pid dp name inum m s =
     (case dirlookup dp name m s of
        None \<Rightarrow> None
      | Some (Some (ip, off), s) \<Rightarrow> map_option (Pair (- 1)) (iput pid ip s)
      | Some (None, s) \<Rightarrow>
          do {
            (off, s) \<leftarrow> dir_free dp 0 m (unat (i_size (icache s dp))) s;
            (r, s) \<leftarrow> writei dp (KernelBuf (mk_dirent inum name)) (of_nat off) 16 m s;
            if r \<noteq> 16 then None else Some (0, s)
          })"

section \<open>Paths\<close>

abbreviation slash :: u8 where "slash \<equiv> 47"

definition skipelem :: "u8 list \<Rightarrow> (u8 list \<times> u8 list) option" where
  "skipelem path =
     (let path = dropWhile (\<lambda>c. c = slash) path
      in if hd0 path = 0 then None
         else
           let elem = takeWhile (\<lambda>c. c \<noteq> slash \<and> c \<noteq> 0) path;
               path = dropWhile (\<lambda>c. c \<noteq> slash \<and> c \<noteq> 0) path
           in Some (if length elem \<ge> DIRSIZ then take DIRSIZ elem else elem, dropWhile (\<lambda>c. c = slash) path))"

lemma skipelem_shorter: "skipelem path = Some (name, rest) \<Longrightarrow> length rest < length path"
proof -
  assume s: "skipelem path = Some (name, rest)"
  let ?p = "dropWhile (\<lambda>c. c = slash) path"
  have p: "?p \<noteq> []" "hd ?p \<noteq> 0" using s by (auto simp: skipelem_def hd0_def Let_def split: if_splits)
  then have "hd ?p \<noteq> slash" using hd_dropWhile [of "\<lambda>c. c = slash" path] by simp
  then have "length (dropWhile (\<lambda>c. c \<noteq> slash \<and> c \<noteq> 0) ?p) < length ?p"
    using p by (cases ?p) (auto simp: le_imp_less_Suc length_dropWhile_le)
  moreover have "rest = dropWhile (\<lambda>c. c = slash) (dropWhile (\<lambda>c. c \<noteq> slash \<and> c \<noteq> 0) ?p)"
    using s by (auto simp: skipelem_def Let_def split: if_splits)
  ultimately show ?thesis
    using length_dropWhile_le [of "\<lambda>c. c = slash" path]
      length_dropWhile_le [of "\<lambda>c. c = slash" "dropWhile (\<lambda>c. c \<noteq> slash \<and> c \<noteq> 0) ?p"] by simp
qed

text \<open>
  The loop of \<^verbatim>\<open>namex\<close> from inode \<open>ip\<close>. The result is the inode and the last name,
  or \<open>None\<close> inside for the null pointer.
\<close>

function namex_from ::
  "int \<Rightarrow> bool \<Rightarrow> u8 list \<Rightarrow> u8 list \<Rightarrow> nat \<Rightarrow> kmem \<Rightarrow> fs \<Rightarrow> ((nat \<times> u8 list) option \<times> fs) option" where
  "namex_from pid parent path name ip m s =
     (case skipelem path of
        None \<Rightarrow>
          if parent then map_option (Pair None) (iput pid ip s) else Some (Some (ip, name), s)
      | Some (name, path) \<Rightarrow>
          (case ilock pid ip s of
             None \<Rightarrow> None
           | Some s \<Rightarrow>
               if i_type (icache s ip) \<noteq> T_DIR then map_option (Pair None) (iunlockput pid ip s)
               else if parent \<and> hd0 path = 0 then map_option (Pair (Some (ip, name))) (iunlock pid ip s)
               else
                 (case dirlookup ip name m s of
                    None \<Rightarrow> None
                  | Some (None, s) \<Rightarrow> map_option (Pair None) (iunlockput pid ip s)
                  | Some (Some (nxt, off), s) \<Rightarrow>
                      (case iunlockput pid ip s of
                         None \<Rightarrow> None
                       | Some s \<Rightarrow> namex_from pid parent path name nxt m s))))"
  by pat_completeness auto
termination
  by (relation "measure (\<lambda>(pid, parent, path, name, ip, m, s). length path)") (auto dest: skipelem_shorter)

definition namex :: "int \<Rightarrow> bool \<Rightarrow> u8 list \<Rightarrow> nat \<Rightarrow> kmem \<Rightarrow> fs \<Rightarrow> ((nat \<times> u8 list) option \<times> fs) option" where
  "namex pid parent path cwd m s =
     (if hd0 path = slash
      then (case iget ROOTDEV ROOTINO s of
              None \<Rightarrow> None
            | Some (ip, s) \<Rightarrow> namex_from pid parent path [] ip m s)
      else namex_from pid parent path [] cwd m (idup cwd s))"

definition namei :: "int \<Rightarrow> u8 list \<Rightarrow> nat \<Rightarrow> kmem \<Rightarrow> fs \<Rightarrow> (nat option \<times> fs) option" where
  "namei pid path cwd m s = map_option (\<lambda>(r, s). (map_option fst r, s)) (namex pid False path cwd m s)"

definition nameiparent :: "int \<Rightarrow> u8 list \<Rightarrow> nat \<Rightarrow> kmem \<Rightarrow> fs \<Rightarrow> ((nat \<times> u8 list) option \<times> fs) option" where
  "nameiparent pid path cwd m s = namex pid True path cwd m s"

end
