(* ===== verification/Fs_Alloc.thy ===== *)
theory Fs_Alloc
  imports Fs
begin

text \<open>
  Correctness of the block allocator, of the on-disk inode format and of the inode cache of
  \<^verbatim>\<open>fs.c\<close>.
\<close>

declare balloc_from.simps [simp del] readi_from.simps [simp del] writei_from.simps [simp del]
  dir_find.simps [simp del] dir_free.simps [simp del] namex_from.simps [simp del]

section \<open>Log writes\<close>

lemma upd_inode_sel [simp]:
  "fs_sb (upd_inode ip f s) = fs_sb s" "fs_log (upd_inode ip f s) = fs_log s"
  "icache (upd_inode ip f s) = (icache s)(ip := f (icache s ip))" "bdata b (upd_inode ip f s) = bdata b s"
  by (simp_all add: upd_inode_def bdata_def)

lemma log_write_view: "log_write b l = Some l' \<Longrightarrow> l_view l' = l_view l"
  by (auto simp: log_write_def Let_def split: if_splits)

lemma bput_sel:
  assumes "bput b d s = Some t"
  shows "bdata c t = (if c = b then d else bdata c s)" and "fs_sb t = fs_sb s" and "icache t = icache s"
  using assms log_write_view by (auto simp: bput_def bdata_def split: option.splits)

text \<open>The transaction can still log \<open>k\<close> blocks.\<close>

definition log_room :: "nat \<Rightarrow> fs \<Rightarrow> bool" where
  "log_room k s \<longleftrightarrow> 0 \<le> l_n (fs_log s) \<and> l_n (fs_log s) + int k \<le> int LOGSIZE \<and>
     l_n (fs_log s) + int k \<le> l_size (fs_log s) - 1 \<and> 1 \<le> l_outstanding (fs_log s)"

lemma log_room_mono: "log_room k s \<Longrightarrow> j \<le> k \<Longrightarrow> log_room j s"
  by (auto simp: log_room_def)

lemma log_room_upd [simp]: "log_room k (upd_inode ip f s) = log_room k s"
  by (simp add: log_room_def)

lemma bput_room:
  assumes "log_room (Suc k) s"
  shows "\<exists>t. bput b d s = Some t \<and> log_room k t"
proof -
  let ?l = "set_view b d (fs_log s)"
  have "\<not> (l_n ?l \<ge> int LOGSIZE \<or> l_n ?l \<ge> l_size ?l - 1)" "\<not> l_outstanding ?l < 1"
    using assms by (auto simp: log_room_def)
  then obtain l where l: "log_write (of_nat b) ?l = Some l" "l_n l \<le> l_n ?l + 1" "l_n ?l \<le> l_n l"
    "l_size l = l_size ?l" "l_outstanding l = l_outstanding ?l"
    by (auto simp: log_write_def Let_def)
  then show ?thesis using assms by (auto simp: bput_def log_room_def)
qed

section \<open>The bitmap\<close>

lemma bit_used_bit: "bit_used d bi \<longleftrightarrow> bit (d (bi div 8)) (bi mod 8)"
  by (simp add: bit_used_def bit_iff_and_push_bit_not_eq_0)

lemma bit_set_used: "bit_used (set_used bi d) bj \<longleftrightarrow> bj = bi \<or> bit_used d bj"
proof (cases "bj div 8 = bi div 8")
  case True
  then have "bj = bi \<longleftrightarrow> bj mod 8 = bi mod 8" by (metis div_mult_mod_eq)
  then show ?thesis using True by (auto simp: bit_used_bit set_used_def bit_simps)
next
  case False
  then have "bj \<noteq> bi" by auto
  then show ?thesis using False by (simp add: bit_used_bit set_used_def)
qed

lemma bit_clear_used: "bit_used (clear_used bi d) bj \<longleftrightarrow> bj \<noteq> bi \<and> bit_used d bj"
proof (cases "bj div 8 = bi div 8")
  case True
  then have "bj = bi \<longleftrightarrow> bj mod 8 = bi mod 8" by (metis div_mult_mod_eq)
  then show ?thesis using True by (auto simp: bit_used_bit clear_used_def bit_simps)
next
  case False
  then have "bj \<noteq> bi" by auto
  then show ?thesis using False by (simp add: bit_used_bit clear_used_def)
qed

definition used :: "fs \<Rightarrow> nat \<Rightarrow> bool" where
  "used s b \<longleftrightarrow> bit_used (bdata (BBLOCK b s) s) (b mod BPB)"

abbreviation nblocks :: "fs \<Rightarrow> nat" where
  "nblocks s \<equiv> unat (sb_size (fs_sb s))"

definition is_bitmap :: "fs \<Rightarrow> nat \<Rightarrow> bool" where
  "is_bitmap s b \<longleftrightarrow> (\<exists>c < nblocks s. b = BBLOCK c s)"

text \<open>The bitmap marks its own blocks as used, as \<^verbatim>\<open>mkfs\<close> leaves it.\<close>

definition bitmap_ok :: "fs \<Rightarrow> bool" where
  "bitmap_ok s \<longleftrightarrow> (\<forall>b. is_bitmap s b \<longrightarrow> b < nblocks s \<and> used s b)"

lemma BBLOCK_cong: "fs_sb t = fs_sb s \<Longrightarrow> BBLOCK b t = BBLOCK b s"
  by (simp add: BBLOCK_def)

lemma is_bitmap_cong: "fs_sb t = fs_sb s \<Longrightarrow> is_bitmap t b = is_bitmap s b"
  by (simp add: is_bitmap_def BBLOCK_def)

lemma used_cong:
  assumes "fs_sb t = fs_sb s" and "\<And>c. is_bitmap s c \<Longrightarrow> bdata c t = bdata c s" and "b < nblocks s"
  shows "used t b = used s b"
proof -
  have "is_bitmap s (BBLOCK b s)" using assms(3) by (auto simp: is_bitmap_def)
  then show ?thesis using assms(2) by (simp add: used_def BBLOCK_cong [OF assms(1)])
qed

lemma used_upd_inode [simp]: "used (upd_inode ip f s) b = used s b"
  by (simp add: used_def BBLOCK_def)

lemma bitmap_ok_upd [simp]: "bitmap_ok (upd_inode ip f s) = bitmap_ok s"
  by (simp add: bitmap_ok_def is_bitmap_def BBLOCK_def)

lemma BBLOCK_eq: "b div BPB = c div BPB \<Longrightarrow> BBLOCK b s = BBLOCK c s"
  by (simp add: BBLOCK_def)

lemma BBLOCK_inj: "BBLOCK b s = BBLOCK c s \<longleftrightarrow> b div BPB = c div BPB"
  by (simp add: BBLOCK_def)

lemma used_after_bitmap_write:
  assumes "bput (BBLOCK b s) d s = Some t" and "\<And>bi. bit_used d bi \<longleftrightarrow> (if bi = b mod BPB then v else bit_used (bdata (BBLOCK b s) s) bi)"
  shows "used t c \<longleftrightarrow> (if c = b then v else used s c)"
proof (cases "c div BPB = b div BPB")
  case True
  then have "c = b \<longleftrightarrow> c mod BPB = b mod BPB" by (metis div_mult_mod_eq)
  then show ?thesis using assms bput_sel [OF assms(1)] BBLOCK_eq [OF True, of s]
    by (simp add: used_def BBLOCK_cong [OF bput_sel(2) [OF assms(1)]])
next
  case False
  then have "BBLOCK c s \<noteq> BBLOCK b s" "c \<noteq> b" using BBLOCK_inj by auto
  then show ?thesis using bput_sel [OF assms(1)]
    by (simp add: used_def BBLOCK_cong [OF bput_sel(2) [OF assms(1)]])
qed

text \<open>What an allocation of block \<open>b\<close> does.\<close>

definition allocated :: "nat \<Rightarrow> fs \<Rightarrow> fs \<Rightarrow> bool" where
  "allocated b s t \<longleftrightarrow> b < nblocks s \<and> \<not> used s b \<and>
     (\<forall>c < nblocks s. used t c \<longleftrightarrow> c = b \<or> used s c) \<and>
     (\<forall>i < BSIZE. bdata b t i = 0) \<and> (\<forall>c. c \<noteq> b \<longrightarrow> \<not> is_bitmap s c \<longrightarrow> bdata c t = bdata c s) \<and>
     fs_sb t = fs_sb s \<and> icache t = icache s"

lemma mark_and_zero:
  assumes ok: "bitmap_ok s" and b: "b < nblocks s" "\<not> used s b"
    and p: "bput (BBLOCK b s) (set_used (b mod BPB) (bdata (BBLOCK b s) s)) s = Some u"
    and z: "bzero b u = Some t"
  shows "allocated b s t"
proof -
  note P = bput_sel [OF p] and Z = bput_sel [OF z [unfolded bzero_def]]
  have nb: "\<not> is_bitmap s b" using ok b by (auto simp: bitmap_ok_def)
  have sb: "fs_sb t = fs_sb s" using P Z by simp
  have u: "used u c \<longleftrightarrow> c = b \<or> used s c" for c
    using used_after_bitmap_write [OF p, of True c] by (auto simp: bit_set_used)
  have "used t c \<longleftrightarrow> used u c" if "c < nblocks s" for c
    using nb that P(2) Z by (intro used_cong) (auto simp: is_bitmap_cong [OF P(2)])
  moreover have "bdata c t = bdata c s" if "c \<noteq> b" "\<not> is_bitmap s c" for c
    using that P(1) Z(1) b by (auto simp: is_bitmap_def)
  ultimately show ?thesis using b sb P Z u by (auto simp: allocated_def)
qed

lemma balloc_from_ok:
  assumes "bitmap_ok s" and "log_room (Suc (Suc k)) s" and "BPB dvd b" and "\<And>c. c < b \<Longrightarrow> c < nblocks s \<Longrightarrow> used s c"
  shows "(case balloc_from b s of
      None \<Rightarrow> \<forall>c < nblocks s. used s c
    | Some (a, t) \<Rightarrow> allocated a s t \<and> (\<forall>c < a. used s c) \<and> log_room k t)"
  using assms
proof (induction b s rule: balloc_from.induct)
  case (1 b s)
  show ?case
  proof (cases "b < nblocks s")
    case False
    then show ?thesis using 1(5) by (subst balloc_from.simps) auto
  next
    case True
    obtain q where q: "b = BPB * q" using 1(4) by (auto elim: dvdE)
    have pos: "0 < BPB" by (simp add: BPB_def BSIZE_def)
    have bm: "BBLOCK (b + i) s = BBLOCK b s" "(b + i) mod BPB = i" if "i < BPB" for i
      using that pos by (simp_all add: q BBLOCK_def)
    have uu: "used s (b + i) \<longleftrightarrow> bit_used (bdata (BBLOCK b s) s) i" if "i < BPB" for i
      using bm [OF that] by (simp add: used_def)
    show ?thesis
    proof (cases "find (\<lambda>bi. \<not> bit_used (bdata (BBLOCK b s) s) bi) [0..<min BPB (nblocks s - b)]")
      case None
      have "used s c" if "c < b + BPB" "c < nblocks s" for c
      proof (cases "c < b")
        case False
        then have "c - b < BPB" "c - b < nblocks s - b" using that by auto
        then show ?thesis using None uu [of "c - b"] False by (auto simp: find_None_iff)
      qed (use 1(5) that in blast)
      then show ?thesis using 1(1) [OF True None 1(2,3)] 1(4) True None
        by (subst balloc_from.simps) auto
    next
      case (Some bi)
      then have bi: "bi < BPB" "b + bi < nblocks s" "\<not> bit_used (bdata (BBLOCK b s) s) bi"
        "\<forall>j < bi. bit_used (bdata (BBLOCK b s) s) j"
        by (auto simp: find_Some_iff less_diff_conv)
      have fit: "used s c" if "c < b + bi" for c
      proof (cases "c < b")
        case False
        then have "c - b < bi" using that by auto
        then show ?thesis using bi(1,4) uu [of "c - b"] False by auto
      qed (use 1(5) that bi(2) in auto)
      obtain u where u: "bput (BBLOCK b s) (set_used bi (bdata (BBLOCK b s) s)) s = Some u" "log_room (Suc k) u"
        using bput_room [OF 1(3)] by blast
      obtain t where t: "bzero (b + bi) u = Some t" "log_room k t"
        using bput_room [OF u(2)] unfolding bzero_def by blast
      have "allocated (b + bi) s t"
        using u(1) t(1) bi uu [of bi] bm [OF bi(1)] by (intro mark_and_zero [OF 1(2)]) auto
      moreover have "balloc_from b s = Some (b + bi, t)"
        using True Some u(1) t(1) by (subst balloc_from.simps) auto
      ultimately show ?thesis using fit t(2) by simp
    qed
  qed
qed

lemma bfree_ok:
  assumes "log_room (Suc k) s" and "used s b" and "b < nblocks s"
  shows "\<exists>t. bfree b s = Some t \<and> log_room k t \<and> (\<forall>c. used t c \<longleftrightarrow> c \<noteq> b \<and> used s c) \<and>
    (\<forall>c. \<not> is_bitmap s c \<longrightarrow> bdata c t = bdata c s) \<and> fs_sb t = fs_sb s \<and> icache t = icache s"
proof -
  let ?d = "clear_used (b mod BPB) (bdata (BBLOCK b s) s)"
  obtain t where t: "bput (BBLOCK b s) ?d s = Some t" "log_room k t" using bput_room [OF assms(1)] by blast
  then have "bfree b s = Some t" using assms(2) by (simp add: bfree_def used_def Let_def)
  moreover have "used t c \<longleftrightarrow> c \<noteq> b \<and> used s c" for c
    using used_after_bitmap_write [OF t(1), of False c] by (auto simp: bit_clear_used)
  ultimately show ?thesis using t(2) bput_sel [OF t(1)] assms(3) by (auto simp: is_bitmap_def)
qed

text \<open>
  C26. \<^verbatim>\<open>balloc\<close> is a first-fit allocator: with room in the log it panics exactly if every
  block is in use; otherwise it returns the lowest free block, marks that block and no other as
  used, zeroes it and changes no other block except the bitmap.
\<close>

theorem balloc_first_fit:
  assumes "bitmap_ok s" and "log_room 2 s"
  shows "if \<forall>c < nblocks s. used s c then balloc s = None
    else \<exists>b t. balloc s = Some (b, t) \<and> (\<forall>c < b. used s c) \<and> \<not> used s b \<and> b < nblocks s \<and>
      (\<forall>c < nblocks s. used t c \<longleftrightarrow> c = b \<or> used s c) \<and> (\<forall>i < BSIZE. bdata b t i = 0) \<and>
      (\<forall>c. c \<noteq> b \<longrightarrow> \<not> is_bitmap s c \<longrightarrow> bdata c t = bdata c s)"
proof -
  have "log_room (Suc (Suc 0)) s" using assms(2) by (simp add: numeral_2_eq_2)
  from balloc_from_ok [OF assms(1) this, of 0] show ?thesis
    by (cases "balloc s") (auto simp: balloc_def allocated_def)
qed

text \<open>
  \<^verbatim>\<open>bfree\<close> undoes an allocation: freeing the block \<^verbatim>\<open>balloc\<close> returned
  succeeds and restores the set of used blocks; freeing a free block panics.
\<close>

theorem balloc_bfree:
  assumes "bitmap_ok s" and "log_room 3 s" and "balloc s = Some (b, t)"
  shows "\<exists>u. bfree b t = Some u \<and> (\<forall>c < nblocks s. used u c \<longleftrightarrow> used s c) \<and> bfree b u = None"
proof -
  have "log_room (Suc (Suc 1)) s" using assms(2) by (simp add: numeral_3_eq_3)
  from balloc_from_ok [OF assms(1) this, of 0] assms(3)
  have a: "allocated b s t" "log_room 1 t" by (auto simp: balloc_def)
  then have b: "used t b" "b < nblocks t" by (auto simp: allocated_def)
  obtain u where u: "bfree b t = Some u" "\<forall>c. used u c \<longleftrightarrow> c \<noteq> b \<and> used t c" "fs_sb u = fs_sb t"
    using bfree_ok [of 0 t b] a(2) b by auto
  have "bfree b u = None" using u(2) by (auto simp: bfree_def used_def Let_def)
  then show ?thesis using u a(1) by (auto simp: allocated_def)
qed

section \<open>The on-disk inode\<close>

lemma put_addrs_fold:
  "k \<le> NDIRECT + 2 \<Longrightarrow>
   (\<forall>j < k. get32 (i + 12 + 4 * j) (fold (\<lambda>k. put32 (i + 12 + 4 * k) (a k)) [0..<k] d) = a j) \<and>
   (\<forall>x. x < i + 12 \<or> i + 12 + 4 * k \<le> x \<longrightarrow> fold (\<lambda>k. put32 (i + 12 + 4 * k) (a k)) [0..<k] d x = d x)"
proof (induction k)
  case (Suc k)
  have "get32 (i + 12 + 4 * j) (put32 (i + 12 + 4 * k) (a k) h) = (if j = k then a k else get32 (i + 12 + 4 * j) h)" for j h
    by (cases "j < k"; cases "j = k") auto
  then show ?case using Suc by (auto simp: put32_outside less_Suc_eq)
qed simp

lemma put_addrs_sel:
  "j < NDIRECT + 2 \<Longrightarrow> get32 (i + 12 + 4 * j) (put_addrs i a d) = a j"
  "x < i + 12 \<or> i + 64 \<le> x \<Longrightarrow> put_addrs i a d x = d x"
  using put_addrs_fold [OF order_refl, of i a d] by (auto simp: put_addrs_def NDIRECT_def)

lemma get32_cong: "(\<And>x. i \<le> x \<Longrightarrow> x < i + 4 \<Longrightarrow> d x = e x) \<Longrightarrow> get32 i d = get32 i e"
  by (simp add: get32_def)

lemma get16_cong: "(\<And>x. i \<le> x \<Longrightarrow> x < i + 2 \<Longrightarrow> d x = e x) \<Longrightarrow> get16 i d = get16 i e"
  by (simp add: get16_def)

lemma get_upd_other [simp]:
  "x < i \<or> i + 4 \<le> x \<Longrightarrow> get32 i (d(x := v)) = get32 i d"
  "x < i \<or> i + 2 \<le> x \<Longrightarrow> get16 i (d(x := v)) = get16 i d"
  by (auto intro!: get32_cong get16_cong)

definition same_dinode :: "inode \<Rightarrow> inode \<Rightarrow> bool" where
  "same_dinode x y \<longleftrightarrow> i_type x = i_type y \<and> i_mode x = i_mode y \<and> i_major x = i_major y \<and> i_minor x = i_minor y \<and>
     i_nlink x = i_nlink y \<and> i_size x = i_size y \<and> (\<forall>k < NDIRECT + 2. i_addrs x k = i_addrs y k)"

lemma get_put_dinode: "same_dinode (get_dinode i (put_dinode i ip d) jp) ip"
proof -
  define h where "h = (put32 (i + 8) (i_size ip) (put16 (i + 6) (i_nlink ip) (put16 (i + 4) (i_minor ip)
    (put16 (i + 2) (i_major ip) (d(i + 1 := i_type ip))))))(i := i_mode ip)"
  have p: "put_dinode i ip d = put_addrs i (i_addrs ip) h" by (simp add: put_dinode_def h_def Let_def)
  have low: "put_dinode i ip d x = h x" if "x < i + 12" for x using that by (simp add: p put_addrs_sel)
  have "get16 (i + 2) (put_dinode i ip d) = get16 (i + 2) h" "get16 (i + 4) (put_dinode i ip d) = get16 (i + 4) h"
    "get16 (i + 6) (put_dinode i ip d) = get16 (i + 6) h" "get32 (i + 8) (put_dinode i ip d) = get32 (i + 8) h"
    by (auto intro!: get16_cong get32_cong low)
  moreover have "h i = i_mode ip" "h (i + 1) = i_type ip" "get16 (i + 2) h = i_major ip" "get16 (i + 4) h = i_minor ip"
    "get16 (i + 6) h = i_nlink ip" "get32 (i + 8) h = i_size ip"
    by (simp_all add: h_def put32_outside put16_outside)
  moreover have "get32 (i + 12 + 4 * k) (put_dinode i ip d) = i_addrs ip k" if "k < NDIRECT + 2" for k
    using that by (simp add: p put_addrs_sel)
  ultimately show ?thesis by (simp add: same_dinode_def get_dinode_def low)
qed

lemma put_dinode_outside: "x < i \<or> i + 64 \<le> x \<Longrightarrow> put_dinode i ip d x = d x"
  by (auto simp: put_dinode_def Let_def put_addrs_sel put32_outside put16_outside)

text \<open>Every other inode of the block keeps its contents.\<close>

lemma get_put_dinode_other:
  assumes "i + 64 \<le> j \<or> j + 64 \<le> i"
  shows "get_dinode j (put_dinode i ip d) jp = get_dinode j d jp"
proof -
  have b: "put_dinode i ip d x = d x" if "j \<le> x" "x < j + 64" for x
    using assms that by (intro put_dinode_outside) auto
  have "get32 (j + 12 + 4 * k) (put_dinode i ip d) = get32 (j + 12 + 4 * k) d" if "k < NDIRECT + 2" for k
    using that by (intro get32_cong b) (auto simp: NDIRECT_def)
  moreover have "get16 (j + 2) (put_dinode i ip d) = get16 (j + 2) d" "get16 (j + 4) (put_dinode i ip d) = get16 (j + 4) d"
    "get16 (j + 6) (put_dinode i ip d) = get16 (j + 6) d" "get32 (j + 8) (put_dinode i ip d) = get32 (j + 8) d"
    by (auto intro!: get16_cong get32_cong b)
  ultimately show ?thesis by (simp add: get_dinode_def b cong: if_cong)
qed

definition dinode_of :: "nat \<Rightarrow> fs \<Rightarrow> inode \<Rightarrow> inode" where
  "dinode_of inum s = get_dinode (dinode_off inum) (bdata (IBLOCK inum s) s)"

lemma IBLOCK_sb: "fs_sb t = fs_sb s \<Longrightarrow> IBLOCK i t = IBLOCK i s"
  by (simp add: IBLOCK_def)

lemma dinode_apart:
  assumes "m \<noteq> n" and "m div IPB = n div IPB"
  shows "dinode_off n + 64 \<le> dinode_off m \<or> dinode_off m + 64 \<le> dinode_off n"
proof -
  have "m mod IPB \<noteq> n mod IPB" using assms by (metis div_mult_mod_eq)
  then show ?thesis unfolding dinode_off_def by linarith
qed


section \<open>The inode cache\<close>

abbreviation ikey :: "fs \<Rightarrow> nat \<Rightarrow> u32 \<times> u32" where
  "ikey s ip \<equiv> (i_dev (icache s ip), i_inum (icache s ip))"

definition icache_ok :: "fs \<Rightarrow> bool" where
  "icache_ok s \<longleftrightarrow> (\<forall>ip < NINODE. 0 \<le> i_ref (icache s ip)) \<and>
     (\<forall>ip < NINODE. \<forall>jp < NINODE. 0 < i_ref (icache s ip) \<longrightarrow> 0 < i_ref (icache s jp) \<longrightarrow>
        ikey s ip = ikey s jp \<longrightarrow> ip = jp)"

lemma find_upt_Some: "find P [0..<n] = Some i \<Longrightarrow> i < n \<and> P i"
  by (auto simp: find_Some_iff)

lemma find_upt_None: "find P [0..<n] = None \<Longrightarrow> i < n \<Longrightarrow> \<not> P i"
  by (auto simp: find_None_iff)


section \<open>A small file system\<close>

text \<open>40 blocks: the bitmap in block 35 has every block but the last marked, inodes in block 33.\<close>

definition demo_fs :: fs where
  "demo_fs = \<lparr>fs_sb = \<lparr>sb_magic = FSMAGIC, sb_size = 40, sb_nblocks = 4, sb_ninodes = 16, sb_nlog = 31,
       sb_logstart = 2, sb_inodestart = 33, sb_bmapstart = 35\<rparr>,
     fs_log = (demo_log 31)\<lparr>l_outstanding := 1,
       l_view := (\<lambda>b i. if b = 35 then if i < 4 then 255 else if i = 4 then 127 else 0 else 0)\<rparr>,
     icache = (\<lambda>_. \<lparr>i_dev = 0, i_inum = 0, i_ref = 0, i_lock = \<lparr>sl_locked = False, sl_pid = 0\<rparr>, i_valid = False,
       i_type = 0, i_mode = 0, i_major = 0, i_minor = 0, i_nlink = 0, i_size = 0, i_addrs = (\<lambda>_. 0)\<rparr>)\<rparr>"

lemma demo_fs_sel [simp]: "fs_sb demo_fs = \<lparr>sb_magic = FSMAGIC, sb_size = 40, sb_nblocks = 4, sb_ninodes = 16,
    sb_nlog = 31, sb_logstart = 2, sb_inodestart = 33, sb_bmapstart = 35\<rparr>"
  "bdata b demo_fs = (\<lambda>i. if b = 35 then if i < 4 then 255 else if i = 4 then 127 else 0 else 0)"
  by (simp_all add: demo_fs_def bdata_def fun_eq_iff)

lemma demo_BBLOCK: "b < 40 \<Longrightarrow> BBLOCK b demo_fs = 35"
  by (simp add: BBLOCK_def BPB_def BSIZE_def)

lemma demo_used: "b < 40 \<Longrightarrow> used demo_fs b \<longleftrightarrow> b \<noteq> 39"
proof -
  assume b: "b < 40"
  have m: "(255 :: u8) = mask 8" "(127 :: u8) = mask 7" by (simp_all add: mask_eq_exp_minus_1)
  have "used demo_fs b \<longleftrightarrow> b div 8 < 4 \<or> b div 8 = 4 \<and> b mod 8 < 7"
    using b by (auto simp: used_def demo_BBLOCK bit_used_bit BPB_def BSIZE_def m bit_simps)
  also have "\<dots> \<longleftrightarrow> b \<noteq> 39" using b by presburger
  finally show ?thesis .
qed

lemma demo_fs_ok: "bitmap_ok demo_fs" "log_room 20 demo_fs" "icache_ok demo_fs"
proof -
  have b: "b = 35" if "is_bitmap demo_fs b" for b using that by (auto simp: is_bitmap_def demo_BBLOCK)
  have u: "used demo_fs 35" "(35 :: nat) < nblocks demo_fs" using demo_used [of 35] by simp_all
  show "bitmap_ok demo_fs" unfolding bitmap_ok_def
  proof (intro allI impI)
    fix c assume "is_bitmap demo_fs c"
    then have "c = 35" by (rule b)
    then show "c < nblocks demo_fs \<and> used demo_fs c" using u by blast
  qed
  show "log_room 20 demo_fs" by (simp add: log_room_def demo_fs_def demo_log_def LOGSIZE_def MAXOPBLOCKS_def)
  show "icache_ok demo_fs" by (simp add: icache_ok_def demo_fs_def)
qed

lemma demo_not_full: "\<not> (\<forall>c < nblocks demo_fs. used demo_fs c)"
  using demo_used [of 39] by (auto intro!: exI [of _ 39])

theorem balloc_first_fit_witness:
  "\<exists>t. balloc demo_fs = Some (39, t) \<and> used t 39 \<and> (\<forall>i < BSIZE. bdata 39 t i = 0)"
proof -
  have nf: "\<not> (\<forall>c < nblocks demo_fs. used demo_fs c)" by (rule demo_not_full)
  obtain b t where b: "balloc demo_fs = Some (b, t)" "\<not> used demo_fs b" "b < 40" "used t b" "\<forall>i < BSIZE. bdata b t i = 0"
    using balloc_first_fit [OF demo_fs_ok(1) log_room_mono [OF demo_fs_ok(2)]] nf by (auto split: if_splits)
  then have "b = 39" using demo_used by blast
  then show ?thesis using b by auto
qed

theorem balloc_bfree_witness:
  "\<exists>b t u. balloc demo_fs = Some (b, t) \<and> bfree b t = Some u \<and> bfree b u = None \<and> used u 5 \<and> \<not> used u 39"
proof -
  have nf: "\<not> (\<forall>c < nblocks demo_fs. used demo_fs c)" by (rule demo_not_full)
  have "balloc_from 0 demo_fs \<noteq> None"
    using balloc_from_ok [OF demo_fs_ok(1) log_room_mono [OF demo_fs_ok(2), of "Suc (Suc 0)"], of 0] nf
    by (cases "balloc_from 0 demo_fs") auto
  then obtain b t where b: "balloc demo_fs = Some (b, t)" by (auto simp: balloc_def)
  show ?thesis
    using balloc_bfree [OF demo_fs_ok(1) log_room_mono [OF demo_fs_ok(2)] b] b demo_used [of 5] demo_used [of 39] by auto
qed



end
