(* ===== verification/Fs_File.thy ===== *)
theory Fs_File
  imports Fs_Alloc
begin

text \<open>
  Correctness of the block tree of an inode and of \<^verbatim>\<open>readi\<close> and \<^verbatim>\<open>writei\<close>: a file
  is an array of bytes, whatever mixture of direct, indirect and doubly indirect blocks holds it.
\<close>

section \<open>The block tree\<close>

text \<open>
  The places of the tree: the indirect block, the doubly indirect block, the index blocks below
  it, and the data blocks; where the address of each is stored: in slot \<open>i\<close> of the inode or
  of another block of the tree.
\<close>

datatype pos = PInd | PDbl | PMid nat | PData nat

fun up :: "pos \<Rightarrow> pos option \<times> nat" where
  "up PInd = (None, NDIRECT)"
| "up PDbl = (None, NDIRECT + 1)"
| "up (PMid i) = (Some PDbl, i)"
| "up (PData bn) =
     (if bn < NDIRECT then (None, bn)
      else if bn - NDIRECT < NINDIRECT then (Some PInd, bn - NDIRECT)
      else (Some (PMid ((bn - NDIRECT - NINDIRECT) div NADDR_PER_BLOCK)),
            (bn - NDIRECT - NINDIRECT) mod NADDR_PER_BLOCK))"

fun depth :: "pos \<Rightarrow> nat" where
  "depth PInd = 0" | "depth PDbl = 0" | "depth (PMid i) = 1" | "depth (PData bn) = 2"

fun pos_ok :: "pos \<Rightarrow> bool" where
  "pos_ok PInd = True" | "pos_ok PDbl = True" | "pos_ok (PMid i) = (i < NADDR_PER_BLOCK)"
| "pos_ok (PData bn) = (bn < MAXFILE)"

lemma up_depth: "up p = (Some q, i) \<Longrightarrow> depth q < depth p"
  by (cases p) (auto split: if_splits)

definition slot :: "fs \<Rightarrow> nat \<Rightarrow> nat \<Rightarrow> nat" where
  "slot s a i = (if a = 0 then 0 else unat (get32 (4 * i) (bdata a s)))"

function node :: "fs \<Rightarrow> nat \<Rightarrow> pos \<Rightarrow> nat" where
  "node s ip p =
     (case up p of
        (None, i) \<Rightarrow> unat (i_addrs (icache s ip) i)
      | (Some q, i) \<Rightarrow> slot s (node s ip q) i)"
  by pat_completeness auto
termination by (relation "measure (\<lambda>(s, ip, p). depth p)") (auto dest: up_depth [OF sym])

declare node.simps [simp del]

lemma node_None: "up p = (None, i) \<Longrightarrow> node s ip p = unat (i_addrs (icache s ip) i)"
  by (subst node.simps) simp

lemma node_Some: "up p = (Some q, i) \<Longrightarrow> node s ip p = slot s (node s ip q) i"
  by (subst node.simps) simp

lemma up_ok:
  assumes "pos_ok p" and "up p = (q, i)"
  shows "i < 256" and "q = None \<Longrightarrow> i < NDIRECT + 2" and "q = Some r \<Longrightarrow> pos_ok r \<and> (\<forall>bn. r \<noteq> PData bn)"
  using assms by (cases p; auto simp: NDIRECT_def NINDIRECT_def NDINDIRECT_def NADDR_PER_BLOCK_def MAXFILE_def BSIZE_def
      split: if_splits)+

lemma div_mod_inj: "(k :: nat) \<le> a \<Longrightarrow> k \<le> b \<Longrightarrow> (a - k) div m = (b - k) div m \<Longrightarrow> (a - k) mod m = (b - k) mod m \<Longrightarrow> a = b"
  by (metis div_mult_mod_eq eq_diff_iff)

lemmas tree_consts = NDIRECT_def NINDIRECT_def NDINDIRECT_def NADDR_PER_BLOCK_def MAXFILE_def BSIZE_def

lemma up_PData:
  "bn < 11 \<Longrightarrow> up (PData bn) = (None, bn)"
  "11 \<le> bn \<Longrightarrow> bn < 267 \<Longrightarrow> up (PData bn) = (Some PInd, bn - 11)"
  "267 \<le> bn \<Longrightarrow> up (PData bn) = (Some (PMid ((bn - 267) div 256)), (bn - 267) mod 256)"
  by (auto simp: tree_consts)

declare up.simps(4) [simp del]

lemma up_inj_data:
  assumes "up (PData b) = up (PData c)"
  shows "b = c"
proof -
  have r: "x < 11 \<or> 11 \<le> x \<and> x < 267 \<or> 267 \<le> (x :: nat)" for x by linarith
  show ?thesis using assms r [of b] r [of c] div_mod_inj [of 267 b c 256] by (auto simp: up_PData)
qed

lemma up_inj: "pos_ok p \<Longrightarrow> pos_ok q \<Longrightarrow> up p = up q \<Longrightarrow> p = q"
proof -
  assume a: "pos_ok p" "pos_ok q" "up p = up q"
  have r: "x < 11 \<or> 11 \<le> x \<and> x < 267 \<or> 267 \<le> (x :: nat)" for x by linarith
  have d: "up (PData b) \<noteq> (None, 11)" "up (PData b) \<noteq> (None, 12)" "up (PData b) \<noteq> (Some PDbl, i)" for b i
    using r [of b] by (auto simp: up_PData)
  show ?thesis using a d d [symmetric] up_inj_data by (cases p; cases q) (auto simp: NDIRECT_def)
qed

text \<open>
  The blocks that never belong to a file: block 0, the bitmap and the inode blocks. They are
  marked as used.
\<close>

definition meta :: "fs \<Rightarrow> nat \<Rightarrow> bool" where
  "meta s b \<longleftrightarrow> b = 0 \<or> is_bitmap s b \<or> (\<exists>i < unat (sb_ninodes (fs_sb s)). b = IBLOCK i s)"

definition meta_ok :: "fs \<Rightarrow> bool" where
  "meta_ok s \<longleftrightarrow> (\<forall>b. meta s b \<longrightarrow> b < nblocks s \<and> used s b)"

definition tree_ok :: "fs \<Rightarrow> nat \<Rightarrow> bool" where
  "tree_ok s ip \<longleftrightarrow>
     (\<forall>p. pos_ok p \<longrightarrow> node s ip p \<noteq> 0 \<longrightarrow> node s ip p < nblocks s \<and> used s (node s ip p) \<and> \<not> meta s (node s ip p)) \<and>
     (\<forall>p q. pos_ok p \<longrightarrow> pos_ok q \<longrightarrow> node s ip p \<noteq> 0 \<longrightarrow> node s ip p = node s ip q \<longrightarrow> p = q)"

definition in_tree :: "fs \<Rightarrow> nat \<Rightarrow> nat \<Rightarrow> bool" where
  "in_tree s ip b \<longleftrightarrow> (\<exists>p. pos_ok p \<and> node s ip p = b)"

text \<open>The bytes of a file: a block that is not allocated reads as zeros.\<close>

definition fbyte :: "fs \<Rightarrow> nat \<Rightarrow> nat \<Rightarrow> u8" where
  "fbyte s ip off =
     (let b = node s ip (PData (off div BSIZE)) in if b = 0 then 0 else bdata b s (off mod BSIZE))"

lemma meta_cong: "fs_sb t = fs_sb s \<Longrightarrow> meta t b = meta s b"
  by (simp add: meta_def IBLOCK_def is_bitmap_cong [of t s])

lemma meta_ok_bitmap: "meta_ok s \<Longrightarrow> bitmap_ok s"
  by (auto simp: meta_ok_def bitmap_ok_def meta_def)

text \<open>
  The blocks of a file grow from \<open>s\<close> to \<open>t\<close>: the blocks it has stay in place, new ones
  come from the free blocks, and nothing outside the file changes.
\<close>

definition tree_extends :: "nat \<Rightarrow> fs \<Rightarrow> fs \<Rightarrow> bool" where
  "tree_extends ip s t \<longleftrightarrow> fs_sb t = fs_sb s \<and> (\<exists>a. icache t = (icache s)(ip := (icache s ip)\<lparr>i_addrs := a\<rparr>)) \<and>
     meta_ok t \<and> tree_ok t ip \<and>
     (\<forall>p. pos_ok p \<longrightarrow> node s ip p \<noteq> 0 \<longrightarrow> node t ip p = node s ip p) \<and>
     (\<forall>p. pos_ok p \<longrightarrow> node t ip p \<noteq> node s ip p \<longrightarrow> \<not> used s (node t ip p)) \<and>
     (\<forall>b < nblocks s. used s b \<longrightarrow> used t b) \<and>
     (\<forall>b < nblocks s. used s b \<longrightarrow> \<not> is_bitmap s b \<longrightarrow> \<not> in_tree s ip b \<longrightarrow> bdata b t = bdata b s)"

lemma tree_extends_refl: "meta_ok s \<Longrightarrow> tree_ok s ip \<Longrightarrow> tree_extends ip s s"
proof -
  have "icache s = (icache s)(ip := (icache s ip)\<lparr>i_addrs := i_addrs (icache s ip)\<rparr>)" by simp
  then show "meta_ok s \<Longrightarrow> tree_ok s ip \<Longrightarrow> tree_extends ip s s" unfolding tree_extends_def by blast
qed

lemma tree_extends_trans:
  assumes st: "tree_extends ip s t" and tu: "tree_extends ip t u"
  shows "tree_extends ip s u"
proof -
  have sb: "fs_sb t = fs_sb s" "fs_sb u = fs_sb t" using st tu by (auto simp: tree_extends_def)
  have nb: "nblocks t = nblocks s" "is_bitmap t = is_bitmap s"
    using sb(1) by (simp_all add: fun_eq_iff is_bitmap_cong [OF sb(1)])
  obtain a where a: "icache t = (icache s)(ip := (icache s ip)\<lparr>i_addrs := a\<rparr>)" using st by (auto simp: tree_extends_def)
  obtain c where c: "icache u = (icache t)(ip := (icache t ip)\<lparr>i_addrs := c\<rparr>)" using tu by (auto simp: tree_extends_def)
  have ic: "icache u = (icache s)(ip := (icache s ip)\<lparr>i_addrs := c\<rparr>)" using a c by simp
  have n1: "node u ip p = node s ip p" if "pos_ok p" "node s ip p \<noteq> 0" for p
    using st tu that by (auto simp: tree_extends_def)
  have n2: "\<not> used s (node u ip p)" if p: "pos_ok p" "node u ip p \<noteq> node s ip p" for p
  proof (cases "node t ip p = node s ip p")
    case True
    then have ut: "\<not> used t (node u ip p)" using tu p by (auto simp: tree_extends_def)
    moreover have "used t 0" using st by (auto simp: tree_extends_def meta_ok_def meta_def)
    ultimately have "node u ip p \<noteq> 0" by (cases "node u ip p = 0") auto
    then have "node u ip p < nblocks s" using tu p by (auto simp: tree_extends_def tree_ok_def nb)
    then show ?thesis using st ut by (auto simp: tree_extends_def)
  next
    case False
    then have "\<not> used s (node t ip p)" "node s ip p = 0" using st p by (auto simp: tree_extends_def)
    then show ?thesis using False p tu by (auto simp: tree_extends_def)
  qed
  have "used s (node t ip p) \<Longrightarrow> pos_ok p \<Longrightarrow> node t ip p = node s ip p" for p
    using st unfolding tree_extends_def by blast
  then have tr: "in_tree t ip b \<Longrightarrow> used s b \<Longrightarrow> in_tree s ip b" for b
    unfolding in_tree_def by metis
  have d: "bdata b u = bdata b s" if "b < nblocks s" "used s b" "\<not> is_bitmap s b" "\<not> in_tree s ip b" for b
  proof -
    have "bdata b t = bdata b s" "used t b" using st that by (auto simp: tree_extends_def)
    moreover have "\<not> in_tree t ip b" using tr that by blast
    ultimately show ?thesis using tu that by (auto simp: tree_extends_def nb)
  qed
  have "used u b" if "b < nblocks s" "used s b" for b using st tu that by (auto simp: tree_extends_def nb)
  then show ?thesis using tu sb ic n1 n2 d unfolding tree_extends_def by auto
qed


text \<open>The bytes of the file stay the same.\<close>

definition grows :: "nat \<Rightarrow> fs \<Rightarrow> fs \<Rightarrow> bool" where
  "grows ip s t \<longleftrightarrow> tree_extends ip s t \<and> (\<forall>off < MAXFILE * BSIZE. fbyte t ip off = fbyte s ip off)"

lemma grows_refl: "meta_ok s \<Longrightarrow> tree_ok s ip \<Longrightarrow> grows ip s s"
  by (simp add: grows_def tree_extends_refl)

lemma grows_trans: "grows ip s t \<Longrightarrow> grows ip t u \<Longrightarrow> grows ip s u"
  using tree_extends_trans by (auto simp: grows_def)

text \<open>
  The step every level of \<^verbatim>\<open>bmap\<close> takes for a block that is missing: \<open>u\<close> is the
  state after \<^verbatim>\<open>balloc\<close> returned \<open>b\<close>, and \<open>t\<close> the state after \<open>b\<close> is stored
  where the tree keeps the address of place \<open>p\<close>.
\<close>

definition filled :: "nat \<Rightarrow> pos \<Rightarrow> nat \<Rightarrow> fs \<Rightarrow> fs \<Rightarrow> fs \<Rightarrow> bool" where
  "filled ip p b s u t \<longleftrightarrow> allocated b s u \<and> fs_sb t = fs_sb u \<and>
     (\<exists>a. icache t = (icache u)(ip := (icache u ip)\<lparr>i_addrs := a\<rparr>)) \<and>
     (\<forall>j. i_addrs (icache t ip) j = (if up p = (None, j) then of_nat b else i_addrs (icache s ip) j)) \<and>
     (\<forall>c. bdata c t =
        (case up p of
           (Some q, i) \<Rightarrow> if c = node s ip q then put32 (4 * i) (of_nat b) (bdata c s) else bdata c u
         | (None, i) \<Rightarrow> bdata c u)) \<and>
     (\<forall>q i. up p = (Some q, i) \<longrightarrow> node s ip q \<noteq> 0)"

lemma put32_slot [simp]: "get32 (4 * j) (put32 (4 * i) v d) = (if j = i then v else get32 (4 * j) d)"
  by (cases "j < i"; cases "j = i") auto

lemma get32_zero: "(\<And>i. i < BSIZE \<Longrightarrow> d i = 0) \<Longrightarrow> j < 256 \<Longrightarrow> get32 (4 * j) d = 0"
  by (simp add: get32_def BSIZE_def)

lemma filled_block:
  assumes "filled ip p b s u t" and "meta_ok s" and "tree_ok s ip" and "pos_ok p"
  shows "b \<noteq> 0" and "unat (of_nat b :: u32) = b" and "\<And>i. i < BSIZE \<Longrightarrow> bdata b t i = 0"
    and "\<And>r. pos_ok r \<Longrightarrow> node s ip r \<noteq> b" and "\<not> meta s b"
proof -
  have al: "allocated b s u" using assms(1) by (simp add: filled_def)
  show m: "\<not> meta s b" using al assms(2) by (auto simp: allocated_def meta_ok_def)
  then show b0: "b \<noteq> 0" by (auto simp: meta_def)
  have "b < nblocks s" using al by (simp add: allocated_def)
  moreover have "nblocks s < 2 ^ 32" using unsigned_less [of "sb_size (fs_sb s)", where 'a = nat] by simp
  ultimately show "unat (of_nat b :: u32) = b" by (intro of_nat_inverse [OF refl]) auto
  show n: "node s ip r \<noteq> b" if "pos_ok r" for r
    using assms(3) that al b0 by (auto simp: tree_ok_def allocated_def)
  show "bdata b t i = 0" if "i < BSIZE" for i
  proof (cases "up p")
    case (Pair q k)
    then show ?thesis using assms(1) al that n up_ok(3) [OF assms(4) Pair]
      by (cases q) (auto simp: filled_def allocated_def)
  qed
qed


lemma filled_node:
  assumes f: "filled ip p b s u t" and ok: "meta_ok s" "tree_ok s ip" "pos_ok p" and z: "node s ip p = 0" and "pos_ok r"
  shows "node t ip r = (if r = p then b else node s ip r)"
  using \<open>pos_ok r\<close>
proof (induction r rule: measure_induct_rule [of depth])
  case (less r)
  note B = filled_block [OF f ok]
  obtain q i where u: "up r = (q, i)" by fastforce
  show ?case
  proof (cases q)
    case None
    then have "up p = (None, i) \<longleftrightarrow> r = p" using u up_inj [OF less(2) ok(3)] by auto
    then show ?thesis using f u None B(2) by (auto simp: filled_def node_None)
  next
    case (Some q')
    have q': "pos_ok q'" "i < 256" using up_ok [OF less(2) u] Some by auto
    then have ih: "node t ip q' = (if q' = p then b else node s ip q')" using less(1) u Some up_depth by blast
    have n: "node t ip r = slot t (node t ip q') i" "node s ip r = slot s (node s ip q') i"
      using u Some by (auto simp: node_Some)
    show ?thesis
    proof (cases "q' = p \<or> node s ip q' = 0")
      case True
      moreover have "r \<noteq> p" using True f u Some up_depth [of p p i] by (auto simp: filled_def)
      moreover have "slot t b i = 0" using B(3) q'(2) get32_zero [of "bdata b t" i] by (auto simp: slot_def)
      ultimately show ?thesis using n ih z by (auto simp: slot_def)
    next
      case False
      then have a: "node s ip q' \<noteq> b" "\<not> is_bitmap s (node s ip q')"
        using B(4) [OF q'(1)] ok(2) q'(1) by (auto simp: tree_ok_def meta_def)
      have up_d: "up p = (Some q', j) \<longleftrightarrow> (\<exists>q. up p = (Some q, j) \<and> node s ip q' = node s ip q)" for j
        using False ok(2) q'(1) up_ok(3) [OF ok(3)] by (fastforce simp: tree_ok_def)
      have "bdata (node s ip q') u = bdata (node s ip q') s" using f a by (auto simp: filled_def allocated_def)
      then have d: "bdata (node s ip q') t =
          (if \<exists>j. up p = (Some q', j) then put32 (4 * snd (up p)) (of_nat b) (bdata (node s ip q') s) else bdata (node s ip q') s)"
        using f up_d by (auto simp: filled_def split: prod.split option.split)
      have "up p = (Some q', i) \<longleftrightarrow> r = p" using u Some up_inj [OF less(2) ok(3)] by auto
      then show ?thesis using n ih False d B(2) by (auto simp: slot_def)
    qed
  qed
qed


lemma filled_index:
  assumes "filled ip p b s u t" and "\<And>q i. up p = (Some q, i) \<Longrightarrow> node s ip q \<noteq> c"
  shows "bdata c t = bdata c u"
  using assms by (auto simp: filled_def split: prod.splits option.splits)

lemma filled_data:
  assumes f: "filled ip p b s u t" and ok: "meta_ok s" "tree_ok s ip" "pos_ok p"
    and c: "c \<noteq> b" "\<not> is_bitmap s c" "\<And>q. pos_ok q \<Longrightarrow> node s ip q = c \<Longrightarrow> \<exists>bn. q = PData bn"
  shows "bdata c t = bdata c s"
proof -
  have "node s ip q \<noteq> c" if "up p = (Some q, i)" for q i
    using c(3) up_ok(3) [OF ok(3) that] by blast
  then show ?thesis using filled_index [OF f] f c(1,2) by (simp add: filled_def allocated_def)
qed

lemma filled_grows:
  assumes f: "filled ip p b s u t" and ok: "meta_ok s" "tree_ok s ip" "pos_ok p" and z: "node s ip p = 0"
  shows "grows ip s t" and "node t ip p = b"
proof -
  note B = filled_block [OF f ok] and N = filled_node [OF f ok z]
  have al: "allocated b s u" and ic: "icache u = icache s" and sb: "fs_sb t = fs_sb s"
    using f by (auto simp: filled_def allocated_def)
  show nb: "node t ip p = b" using N [OF ok(3)] by simp
  have "bdata c t = bdata c u" if "is_bitmap u c" for c
  proof -
    have "meta s c" using that al by (auto simp: meta_def allocated_def is_bitmap_def BBLOCK_def)
    then have "node s ip q \<noteq> c" if "pos_ok q" "node s ip q \<noteq> 0" for q using ok(2) that by (auto simp: tree_ok_def)
    moreover have "pos_ok q \<and> node s ip q \<noteq> 0" if "up p = (Some q, i)" for q i
      using f up_ok(3) [OF ok(3) that] that by (auto simp: filled_def)
    ultimately show ?thesis using filled_index [OF f] by blast
  qed
  then have us: "used t c \<longleftrightarrow> c = b \<or> used s c" if "c < nblocks s" for c
    using used_cong [of t u c] that al sb f by (auto simp: filled_def allocated_def)
  have mt: "meta t = meta s" using meta_cong [OF sb] by auto
  then have mo: "meta_ok t" using ok(1) us sb by (auto simp: meta_ok_def)
  have "tree_ok t ip"
    unfolding tree_ok_def mt using ok(2) N us sb B al by (auto simp: tree_ok_def allocated_def)
  moreover have "\<not> used s (node t ip q)" if "pos_ok q" "node t ip q \<noteq> node s ip q" for q
    using N [OF that(1)] that al by (auto simp: allocated_def split: if_splits)
  moreover have "fbyte t ip off = fbyte s ip off" if off: "off < MAXFILE * BSIZE" for off
  proof -
    let ?q = "PData (off div BSIZE)"
    have q: "pos_ok ?q" "off mod BSIZE < BSIZE" using off by (auto simp: BSIZE_def less_mult_imp_div_less)
    show ?thesis
    proof (cases "?q = p \<or> node s ip ?q = 0")
      case True
      then show ?thesis using N [OF q(1)] z B(3) q(2) by (auto simp: fbyte_def Let_def)
    next
      case False
      then have "\<not> is_bitmap s (node s ip ?q)" "\<And>r. pos_ok r \<Longrightarrow> node s ip r = node s ip ?q \<Longrightarrow> r = ?q"
        using ok(2) q(1) by (auto simp: tree_ok_def meta_def)
      then have "bdata (node s ip ?q) t = bdata (node s ip ?q) s"
        using B(4) [OF q(1)] by (intro filled_data [OF f ok]) auto
      then show ?thesis using N [OF q(1)] False by (auto simp: fbyte_def Let_def)
    qed
  qed
  moreover have "bdata c t = bdata c s" if "c < nblocks s" "used s c" "\<not> is_bitmap s c" "\<not> in_tree s ip c" for c
    using that al by (intro filled_data [OF f ok]) (auto simp: allocated_def in_tree_def)
  moreover have "\<exists>a. icache t = (icache s)(ip := (icache s ip)\<lparr>i_addrs := a\<rparr>)" using f ic by (auto simp: filled_def)
  ultimately show "grows ip s t" using N z sb us mo unfolding grows_def tree_extends_def by auto
qed


section \<open>The steps of bmap\<close>

lemma balloc_from_allocated:
  assumes "bitmap_ok s" and "BPB dvd b" and "balloc_from b s = Some (a, t)"
  shows "allocated a s t"
  using assms
proof (induction b s rule: balloc_from.induct)
  case (1 b s)
  have b: "b < nblocks s" using 1(4) by (subst (asm) balloc_from.simps) (auto split: if_splits)
  show ?case
  proof (cases "find (\<lambda>bi. \<not> bit_used (bdata (BBLOCK b s) s) bi) [0..<min BPB (nblocks s - b)]")
    case None
    then have "balloc_from (b + BPB) s = Some (a, t)" using 1(4) b by (subst (asm) balloc_from.simps) auto
    then show ?thesis using 1(1) [OF b None 1(2)] 1(3) by simp
  next
    case (Some bi)
    then have bi: "bi < BPB" "b + bi < nblocks s" "\<not> bit_used (bdata (BBLOCK b s) s) bi"
      by (auto simp: find_Some_iff less_diff_conv)
    have bm: "BBLOCK (b + bi) s = BBLOCK b s" "(b + bi) mod BPB = bi"
      using 1(3) bi(1) by (auto simp: BBLOCK_def elim!: dvdE)
    have "\<exists>u. bput (BBLOCK b s) (set_used bi (bdata (BBLOCK b s) s)) s = Some u \<and> bzero (b + bi) u = Some t \<and> a = b + bi"
      using 1(4) Some b by (subst (asm) balloc_from.simps) (auto split: bind_splits)
    then show ?thesis using mark_and_zero [OF 1(2) bi(2)] bi(3) bm by (auto simp: used_def)
  qed
qed

lemma balloc_allocated: "meta_ok s \<Longrightarrow> balloc s = Some (b, t) \<Longrightarrow> allocated b s t"
  using balloc_from_allocated [of s 0] by (simp add: balloc_def meta_ok_bitmap)

text \<open>Looking up or filling one place of the tree.\<close>

lemma bmap_addr_grows:
  assumes ok: "meta_ok s" "tree_ok s ip" "pos_ok p" and u: "up p = (None, i)" and r: "bmap_addr ip i s = Some (b, t)"
  shows "grows ip s t \<and> node t ip p = b \<and> b \<noteq> 0"
proof (cases "node s ip p = 0")
  case False
  then have "b = node s ip p" "t = s" using r node_None [OF u] by (auto simp: bmap_addr_def Let_def)
  then show ?thesis using False grows_refl ok by auto
next
  case True
  then obtain v where v: "balloc s = Some (b, v)" "t = upd_inode ip (\<lambda>x. x\<lparr>i_addrs := (i_addrs x)(i := of_nat b)\<rparr>) v"
    using r node_None [OF u] by (auto simp: bmap_addr_def Let_def split: bind_splits)
  then have a: "allocated b s v" using balloc_allocated ok by blast
  then have "filled ip p b s v t" using v(2) u by (auto simp: filled_def allocated_def)
  then show ?thesis using filled_grows [OF _ ok True] filled_block(1) [OF _ ok] by blast
qed

lemma bmap_slot_grows:
  assumes ok: "meta_ok s" "tree_ok s ip" "pos_ok p" and u: "up p = (Some q, i)" and q: "node s ip q \<noteq> 0"
    and r: "bmap_slot (node s ip q) i s = Some (b, t)"
  shows "grows ip s t \<and> node t ip p = b \<and> b \<noteq> 0"
proof (cases "node s ip p = 0")
  case False
  then have "b = node s ip p" "t = s" using r q node_Some [OF u] by (auto simp: bmap_slot_def slot_def Let_def)
  then show ?thesis using False grows_refl ok by auto
next
  case True
  let ?a = "node s ip q"
  obtain v where v: "balloc s = Some (b, v)" "bput ?a (put32 (4 * i) (of_nat b) (bdata ?a v)) v = Some t"
    using True r q node_Some [OF u] by (auto simp: bmap_slot_def slot_def Let_def split: bind_splits)
  then have a: "allocated b s v" using balloc_allocated ok by blast
  have "pos_ok q" using up_ok(3) [OF ok(3) u] by simp
  then have "?a \<noteq> b" "\<not> is_bitmap s ?a" using ok(2) q a by (auto simp: tree_ok_def allocated_def meta_def)
  then have "bdata ?a v = bdata ?a s" using a by (auto simp: allocated_def)
  moreover have "icache v = (icache v)(ip := (icache v ip)\<lparr>i_addrs := i_addrs (icache v ip)\<rparr>)" by simp
  ultimately have "filled ip p b s v t" using bput_sel [OF v(2)] a u q
    unfolding filled_def by (auto simp: allocated_def intro: exI [of _ "i_addrs (icache v ip)"])
  then show ?thesis using filled_grows [OF _ ok True] filled_block(1) [OF _ ok] by blast
qed

lemma bmap_cases:
  "bn < 11 \<Longrightarrow> bmap ip bn s = bmap_addr ip bn s"
  "11 \<le> bn \<Longrightarrow> bn < 267 \<Longrightarrow> bmap ip bn s = do { (addr, s) \<leftarrow> bmap_addr ip NDIRECT s; bmap_slot addr (bn - 11) s }"
  "267 \<le> bn \<Longrightarrow> bn < MAXFILE \<Longrightarrow> bmap ip bn s = do { (addr, s) \<leftarrow> bmap_addr ip (NDIRECT + 1) s;
     (addr, s) \<leftarrow> bmap_slot addr ((bn - 267) div 256) s; bmap_slot addr ((bn - 267) mod 256) s }"
proof -
  assume bn: "267 \<le> bn" "bn < MAXFILE"
  then have "\<not> bn < NDIRECT" "\<not> bn - NDIRECT < NINDIRECT" "bn - NDIRECT - NINDIRECT < NDINDIRECT"
    "bn - NDIRECT - NINDIRECT = bn - 267" "NADDR_PER_BLOCK = 256"
    by (auto simp: tree_consts)
  then show "bmap ip bn s = do { (addr, s) \<leftarrow> bmap_addr ip (NDIRECT + 1) s;
     (addr, s) \<leftarrow> bmap_slot addr ((bn - 267) div 256) s; bmap_slot addr ((bn - 267) mod 256) s }"
    by (simp add: bmap_def Let_def)
next
  assume bn: "11 \<le> bn" "bn < 267"
  then have "\<not> bn < NDIRECT" "bn - NDIRECT < NINDIRECT" "bn - NDIRECT = bn - 11" by (auto simp: tree_consts)
  then show "bmap ip bn s = do { (addr, s) \<leftarrow> bmap_addr ip NDIRECT s; bmap_slot addr (bn - 11) s }"
    by (simp add: bmap_def Let_def)
qed (simp add: bmap_def NDIRECT_def)

lemma bmap_grows:
  assumes ok: "meta_ok s" "tree_ok s ip" and bn: "bn < MAXFILE" and r: "bmap ip bn s = Some (b, t)"
  shows "grows ip s t \<and> node t ip (PData bn) = b \<and> b \<noteq> 0"
proof -
  have p: "pos_ok (PData bn)" using bn by simp
  have ok': "meta_ok u \<and> tree_ok u ip" if "grows ip s u" for u using that by (simp add: grows_def tree_extends_def)
  consider "bn < 11" | "11 \<le> bn" "bn < 267" | "267 \<le> bn" by linarith
  then show ?thesis
  proof cases
    case 1
    then show ?thesis using r bmap_addr_grows [OF ok p up_PData(1)] by (simp add: bmap_cases(1))
  next
    case 2
    then obtain a u where a: "bmap_addr ip NDIRECT s = Some (a, u)" "bmap_slot a (bn - 11) u = Some (b, t)"
      using r unfolding bmap_cases(2) [OF 2] by (auto split: bind_splits)
    have g: "grows ip s u" "node u ip PInd = a" "a \<noteq> 0" using bmap_addr_grows [OF ok _ up.simps(1) a(1)] by auto
    then have "grows ip u t \<and> node t ip (PData bn) = b \<and> b \<noteq> 0"
      using bmap_slot_grows [OF _ _ p up_PData(2) [OF 2], of u ip b t] ok' a(2) by auto
    then show ?thesis using grows_trans g(1) by blast
  next
    case 3
    let ?k = "bn - 267"
    have k: "?k < 65536" using bn by (auto simp: tree_consts)
    then obtain a u a' v where a: "bmap_addr ip (NDIRECT + 1) s = Some (a, u)" "bmap_slot a (?k div 256) u = Some (a', v)"
        "bmap_slot a' (?k mod 256) v = Some (b, t)"
      using r unfolding bmap_cases(3) [OF 3 bn] by (auto split: bind_splits)
    have g: "grows ip s u" "node u ip PDbl = a" "a \<noteq> 0" using bmap_addr_grows [OF ok _ up.simps(2) a(1)] by auto
    have "?k div 256 < 256" using k by (auto simp: less_mult_imp_div_less)
    then have q: "pos_ok (PMid (?k div 256))" by (simp add: tree_consts)
    have h: "grows ip u v" "node v ip (PMid (?k div 256)) = a'" "a' \<noteq> 0"
      using bmap_slot_grows [OF _ _ q up.simps(3), of u ip a' v] ok' a(2) g by auto
    then have "grows ip s v" using grows_trans g(1) by blast
    moreover have "grows ip v t \<and> node t ip (PData bn) = b \<and> b \<noteq> 0"
      using bmap_slot_grows [OF _ _ p up_PData(3) [OF 3], of v ip b t] ok' [OF calculation] a(3) h by auto
    ultimately show ?thesis using grows_trans by blast
  qed
qed

text \<open>A block that is there is found without a change of state.\<close>

lemma node_parent: "up p = (Some q, i) \<Longrightarrow> node s ip p \<noteq> 0 \<Longrightarrow> node s ip q \<noteq> 0"
  using node_Some [of p q i s ip] by (cases "node s ip q = 0") (simp_all add: slot_def)

lemma bmap_addr_present: "up p = (None, i) \<Longrightarrow> node s ip p \<noteq> 0 \<Longrightarrow> bmap_addr ip i s = Some (node s ip p, s)"
  by (simp add: node_None bmap_addr_def)

lemma bmap_slot_present: "up p = (Some q, i) \<Longrightarrow> node s ip p \<noteq> 0 \<Longrightarrow> bmap_slot (node s ip q) i s = Some (node s ip p, s)"
  using node_Some [of p q i s ip] by (cases "node s ip q = 0") (simp_all add: slot_def bmap_slot_def)

lemma bmap_present:
  assumes n: "node s ip (PData bn) \<noteq> 0" and bn: "bn < MAXFILE"
  shows "bmap ip bn s = Some (node s ip (PData bn), s)"
proof -
  consider "bn < 11" | "11 \<le> bn" "bn < 267" | "267 \<le> bn" by linarith
  then show ?thesis
  proof cases
    case 1
    then show ?thesis using bmap_addr_present [OF up_PData(1) n] by (simp add: bmap_cases(1))
  next
    case 2
    note u = up_PData(2) [OF 2]
    show ?thesis unfolding bmap_cases(2) [OF 2]
      using bmap_addr_present [OF up.simps(1) node_parent [OF u n]] bmap_slot_present [OF u n] by simp
  next
    case 3
    note u = up_PData(3) [OF 3]
    note u' = up.simps(3) [of "(bn - 267) div 256"] and n' = node_parent [OF u n]
    show ?thesis unfolding bmap_cases(3) [OF 3 bn]
      using bmap_addr_present [OF up.simps(2) node_parent [OF u' n']] bmap_slot_present [OF u' n'] bmap_slot_present [OF u n] by simp
  qed
qed

section \<open>Where the bytes go\<close>

text \<open>Copying from place \<open>p\<close> gives the bytes \<open>bs\<close>.\<close>

fun place_bytes :: "place \<Rightarrow> kmem \<Rightarrow> u8 list \<Rightarrow> bool" where
  "place_bytes (KernelBuf buf) m bs = (buf = bs)"
| "place_bytes (UserAddr root a) m bs = user_bytes m root a bs"

lemma copy_from_ok:
  assumes "place_bytes p m bs" and "tot + k \<le> length bs"
  shows "copy_from p tot k m = Some (Inr (take k (drop tot bs)))"
proof (cases p)
  case (UserAddr root a)
  let ?cs = "take k (drop tot bs)"
  have l: "length ?cs = k" using assms(2) by simp
  have b: "unat a + length bs < 2 ^ 64" "\<And>i. i < length bs \<Longrightarrow> user_byte m root (a + of_nat i) = Some (bs ! i)"
    using assms UserAddr by (auto simp: user_bytes_def)
  then have "unat (a + of_nat tot) + length ?cs < 2 ^ 64" using assms(2) by (simp add: unat_plus_no_wrap)
  moreover have "user_byte m root (a + of_nat tot + of_nat i) = Some (?cs ! i)" if "i < length ?cs" for i
    using b(2) [of "tot + i"] that assms(2) by (simp add: add.assoc)
  ultimately show ?thesis using copyin_acc_ok [of "a + of_nat tot" ?cs m root "[]"] l UserAddr
    by (simp add: copy_from_def either_copyin_def copyin_def)
qed (use assms in \<open>auto simp: copy_from_def\<close>)

text \<open>There is room for \<open>n\<close> bytes; \<open>bs\<close> has been delivered there.\<close>

fun place_room :: "place \<Rightarrow> kmem \<Rightarrow> nat \<Rightarrow> bool" where
  "place_room (KernelBuf buf) m n = True"
| "place_room (UserAddr root a) m n = user_room m root a n"

fun delivered :: "place \<Rightarrow> kmem \<Rightarrow> u8 list \<Rightarrow> place \<Rightarrow> kmem \<Rightarrow> bool" where
  "delivered (KernelBuf buf) m bs q m' = (q = KernelBuf (buf @ bs) \<and> m' = m)"
| "delivered (UserAddr root a) m bs q m' = (q = UserAddr root a \<and>
     (\<forall>x. user_byte m' root x = (if unat (x - a) < length bs then Some (bs ! unat (x - a)) else user_byte m root x)))"

lemma delivered_nil: "delivered p m [] p m"
  by (cases p) auto

lemma unat_shift: "k + n < 2 ^ 64 \<Longrightarrow> unat (y - of_nat k :: u64) < n \<longleftrightarrow> k \<le> unat y \<and> unat y < k + n"
  using unat_u64_less [of y] by (auto simp: unat_sub_if' unat_of_nat take_bit_nat_eq_self split: if_splits)

lemma unat_shift_eq: "k + n < 2 ^ 64 \<Longrightarrow> k \<le> unat y \<Longrightarrow> unat (y - of_nat k :: u64) = unat y - k"
  by (auto simp: unat_sub_if' unat_of_nat take_bit_nat_eq_self)

lemma copy_to_ok:
  assumes d: "delivered p m bs q m'" and r: "place_room q m' n" and n: "length bs + length cs \<le> n"
  shows "\<exists>q' m''. copy_to q (length bs) cs m' = Some (0, q', m'') \<and> delivered p m (bs @ cs) q' m'' \<and> place_room q' m'' n"
proof (cases p)
  case (KernelBuf buf)
  then show ?thesis using d by (auto simp: copy_to_def)
next
  case (UserAddr root a)
  then have q: "q = UserAddr root a" using d by simp
  let ?a = "a + of_nat (length bs)"
  note R = r [unfolded q place_room.simps user_room_def]
  have w: "unat ?a + length cs < 2 ^ 64" using R n by (simp add: unat_plus_no_wrap)
  have mp: "user_mapped m' root (?a + of_nat i) \<and> leaf m' root (?a + of_nat i) AND PTE_F = 0" if "i < length cs" for i
  proof -
    have "a + of_nat (length bs + i) = ?a + of_nat i" by (simp add: add.assoc)
    moreover have "length bs + i < n" using n that by simp
    ultimately show ?thesis using R by metis
  qed
  obtain m'' where m'': "copyout root ?a cs m' = Some (0, m'')" "kvalid m''" "pt_wf m'' root" "user_private m'' root"
    "\<forall>x. leaf m'' root x = leaf m' root x"
    "\<forall>x. user_byte m'' root x = (if unat (x - ?a) < length cs then Some (cs ! unat (x - ?a)) else user_byte m' root x)"
    using copyout_ok [of m' root ?a cs] R w mp by blast
  have "length bs + length cs < 2 ^ 64" using R n by simp
  note sh = unat_shift [OF this] unat_shift_eq [OF this]
  have e: "x - ?a = x - a - of_nat (length bs)" for x by simp
  have "user_byte m'' root x = (if unat (x - a) < length (bs @ cs) then Some ((bs @ cs) ! unat (x - a)) else user_byte m root x)" for x
    using m''(6) d UserAddr sh [of "x - a"] unfolding e by (auto simp: nth_append)
  moreover have "place_room q m'' n" using R m'' q by (simp add: user_room_def user_mapped_def)
  ultimately show ?thesis using m''(1) q UserAddr by (auto simp: copy_to_def either_copyout_def)
qed

section \<open>Reading\<close>

definition no_holes :: "fs \<Rightarrow> nat \<Rightarrow> bool" where
  "no_holes s ip \<longleftrightarrow> unat (i_size (icache s ip)) \<le> MAXFILE * BSIZE \<and>
     (\<forall>off < unat (i_size (icache s ip)). node s ip (PData (off div BSIZE)) \<noteq> 0)"

lemma chunk_block:
  assumes "i < chunk off n"
  shows "(off + i) div BSIZE = off div BSIZE" and "(off + i) mod BSIZE = off mod BSIZE + i"
proof -
  have i: "off mod BSIZE + i < BSIZE" using assms by (auto simp: chunk_def)
  have "off + i = off div BSIZE * BSIZE + (off mod BSIZE + i)" by simp
  then show "(off + i) div BSIZE = off div BSIZE" "(off + i) mod BSIZE = off mod BSIZE + i"
    using i by (metis add.commute div_mult_self3 div_less add_0_right less_nat_zero_code, metis mod_less mod_mult_self3)
qed

lemma get_bytes_chunk:
  assumes "node s ip (PData (off div BSIZE)) = b" and "b \<noteq> 0" and "k \<le> chunk off n"
  shows "get_bytes (off mod BSIZE) k (bdata b s) = map (fbyte s ip) [off..<off + k]"
proof (rule nth_equalityI)
  fix i assume "i < length (get_bytes (off mod BSIZE) k (bdata b s))"
  then have "i < k" "i < chunk off n" using assms(3) by auto
  then show "get_bytes (off mod BSIZE) k (bdata b s) ! i = map (fbyte s ip) [off..<off + k] ! i"
    using chunk_block [of i off n] assms by (simp add: get_bytes_def fbyte_def)
qed simp

lemma readi_from_ok:
  assumes "\<And>x. off \<le> x \<Longrightarrow> x < off + (n - tot) \<Longrightarrow> x < MAXFILE * BSIZE \<and> node s ip (PData (x div BSIZE)) \<noteq> 0"
    and "tot \<le> n" and "delivered p m bs q m'" and "length bs = tot" and "place_room q m' n"
  shows "\<exists>q' m''. readi_from ip off n tot q m' s = Some (n, q', m'', s) \<and>
    delivered p m (bs @ map (fbyte s ip) [off..<off + (n - tot)]) q' m''"
  using assms
proof (induction "n - tot" arbitrary: off tot bs q m' rule: less_induct)
  case less
  show ?case
  proof (cases "tot < n")
    case False
    then have "tot = n" using less(3) by simp
    then show ?thesis using less(4) by (subst readi_from.simps) simp
  next
    case True
    let ?k = "chunk off (n - tot)"
    have k: "0 < ?k" "?k \<le> n - tot" using True by (auto simp: chunk_def BSIZE_def)
    have b: "off div BSIZE < MAXFILE" "node s ip (PData (off div BSIZE)) \<noteq> 0"
      using less(2) [of off] True by (auto simp: BSIZE_def less_mult_imp_div_less)
    let ?c = "map (fbyte s ip) [off..<off + ?k]"
    have c: "get_bytes (off mod BSIZE) ?k (bdata (node s ip (PData (off div BSIZE))) s) = ?c"
      using get_bytes_chunk [OF refl b(2) order_refl] .
    have "length bs + length ?c \<le> n" using less(3,5) k by simp
    then obtain q1 m1 where q1: "copy_to q (length bs) ?c m' = Some (0, q1, m1)" "delivered p m (bs @ ?c) q1 m1" "place_room q1 m1 n"
      using copy_to_ok [OF less(4) less(6), of ?c] by blast
    have r: "readi_from ip off n tot q m' s = readi_from ip (off + ?k) n (tot + ?k) q1 m1 s"
      using True q1(1) less(5) c by (subst readi_from.simps) (simp add: bmap_present [OF b(2,1)] Let_def)
    have e: "off + ?k + (n - (tot + ?k)) = off + (n - tot)" using k by simp
    have "\<exists>q' m''. readi_from ip (off + ?k) n (tot + ?k) q1 m1 s = Some (n, q', m'', s) \<and>
        delivered p m ((bs @ ?c) @ map (fbyte s ip) [off + ?k..<off + ?k + (n - (tot + ?k))]) q' m''"
      using k less(5) by (intro less(1) less(2) q1) (auto simp: e)
    moreover have "?c @ map (fbyte s ip) [off + ?k..<off + (n - tot)] = map (fbyte s ip) [off..<off + (n - tot)]"
      using k upt_add_eq_append [of off "off + ?k" "n - tot - ?k"] by (simp flip: map_append)
    ultimately show ?thesis unfolding r e by simp
  qed
qed

lemma readi_ok:
  assumes "no_holes s ip" and "place_room dst m (unat n)"
  shows "if unat off > unat (i_size (icache s ip)) \<or> unat off + unat n \<ge> 2 ^ 32 then readi ip dst off n m s = Some (0, dst, m, s)
    else \<exists>q m'. readi ip dst off n m s = Some (min (unat n) (unat (i_size (icache s ip)) - unat off), q, m', s) \<and>
      delivered dst m (map (fbyte s ip) [unat off..<unat off + min (unat n) (unat (i_size (icache s ip)) - unat off)]) q m'"
proof -
  let ?sz = "i_size (icache s ip)"
  have lt: "off > ?sz \<longleftrightarrow> unat off > unat ?sz" by (simp add: word_less_nat_alt)
  have ov: "off + n < off \<longleftrightarrow> unat off + unat n \<ge> 2 ^ 32" 
    using unat_u32_less [of off] unat_u32_less [of n] by (auto simp: word_less_nat_alt unat_plus_if')
  show ?thesis
  proof (cases "unat off > unat ?sz \<or> unat off + unat n \<ge> 2 ^ 32")
    case True
    then show ?thesis by (simp add: readi_def lt ov)
  next
    case False
    let ?r = "min (unat n) (unat ?sz - unat off)"
    have "unat (off + n) = unat off + unat n" using False by (simp add: unat_plus_if')
    then have r: "unat (if off + n > ?sz then ?sz - off else n) = ?r"
      using False by (auto simp: word_less_nat_alt unat_sub_if')
    have "place_room dst m ?r" using assms(2) by (cases dst) (auto simp: user_room_def)
    moreover have "x < MAXFILE * BSIZE \<and> node s ip (PData (x div BSIZE)) \<noteq> 0" if "x < unat off + (?r - 0)" for x
      using assms(1) that False by (auto simp: no_holes_def)
    ultimately have "\<exists>q m'. readi_from ip (unat off) ?r 0 dst m s = Some (?r, q, m', s) \<and>
        delivered dst m ([] @ map (fbyte s ip) [unat off..<unat off + (?r - 0)]) q m'"
      using delivered_nil by (intro readi_from_ok) auto
    then show ?thesis using False lt ov r by (simp add: readi_def Let_def cong: if_cong)
  qed
qed

text \<open>
  C21. \<^verbatim>\<open>readi\<close> returns exactly the bytes of the file: starting at an offset within the file
  it always returns, with \<open>n\<close> or the number of bytes up to the end of the file, delivers
  precisely those bytes to the kernel buffer or the user buffer, whatever blocks of the tree
  hold them, changes nothing else in user memory and nothing in the file system. An offset
  beyond the end, or a range that overflows 32 bits, reads nothing.
\<close>

theorem readi_exact:
  assumes "no_holes s ip" and "place_room dst m (unat n)"
  shows "if unat off > unat (i_size (icache s ip)) \<or> unat off + unat n \<ge> 2 ^ 32 then readi ip dst off n m s = Some (0, dst, m, s)
    else \<exists>q m'. readi ip dst off n m s = Some (min (unat n) (unat (i_size (icache s ip)) - unat off), q, m', s) \<and>
      delivered dst m (map (fbyte s ip) [unat off..<unat off + min (unat n) (unat (i_size (icache s ip)) - unat off)]) q m'"
  using readi_ok [OF assms] .

section \<open>Writing\<close>

lemma node_cong:
  assumes "\<And>j. i_addrs (icache t ip) j = i_addrs (icache s ip) j"
    and "\<And>q. pos_ok q \<Longrightarrow> (\<forall>bn. q \<noteq> PData bn) \<Longrightarrow> node s ip q \<noteq> 0 \<Longrightarrow> bdata (node s ip q) t = bdata (node s ip q) s"
    and "pos_ok r"
  shows "node t ip r = node s ip r"
  using assms(3)
proof (induction r rule: measure_induct_rule [of depth])
  case (less r)
  obtain q i where u: "up r = (q, i)" by fastforce
  show ?case
  proof (cases q)
    case None
    then show ?thesis using u assms(1) by (simp add: node_None)
  next
    case (Some q')
    then have q': "pos_ok q'" "\<forall>bn. q' \<noteq> PData bn" using up_ok(3) [OF less(2) u] by auto
    have u': "up r = (Some q', i)" using u Some by simp
    have "node t ip q' = node s ip q'" using less(1) [OF up_depth [OF u'] q'(1)] .
    then show ?thesis using node_Some [OF u', of s] node_Some [OF u', of t] assms(2) [OF q'] by (auto simp: slot_def)
  qed
qed

text \<open>
  A change of blocks that are neither bitmap nor index blocks leaves the tree, the bitmap and
  the reserved blocks as they are.
\<close>

lemma data_write_extends:
  assumes ok: "meta_ok s" "tree_ok s ip"
    and t: "fs_sb t = fs_sb s" "\<exists>a. icache t = (icache s)(ip := (icache s ip)\<lparr>i_addrs := a\<rparr>)"
      "\<And>j. i_addrs (icache t ip) j = i_addrs (icache s ip) j"
    and d: "\<And>c. c \<noteq> b \<Longrightarrow> bdata c t = bdata c s" and b: "b = node s ip (PData bn)" "b \<noteq> 0" "bn < MAXFILE"
  shows "tree_extends ip s t" and "\<And>r. pos_ok r \<Longrightarrow> node t ip r = node s ip r"
proof -
  have p: "pos_ok (PData bn)" using b by simp
  have nb: "\<not> meta s b" using ok(2) p b by (auto simp: tree_ok_def)
  have ne: "node s ip q \<noteq> b" if "pos_ok q" "q \<noteq> PData bn" for q
    using ok(2) p b that unfolding tree_ok_def by metis
  show n: "node t ip r = node s ip r" if "pos_ok r" for r
    using ne d by (intro node_cong t(3) that) auto
  have us: "used t c = used s c" if "c < nblocks s" for c
  proof (intro used_cong t(1) that d)
    show "e \<noteq> b" if "is_bitmap s e" for e using nb that by (auto simp: meta_def)
  qed
  have mt: "meta t = meta s" using meta_cong [OF t(1)] by auto
  have "meta_ok t" "tree_ok t ip" using ok us n t(1) by (auto simp: meta_ok_def tree_ok_def mt)
  moreover have "bdata c t = bdata c s" if "\<not> in_tree s ip c" for c
    using that p b unfolding in_tree_def by (intro d) blast
  ultimately show "tree_extends ip s t" using t(1,2) us n unfolding tree_extends_def by auto
qed

text \<open>The bytes \<open>cs\<close> are in the file at offset \<open>off\<close>.\<close>

definition stored :: "nat \<Rightarrow> nat \<Rightarrow> u8 list \<Rightarrow> fs \<Rightarrow> fs \<Rightarrow> bool" where
  "stored ip off cs s t \<longleftrightarrow> tree_extends ip s t \<and>
     (\<forall>x < MAXFILE * BSIZE. fbyte t ip x = (if off \<le> x \<and> x < off + length cs then cs ! (x - off) else fbyte s ip x)) \<and>
     (\<forall>x. off \<le> x \<longrightarrow> x < off + length cs \<longrightarrow> node t ip (PData (x div BSIZE)) \<noteq> 0)"

lemma stored_nil: "meta_ok s \<Longrightarrow> tree_ok s ip \<Longrightarrow> stored ip off [] s s"
  by (auto simp: stored_def tree_extends_refl)

lemma stored_append:
  assumes "stored ip off as s t" and "stored ip (off + length as) bs t u" and "off + length as \<le> MAXFILE * BSIZE"
  shows "stored ip off (as @ bs) s u"
proof -
  have "node u ip (PData (x div BSIZE)) \<noteq> 0" if "off \<le> x" "x < off + length (as @ bs)" for x
  proof (cases "x < off + length as")
    case True
    then have "pos_ok (PData (x div BSIZE))" using assms(3) by (auto simp: BSIZE_def less_mult_imp_div_less)
    moreover have "node t ip (PData (x div BSIZE)) \<noteq> 0" using True that assms(1) by (auto simp: stored_def)
    ultimately show ?thesis using assms(2) unfolding stored_def tree_extends_def by metis
  next
    case False
    then show ?thesis using that assms(2) by (auto simp: stored_def)
  qed
  moreover have "fbyte u ip x = (if off \<le> x \<and> x < off + length (as @ bs) then (as @ bs) ! (x - off) else fbyte s ip x)"
    if "x < MAXFILE * BSIZE" for x
  proof -
    have "fbyte u ip x = (if off + length as \<le> x \<and> x < off + length as + length bs then bs ! (x - (off + length as)) else fbyte t ip x)"
      "fbyte t ip x = (if off \<le> x \<and> x < off + length as then as ! (x - off) else fbyte s ip x)"
      using assms(1,2) that by (auto simp: stored_def)
    then show ?thesis by (auto simp: nth_append)
  qed
  moreover have "tree_extends ip s u" using assms(1,2) tree_extends_trans by (auto simp: stored_def)
  ultimately show ?thesis by (auto simp: stored_def)
qed

text \<open>One turn of the loop of \<^verbatim>\<open>writei\<close>.\<close>

lemma stored_chunk:
  assumes ok: "meta_ok s" "tree_ok s ip" and b: "bmap ip (off div BSIZE) s = Some (b, u)" and off: "off < MAXFILE * BSIZE"
    and cs: "length cs = chunk off n" and w: "bput b (put_bytes (off mod BSIZE) cs (bdata b u)) u = Some t"
  shows "stored ip off cs s t"
proof -
  have bn: "off div BSIZE < MAXFILE" using off by (auto simp: BSIZE_def less_mult_imp_div_less)
  have g: "grows ip s u" "b = node u ip (PData (off div BSIZE))" "b \<noteq> 0" using bmap_grows [OF ok bn b] by auto
  then have ok': "meta_ok u" "tree_ok u ip" by (auto simp: grows_def tree_extends_def)
  note P = bput_sel [OF w]
  have ic: "\<exists>a. icache t = (icache u)(ip := (icache u ip)\<lparr>i_addrs := a\<rparr>)"
    using P(3) by (intro exI [of _ "i_addrs (icache u ip)"]) simp
  have "i_addrs (icache t ip) j = i_addrs (icache u ip) j" for j using P(3) by simp
  note E = data_write_extends [OF ok' P(2) ic this _ g(2,3) bn]
  have n: "node t ip r = node u ip r" if "pos_ok r" for r using E(2) [OF _ that] P(1) by simp
  have "tree_extends ip s t" using g(1) E(1) P(1) tree_extends_trans unfolding grows_def by fastforce
  moreover have "fbyte t ip x = (if off \<le> x \<and> x < off + length cs then cs ! (x - off) else fbyte s ip x)"
    if x: "x < MAXFILE * BSIZE" for x
  proof -
    have px: "pos_ok (PData (x div BSIZE))" using x by (auto simp: BSIZE_def less_mult_imp_div_less)
    have same: "fbyte u ip x = fbyte s ip x" using g(1) x by (simp add: grows_def)
    show ?thesis
    proof (cases "x div BSIZE = off div BSIZE")
      case True
      then have e: "x = off div BSIZE * BSIZE + x mod BSIZE" "off = off div BSIZE * BSIZE + off mod BSIZE"
        using div_mult_mod_eq [of x BSIZE] by simp_all
      have "off \<le> x \<longleftrightarrow> off mod BSIZE \<le> x mod BSIZE" "off \<le> x \<Longrightarrow> x - off = x mod BSIZE - off mod BSIZE"
        "x < off + length cs \<longleftrightarrow> x mod BSIZE < off mod BSIZE + length cs"
        by (use e in linarith)+
      then show ?thesis using n [OF px] P(1) g True same by (auto simp: fbyte_def put_bytes_def Let_def)
    next
      case False
      have "\<not> (off \<le> x \<and> x < off + length cs)"
        using chunk_block(1) [of "x - off" off n] False cs by (auto simp: less_diff_conv2)
      moreover have "node u ip (PData (x div BSIZE)) \<noteq> b"
        using ok'(2) px False g(2,3) bn unfolding tree_ok_def by (metis pos.inject(2) pos_ok.simps(4))
      ultimately show ?thesis using n [OF px] P(1) same by (auto simp: fbyte_def Let_def)
    qed
  qed
  moreover have "node t ip (PData (x div BSIZE)) \<noteq> 0" if "off \<le> x" "x < off + length cs" for x
    using chunk_block(1) [of "x - off" off n] that cs n [of "PData (off div BSIZE)"] bn g by (auto simp: less_diff_conv2)
  ultimately show ?thesis by (auto simp: stored_def)
qed

lemma writei_from_stored:
  assumes "meta_ok s" and "tree_ok s ip" and "place_bytes p m bs" and "length bs = n" and "tot \<le> n"
    and "off + (n - tot) \<le> MAXFILE * BSIZE" and "writei_from ip off n tot p m s = Some (off', t)"
  shows "off' = off + (n - tot) \<and> stored ip off (drop tot bs) s t"
  using assms
proof (induction "n - tot" arbitrary: off tot s rule: less_induct)
  case less
  show ?case
  proof (cases "tot < n")
    case False
    then have "off' = off" "t = s" using less(8) by (subst (asm) writei_from.simps, simp)+
    then show ?thesis using False less(2,3,5,6) stored_nil by simp
  next
    case True
    let ?k = "chunk off (n - tot)" let ?cs = "take ?k (drop tot bs)"
    have k: "0 < ?k" "?k \<le> n - tot" using True by (auto simp: chunk_def BSIZE_def)
    have c: "copy_from p tot ?k m = Some (Inr ?cs)" using copy_from_ok [OF less(4)] k less(5,6) by simp
    obtain b u v where b: "bmap ip (off div BSIZE) s = Some (b, u)"
        "bput b (put_bytes (off mod BSIZE) ?cs (bdata b u)) u = Some v"
        "writei_from ip (off + ?k) n (tot + ?k) p m v = Some (off', t)"
      using less(8) True c by (subst (asm) writei_from.simps) (auto simp: Let_def split: option.splits)
    have l: "length ?cs = ?k" using k less(5) by simp
    have off: "off < MAXFILE * BSIZE" using less(7) True by simp
    have st: "stored ip off ?cs s v" using stored_chunk [OF less(2,3) b(1) off l b(2)] .
    then have ok: "meta_ok v" "tree_ok v ip" by (auto simp: stored_def tree_extends_def)
    have r: "off' = off + ?k + (n - (tot + ?k)) \<and> stored ip (off + ?k) (drop (tot + ?k) bs) v t"
      by (rule less(1) [OF _ ok less(4,5) _ _ b(3)]) (use k less(6,7) True in linarith)+
    have "drop tot bs = ?cs @ drop (tot + ?k) bs" using append_take_drop_id [of ?k "drop tot bs"] by (simp add: add.commute)
    moreover have "stored ip off (?cs @ drop (tot + ?k) bs) s t"
      using stored_append [OF st] r l k less(7) by simp
    ultimately show ?thesis using r k by simp
  qed
qed

text \<open>The inode blocks are not bitmap blocks.\<close>

definition layout_ok :: "fs \<Rightarrow> bool" where
  "layout_ok s \<longleftrightarrow> (\<forall>i < unat (sb_ninodes (fs_sb s)). \<not> is_bitmap s (IBLOCK i s))"

text \<open>Storing the inode changes its block only; the cached inode has its new size.\<close>

lemma iupdate_size:
  assumes ok: "meta_ok s" "tree_ok s ip" "layout_ok s" and i: "unat (i_inum (icache s ip)) < unat (sb_ninodes (fs_sb s))"
    and t: "iupdate ip (upd_inode ip (\<lambda>x. x\<lparr>i_size := z\<rparr>) s) = Some t"
  shows "meta_ok t" and "tree_ok t ip" and "\<And>p. pos_ok p \<Longrightarrow> node t ip p = node s ip p"
    and "\<And>x. x < MAXFILE * BSIZE \<Longrightarrow> fbyte t ip x = fbyte s ip x"
    and "\<And>c. \<not> meta s c \<Longrightarrow> bdata c t = bdata c s" and "fs_sb t = fs_sb s"
    and "icache t = (icache s)(ip := (icache s ip)\<lparr>i_size := z\<rparr>)" and "\<And>c. c < nblocks s \<Longrightarrow> used t c = used s c"
proof -
  let ?b = "IBLOCK (unat (i_inum (icache s ip))) s"
  have b: "\<not> is_bitmap s ?b" "meta s ?b" using ok i by (auto simp: layout_ok_def meta_def)
  note P = bput_sel [OF t [unfolded iupdate_def Let_def]]
  show sb: "fs_sb t = fs_sb s" and "icache t = (icache s)(ip := (icache s ip)\<lparr>i_size := z\<rparr>)" using P by simp_all
  have d: "bdata c t = bdata c s" if "c \<noteq> ?b" for c using P(1) [of c] that by (simp add: IBLOCK_def)
  then show dm: "bdata c t = bdata c s" if "\<not> meta s c" for c using that b by metis
  have nm: "\<not> meta s (node s ip q)" if "pos_ok q" "node s ip q \<noteq> 0" for q using ok(2) that by (auto simp: tree_ok_def)
  show n: "node t ip p = node s ip p" if "pos_ok p" for p
    using P(3) nm dm by (intro node_cong that) auto
  show us: "used t c = used s c" if "c < nblocks s" for c
  proof (intro used_cong sb that d)
    show "e \<noteq> ?b" if "is_bitmap s e" for e using b that by blast
  qed
  have mt: "meta t = meta s" using meta_cong [OF sb] by auto
  show "meta_ok t" "tree_ok t ip" using ok us n sb by (auto simp: meta_ok_def tree_ok_def mt)
  show "fbyte t ip x = fbyte s ip x" if "x < MAXFILE * BSIZE" for x
  proof -
    have px: "pos_ok (PData (x div BSIZE))" using that by (auto simp: BSIZE_def less_mult_imp_div_less)
    then show ?thesis using n [OF px] nm [OF px] dm by (auto simp: fbyte_def Let_def)
  qed
qed

lemma writei_ok:
  assumes ok: "meta_ok s" "tree_ok s ip" "layout_ok s" "no_holes s ip"
    and i: "unat (i_inum (icache s ip)) < unat (sb_ninodes (fs_sb s))"
    and bs: "place_bytes src m bs" "length bs = unat n" "0 < n"
    and off: "unat off \<le> unat (i_size (icache s ip))" "unat off + unat n \<le> MAXFILE * BSIZE"
    and r: "writei ip src off n m s = Some (r, t)"
  shows "r = sint n \<and> unat (i_size (icache t ip)) = max (unat (i_size (icache s ip))) (unat off + unat n) \<and>
    (\<forall>x < MAXFILE * BSIZE. fbyte t ip x =
       (if unat off \<le> x \<and> x < unat off + unat n then bs ! (x - unat off) else fbyte s ip x)) \<and>
    meta_ok t \<and> tree_ok t ip \<and> no_holes t ip \<and>
    (\<forall>b < nblocks s. used s b \<longrightarrow> used t b \<and> (\<not> meta s b \<longrightarrow> \<not> in_tree s ip b \<longrightarrow> bdata b t = bdata b s)) \<and>
    (\<exists>a. icache t = (icache s)(ip := (icache s ip)\<lparr>i_addrs := a, i_size := i_size (icache t ip)\<rparr>))"
proof -
  let ?e = "unat off + unat n" let ?z = "i_size (icache s ip)"
  have e32: "?e < 2 ^ 32" using off(2) by (simp add: tree_consts)
  then have on: "unat (off + n) = ?e" by (simp add: unat_plus_if')
  then have g: "\<not> off > ?z" "\<not> off + n < off" "\<not> unat (off + n) > MAXFILE * BSIZE"
    using off by (auto simp: word_less_nat_alt)
  obtain off' u where u: "writei_from ip (unat off) (unat n) 0 src m s = Some (off', u)" "r = sint n"
     "iupdate ip (if off' > unat (i_size (icache u ip)) then upd_inode ip (\<lambda>x. x\<lparr>i_size := of_nat off'\<rparr>) u else u) = Some t"
    using r g bs(3) by (auto simp: writei_def split: bind_splits if_splits)
  have st: "off' = ?e" "stored ip (unat off) bs s u"
    using writei_from_stored [OF ok(1,2) bs(1,2) _ _ u(1)] off(2) by auto
  then have ex: "tree_extends ip s u" by (simp add: stored_def)
  then obtain a where a: "icache u = (icache s)(ip := (icache s ip)\<lparr>i_addrs := a\<rparr>)" by (auto simp: tree_extends_def)
  define z where "z = (if ?e > unat ?z then of_nat ?e else ?z)"
  have "iupdate ip (upd_inode ip (\<lambda>x. x\<lparr>i_size := z\<rparr>) u) = Some t"
  proof (cases "?e > unat ?z")
    case False
    then have "upd_inode ip (\<lambda>x. x\<lparr>i_size := z\<rparr>) u = u" using a by (simp add: upd_inode_def z_def fun_upd_idem)
    then show ?thesis using u(3) st(1) a False by simp
  qed (use u(3) st(1) a z_def in simp)
  moreover have "layout_ok u" "unat (i_inum (icache u ip)) < unat (sb_ninodes (fs_sb u))" "meta_ok u" "tree_ok u ip"
    using ok(3) i a ex by (auto simp: layout_ok_def tree_extends_def is_bitmap_def BBLOCK_def IBLOCK_def)
  ultimately have "meta_ok t" "tree_ok t ip" and n: "\<And>p. pos_ok p \<Longrightarrow> node t ip p = node u ip p"
    and f: "\<And>x. x < MAXFILE * BSIZE \<Longrightarrow> fbyte t ip x = fbyte u ip x" and d: "\<And>c. \<not> meta u c \<Longrightarrow> bdata c t = bdata c u"
    and ic: "icache t = (icache u)(ip := (icache u ip)\<lparr>i_size := z\<rparr>)" and us: "\<And>c. c < nblocks u \<Longrightarrow> used t c = used u c"
    using iupdate_size [of u ip z t] by blast+
  have z: "unat (i_size (icache t ip)) = max (unat ?z) ?e"
    using ic e32 of_nat_inverse [OF refl, of ?e, where 'a = 32] by (simp add: z_def max_def del: of_nat_add)
  have "node t ip (PData (x div BSIZE)) \<noteq> 0" if "x < max (unat ?z) ?e" for x
  proof -
    have "x < MAXFILE * BSIZE" using that ok(4) off(2) by (auto simp: no_holes_def less_max_iff_disj)
    then have p: "pos_ok (PData (x div BSIZE))" by (auto simp: BSIZE_def less_mult_imp_div_less)
    show ?thesis
    proof (cases "unat off \<le> x \<and> x < ?e")
      case True
      then show ?thesis using st(2) n [OF p] bs(2) by (simp add: stored_def)
    next
      case False
      then have "x < unat ?z" using that off(1) by auto
      then show ?thesis using ok(4) ex n [OF p] p by (auto simp: no_holes_def tree_extends_def)
    qed
  qed
  then have "no_holes t ip" using z ok(4) off(2) by (simp add: no_holes_def)
  moreover have "used t b \<and> (\<not> meta s b \<longrightarrow> \<not> in_tree s ip b \<longrightarrow> bdata b t = bdata b s)" if "b < nblocks s" "used s b" for b
    using that ex us [of b] d [of b] meta_cong [of u s b] by (auto simp: tree_extends_def meta_def)
  moreover have "icache t = (icache s)(ip := (icache s ip)\<lparr>i_addrs := a, i_size := i_size (icache t ip)\<rparr>)"
    using ic a by simp
  moreover have "fbyte t ip x = (if unat off \<le> x \<and> x < ?e then bs ! (x - unat off) else fbyte s ip x)"
    if "x < MAXFILE * BSIZE" for x using f [OF that] st(2) that bs(2) by (simp add: stored_def)
  ultimately show ?thesis using u(2) z \<open>meta_ok t\<close> \<open>tree_ok t ip\<close> by blast
qed


section \<open>Writes return\<close>

text \<open>Room for \<open>l\<close> more log writes and \<open>f\<close> more block allocations.\<close>

definition budget :: "nat \<Rightarrow> nat \<Rightarrow> fs \<Rightarrow> bool" where
  "budget l f s \<longleftrightarrow> log_room l s \<and> f \<le> card {b. b < nblocks s \<and> \<not> used s b}"

lemma budget_mono: "budget l f s \<Longrightarrow> l' \<le> l \<Longrightarrow> f' \<le> f \<Longrightarrow> budget l' f' s"
  by (auto simp: budget_def intro: log_room_mono)

lemma balloc_budget:
  assumes "meta_ok s" and "budget (l + 2) (Suc f) s"
  shows "\<exists>b t. balloc s = Some (b, t) \<and> budget l f t"
proof -
  let ?F = "{b. b < nblocks s \<and> \<not> used s b}"
  have c: "Suc f \<le> card ?F" and r: "log_room (Suc (Suc l)) s" using assms(2) by (auto simp: budget_def)
  then have "?F \<noteq> {}" by (metis card.empty not_less_eq_eq zero_le)
  then have nf: "\<not> (\<forall>c < nblocks s. used s c)" by blast
  from balloc_from_ok [OF meta_ok_bitmap [OF assms(1)] r, of 0] nf
  obtain b t where b: "balloc s = Some (b, t)" "allocated b s t" "log_room l t"
    by (auto simp: balloc_def split: option.splits)
  then have "{c. c < nblocks t \<and> \<not> used t c} = ?F - {b}" "b \<in> ?F" by (auto simp: allocated_def)
  then have "f \<le> card {c. c < nblocks t \<and> \<not> used t c}" using c by (simp add: card_Diff_singleton)
  then show ?thesis using b by (auto simp: budget_def)
qed

lemma budget_upd [simp]: "budget l f (upd_inode ip g s) = budget l f s"
  by (simp add: budget_def)

lemma bput_budget:
  assumes "budget (Suc l) f s" and "\<not> is_bitmap s b"
  shows "\<exists>t. bput b d s = Some t \<and> budget l f t"
proof -
  obtain t where t: "bput b d s = Some t" "log_room l t" using assms(1) bput_room [of l s b d] by (auto simp: budget_def)
  note P = bput_sel [OF t(1)]
  have "used t c = used s c" if "c < nblocks s" for c
    using P(1) assms(2) by (intro used_cong P(2) that) auto
  then have "{b. b < nblocks t \<and> \<not> used t b} = {b. b < nblocks s \<and> \<not> used s b}" using P(2) by auto
  then show ?thesis using t assms(1) by (simp add: budget_def)
qed

lemma bmap_addr_budget:
  assumes "meta_ok s" and "budget (l + 3) (Suc f) s"
  shows "\<exists>b t. bmap_addr ip i s = Some (b, t) \<and> budget l f t"
proof (cases "unat (i_addrs (icache s ip) i) = 0")
  case True
  have "budget (l + 2) (Suc f) s" by (rule budget_mono [OF assms(2)]) simp_all
  then obtain b t where "balloc s = Some (b, t)" "budget l f t" using balloc_budget [OF assms(1)] by blast
  then show ?thesis using True by (auto simp: bmap_addr_def Let_def)
next
  case False
  then show ?thesis using budget_mono [OF assms(2), of l f] by (auto simp: bmap_addr_def Let_def)
qed

lemma bmap_slot_budget:
  assumes "meta_ok s" and "budget (l + 3) (Suc f) s" and "\<not> is_bitmap s a"
  shows "\<exists>b t. bmap_slot a i s = Some (b, t) \<and> budget l f t"
proof (cases "unat (get32 (4 * i) (bdata a s)) = 0")
  case True
  obtain b t where b: "balloc s = Some (b, t)" "budget (Suc l) f t" using balloc_budget [OF assms(1), of "Suc l" f] assms(2) by (auto simp: numeral_3_eq_3)
  then have "\<not> is_bitmap t a" using assms(3) balloc_allocated [OF assms(1) b(1)] is_bitmap_cong [of t s a] by (auto simp: allocated_def)
  from bput_budget [OF b(2) this] obtain u where
    "bput a (put32 (4 * i) (of_nat b) (bdata a t)) t = Some u" "budget l f u" by blast
  then show ?thesis using True b by (auto simp: bmap_slot_def Let_def)
next
  case False
  then show ?thesis using budget_mono [OF assms(2), of l f] by (auto simp: bmap_slot_def Let_def)
qed

text \<open>The number of blocks on the way to block \<open>bn\<close> of a file.\<close>

definition levels :: "nat \<Rightarrow> nat" where
  "levels bn = (if bn < NDIRECT then 1 else if bn < NDIRECT + NINDIRECT then 2 else 3)"

lemma bmap_budget:
  assumes ok: "meta_ok s" "tree_ok s ip" and bn: "bn < MAXFILE" and "budget (l + 3 * levels bn) (f + levels bn) s"
  shows "\<exists>b t. bmap ip bn s = Some (b, t) \<and> budget l f t"
proof -
  have nb: "\<not> is_bitmap u (node u ip p)" if "grows ip s u" "pos_ok p" "node u ip p \<noteq> 0" for u p
    using that by (auto simp: grows_def tree_extends_def tree_ok_def meta_def)
  have mo: "meta_ok u" "tree_ok u ip" if "grows ip s u" for u using that by (auto simp: grows_def tree_extends_def)
  consider "bn < 11" | "11 \<le> bn" "bn < 267" | "267 \<le> bn" by linarith
  then show ?thesis
  proof cases
    case 1
    then have "budget (l + 3) (Suc f) s" using assms(4) by (simp add: levels_def tree_consts)
    then show ?thesis using bmap_addr_budget [OF ok(1)] by (simp add: bmap_cases(1) [OF 1])
  next
    case 2
    then have "budget (l + 3 + 3) (Suc (Suc f)) s" using assms(4) by (simp add: levels_def tree_consts add.commute)
    then obtain a u where a: "bmap_addr ip NDIRECT s = Some (a, u)" "budget (l + 3) (Suc f) u"
      using bmap_addr_budget [OF ok(1)] by blast
    have g: "grows ip s u" "node u ip PInd = a" "a \<noteq> 0" using bmap_addr_grows [OF ok _ up.simps(1) a(1)] by auto
    then show ?thesis unfolding bmap_cases(2) [OF 2]
      using a bmap_slot_budget [OF mo(1) [OF g(1)] a(2)] nb [OF g(1), of PInd] by auto
  next
    case 3
    let ?k = "bn - 267"
    have "budget (l + 3 + 3 + 3) (Suc (Suc (Suc f))) s" using assms(4) 3 by (simp add: levels_def tree_consts numeral_3_eq_3)
    then obtain a u where a: "bmap_addr ip (NDIRECT + 1) s = Some (a, u)" "budget (l + 3 + 3) (Suc (Suc f)) u"
      using bmap_addr_budget [OF ok(1)] by blast
    have g: "grows ip s u" "node u ip PDbl = a" "a \<noteq> 0" using bmap_addr_grows [OF ok _ up.simps(2) a(1)] by auto
    then have "\<not> is_bitmap u a" using nb [OF g(1), of PDbl] by simp
    then obtain a' v where a': "bmap_slot a (?k div 256) u = Some (a', v)" "budget (l + 3) (Suc f) v"
      using bmap_slot_budget [OF mo(1) [OF g(1)] a(2)] by blast
    have "?k < 65536" using bn by (auto simp: tree_consts)
    then have q: "pos_ok (PMid (?k div 256))" by (auto simp: tree_consts less_mult_imp_div_less)
    have h: "grows ip u v" "node v ip (PMid (?k div 256)) = a'" "a' \<noteq> 0"
      using bmap_slot_grows [OF mo [OF g(1)] q up.simps(3), of a' v] a'(1) g by auto
    then have gv: "grows ip s v" using grows_trans g(1) by blast
    show ?thesis unfolding bmap_cases(3) [OF 3 bn]
      using a a' bmap_slot_budget [OF mo(1) [OF gv] a'(2)] nb [OF gv q] h by auto
  qed
qed


text \<open>The number of blocks a range of the file touches: the turns of the loop.\<close>

definition nchunks :: "nat \<Rightarrow> nat \<Rightarrow> nat" where
  "nchunks off n = (if n = 0 then 0 else (off mod BSIZE + n - 1) div BSIZE + 1)"

lemma nchunks_step:
  assumes "0 < n"
  shows "nchunks off n = Suc (nchunks (off + chunk off n) (n - chunk off n))"
proof (cases "n \<le> BSIZE - off mod BSIZE")
  case True
  then have "off mod BSIZE + n - 1 < BSIZE" using assms mod_less_divisor [of BSIZE off] by (simp add: BSIZE_def)
  then show ?thesis using True assms by (simp add: nchunks_def chunk_def)
next
  case False
  let ?o = "off mod BSIZE"
  have o: "?o < BSIZE" by (simp add: BSIZE_def)
  have k: "chunk off n = BSIZE - ?o" using False by (simp add: chunk_def)
  have "off + (BSIZE - ?o) = (off div BSIZE + 1) * BSIZE" using o div_mult_mod_eq [of off BSIZE] unfolding add_mult_distrib by linarith
  then have m: "(off + (BSIZE - ?o)) mod BSIZE = 0" by simp
  have e: "?o + n - 1 = (n - (BSIZE - ?o) - 1) + BSIZE" using o False by simp
  have "(?o + n - 1) div BSIZE = (n - (BSIZE - ?o) - 1) div BSIZE + 1" unfolding e using o by (subst div_add_self2) auto
  moreover have "n - (BSIZE - ?o) \<noteq> 0" "n \<noteq> 0" using False assms by auto
  ultimately show ?thesis unfolding nchunks_def k m by (simp only: if_False add_0)
qed

lemma writei_from_returns:
  assumes "meta_ok s" and "tree_ok s ip" and "place_bytes p m bs" and "length bs = n" and "tot \<le> n"
    and "off + (n - tot) \<le> MAXFILE * BSIZE" and "\<And>bn. bn * BSIZE < off + (n - tot) \<Longrightarrow> levels bn \<le> v"
    and "budget (l + nchunks off (n - tot) * (3 * v + 1)) (nchunks off (n - tot) * v) s"
  shows "\<exists>off' t. writei_from ip off n tot p m s = Some (off', t) \<and> log_room l t"
  using assms
proof (induction "n - tot" arbitrary: off tot s rule: less_induct)
  case less
  show ?case
  proof (cases "tot < n")
    case False
    then show ?thesis using less(9) by (subst writei_from.simps) (auto simp: budget_def nchunks_def)
  next
    case True
    let ?k = "chunk off (n - tot)" let ?cs = "take ?k (drop tot bs)" let ?N = "nchunks (off + ?k) (n - (tot + ?k))"
    have k: "0 < ?k" "?k \<le> n - tot" using True by (auto simp: chunk_def BSIZE_def)
    have N: "nchunks off (n - tot) = Suc ?N" using nchunks_step [of "n - tot" off] True by (simp add: diff_diff_add)
    have c: "copy_from p tot ?k m = Some (Inr ?cs)" using copy_from_ok [OF less(4)] k less(5,6) by simp
    have off: "off < MAXFILE * BSIZE" using less(7) True by simp
    then have bn: "off div BSIZE < MAXFILE" by (auto simp: BSIZE_def less_mult_imp_div_less)
    have "off div BSIZE * BSIZE < off + (n - tot)" using div_mult_mod_eq [of off BSIZE] True by linarith
    then have lv: "levels (off div BSIZE) \<le> v" using less(8) by blast
    have "budget (Suc (l + ?N * (3 * v + 1)) + 3 * levels (off div BSIZE)) (?N * v + levels (off div BSIZE)) s"
      by (rule budget_mono [OF less(9)]) (use lv in \<open>simp_all add: N algebra_simps\<close>)
    then obtain b u where b: "bmap ip (off div BSIZE) s = Some (b, u)" "budget (Suc (l + ?N * (3 * v + 1))) (?N * v) u"
      using bmap_budget [OF less(2,3) bn] by blast
    have g: "grows ip s u" "node u ip (PData (off div BSIZE)) = b" "b \<noteq> 0" using bmap_grows [OF less(2,3) bn b(1)] by auto
    then have "\<not> is_bitmap u b" using bn by (auto simp: grows_def tree_extends_def tree_ok_def meta_def)
    then obtain w where w: "bput b (put_bytes (off mod BSIZE) ?cs (bdata b u)) u = Some w" "budget (l + ?N * (3 * v + 1)) (?N * v) w"
      using bput_budget [OF b(2)] by blast
    have "stored ip off ?cs s w" using stored_chunk [OF less(2,3) b(1) off _ w(1)] k less(5) by simp
    then have ok: "meta_ok w" "tree_ok w ip" by (auto simp: stored_def tree_extends_def)
    have e: "off + ?k + (n - (tot + ?k)) = off + (n - tot)" using k by simp
    have "\<exists>off' t. writei_from ip (off + ?k) n (tot + ?k) p m w = Some (off', t) \<and> log_room l t"
      by (rule less(1) [OF _ ok less(4,5) _ _ _ w(2)]) (use k less(6,7) True in linarith, (use k less(6,7) in linarith)+, use less(8) in \<open>simp only: e\<close>)
    then show ?thesis using True c b(1) w(1) by (subst writei_from.simps) (simp add: Let_def)
  qed
qed

lemma writei_total:
  assumes "meta_ok s" and "tree_ok s ip" and "place_bytes src m bs" and "length bs = unat n"
    and "unat off \<le> unat (i_size (icache s ip))" and "unat off + unat n \<le> MAXFILE * BSIZE"
    and "\<And>bn. bn * BSIZE < unat off + unat n \<Longrightarrow> levels bn \<le> v"
    and "budget (nchunks (unat off) (unat n) * (3 * v + 1) + 1) (nchunks (unat off) (unat n) * v) s"
  shows "\<exists>t. writei ip src off n m s = Some (sint n, t)"
proof -
  have "unat off + unat n < 2 ^ 32" using assms(6) by (simp add: tree_consts)
  then have "unat (off + n) = unat off + unat n" by (simp add: unat_plus_if')
  then have g: "\<not> off > i_size (icache s ip)" "\<not> off + n < off" "\<not> unat (off + n) > MAXFILE * BSIZE"
    using assms(5,6) by (auto simp: word_less_nat_alt)
  obtain off' t where t: "writei_from ip (unat off) (unat n) 0 src m s = Some (off', t)" "log_room 1 t"
    using writei_from_returns [OF assms(1-4), of 0 "unat off" v 1] assms(6-8) by (auto simp: add.commute)
  have "\<exists>u. iupdate ip w = Some u" if "log_room 1 w" for w
    using bput_room [of 0 w] that unfolding iupdate_def Let_def by fastforce
  then show ?thesis using g t by (auto simp: writei_def)
qed

text \<open>
  C22. \<^verbatim>\<open>writei\<close> returns: a write inside the limits of a file, whose source can be read, does
  not panic if the transaction has room for the log writes, and the disk the free blocks, that the
  range can need: for each block touched one allocation per level of the tree.
\<close>

theorem writei_returns:
  assumes "meta_ok s" and "tree_ok s ip" and "place_bytes src m bs" and "length bs = unat n"
    and "unat off \<le> unat (i_size (icache s ip))" and "unat off + unat n \<le> MAXFILE * BSIZE"
    and "\<And>bn. bn * BSIZE < unat off + unat n \<Longrightarrow> levels bn \<le> v"
    and "budget (nchunks (unat off) (unat n) * (3 * v + 1) + 1) (nchunks (unat off) (unat n) * v) s"
  shows "\<exists>t. writei ip src off n m s = Some (sint n, t)"
  using writei_total [OF assms] .

section \<open>Examples\<close>

definition demo_file :: fs where
  "demo_file = upd_inode 0 (\<lambda>x. x\<lparr>i_size := 5, i_addrs := (\<lambda>_. 0)(0 := 38)\<rparr>)
     (demo_fs\<lparr>fs_log := set_view 38 (\<lambda>i. of_nat i) (fs_log demo_fs)\<rparr>)"

theorem readi_exact_witness:
  "\<exists>q m'. readi 0 (KernelBuf [7]) 3 10 demo demo_file = Some (2, q, m', demo_file) \<and> q = KernelBuf [7, 3, 4]"
proof -
  have sz: "i_size (icache demo_file 0) = 5" by (simp add: demo_file_def)
  have n: "node demo_file 0 (PData 0) = 38" by (subst node_None [OF up_PData(1)]) (simp_all add: demo_file_def)
  have b: "bdata 38 demo_file = (\<lambda>i. of_nat i)" by (simp add: demo_file_def bdata_def)
  have z: "off div BSIZE = 0 \<and> off mod BSIZE = off" if "off < 5" for off using that by (simp add: BSIZE_def)
  have h: "no_holes demo_file 0" using z n by (simp add: no_holes_def sz tree_consts)
  have "fbyte demo_file 0 3 = 3" "fbyte demo_file 0 4 = 4" using n b by (simp_all add: fbyte_def z)
  then have "map (fbyte demo_file 0) [3..<5] = [3, 4]" by (simp add: upt_rec numeral_eq_Suc)
  then show ?thesis using readi_exact [OF h, of "KernelBuf [7]" demo 10 3] by (simp add: sz)
qed

lemma demo_empty: "node demo_fs ip p = 0"
proof (induction p rule: measure_induct_rule [of depth])
  case (less p)
  show ?case
  proof (cases "up p")
    case (Pair q i)
    then show ?thesis using less up_depth
      by (cases q) (simp_all add: node_None node_Some slot_def, simp add: demo_fs_def)
  qed
qed

lemma demo_meta: "meta demo_fs b \<longleftrightarrow> b \<in> {0, 33, 35}" "layout_ok demo_fs"
proof -
  have i: "IBLOCK i demo_fs = 33" if "i < 16" for i using that by (simp add: IBLOCK_def IPB_def BSIZE_def)
  have b: "is_bitmap demo_fs b \<longleftrightarrow> b = 35" for b using demo_BBLOCK by (auto simp: is_bitmap_def intro!: exI [of _ 0])
  show "meta demo_fs b \<longleftrightarrow> b \<in> {0, 33, 35}" using i by (auto simp: meta_def b intro!: exI [of _ 0])
  show "layout_ok demo_fs" using i by (simp add: layout_ok_def b)
qed

lemma demo_write_ok: "meta_ok demo_fs" "tree_ok demo_fs ip" "no_holes demo_fs ip" "budget 5 1 demo_fs"
proof -
  show "meta_ok demo_fs" using demo_used by (auto simp: meta_ok_def demo_meta)
  show "tree_ok demo_fs ip" by (simp add: tree_ok_def demo_empty)
  show "no_holes demo_fs ip" by (simp add: no_holes_def demo_fs_def)
  have "{b. b < nblocks demo_fs \<and> \<not> used demo_fs b} = {39}" using demo_used by auto
  then show "budget 5 1 demo_fs" using log_room_mono [OF demo_fs_ok(2), of 5] by (simp add: budget_def)
qed

lemma demo_levels: "bn * BSIZE < 3 \<Longrightarrow> levels bn \<le> 1"
  by (cases bn) (simp_all add: levels_def tree_consts)

lemma demo_inode: "i_size (icache demo_fs ip) = 0" "i_inum (icache demo_fs ip) = 0"
  by (simp_all add: demo_fs_def)

theorem writei_returns_witness: "\<exists>t. writei 0 (KernelBuf [1, 2, 3]) 0 3 demo demo_fs = Some (3, t)"
proof -
  have "nchunks 0 3 = 1" by (simp add: nchunks_def BSIZE_def)
  then show ?thesis
    using writei_returns [OF demo_write_ok(1,2), of "KernelBuf [1, 2, 3]" demo "[1, 2, 3]" 3 0 0 1] demo_levels demo_write_ok(4)
    by (simp add: demo_inode tree_consts)
qed


end
