(* ===== verification/Fs_Dir.thy ===== *)
theory Fs_Dir
  imports Fs_File
begin

text \<open>
  Directories as finite maps from names to inode numbers, and path names as lists of components:
  correctness of \<^verbatim>\<open>dirlookup\<close>, \<^verbatim>\<open>dirlink\<close> and \<^verbatim>\<open>skipelem\<close>.
\<close>

section \<open>Names\<close>

text \<open>The name a C string denotes: the bytes before the NUL, at most \<^verbatim>\<open>DIRSIZ\<close> of them.\<close>

definition cname :: "u8 list \<Rightarrow> u8 list" where
  "cname xs = take DIRSIZ (takeWhile (\<lambda>c. c \<noteq> 0) xs)"

lemma strncmp_list_eq: "strncmp_list n p q = 0 \<longleftrightarrow> take n (takeWhile (\<lambda>c. c \<noteq> 0) p) = take n (takeWhile (\<lambda>c. c \<noteq> 0) q)"
proof (induction n arbitrary: p q)
  case (Suc n)
  have "uint (a :: u8) = uint b \<longleftrightarrow> a = b" for a b by (simp add: word_uint_eq_iff)
  then show ?case using Suc by (cases p; cases q) (auto simp: hd0_def uint_0_iff)
qed simp

lemma namecmp_eq: "namecmp p q = 0 \<longleftrightarrow> cname p = cname q"
  by (simp add: namecmp_def cname_def strncmp_list_eq)

lemma strncpy_list_take: "take n (takeWhile (\<lambda>c. c \<noteq> 0) (strncpy_list n xs)) = take n (takeWhile (\<lambda>c. c \<noteq> 0) xs)"
  by (induction n arbitrary: xs) (auto simp: hd0_def neq_Nil_conv)

lemma length_strncpy_list [simp]: "length (strncpy_list n xs) = n"
  by (induction n arbitrary: xs) auto

lemma cname_mk_dirent [simp]: "cname (de_name (mk_dirent inum name)) = cname name"
  by (simp add: de_name_def mk_dirent_def cname_def strncpy_list_take)

lemma length_mk_dirent [simp]: "length (mk_dirent inum name) = 16"
  by (simp add: mk_dirent_def DIRSIZ_def)

lemma de_inum_mk_dirent: "de_inum (mk_dirent inum name) = ucast inum"
  by (rule bit_word_eqI) (auto simp: de_inum_def mk_dirent_def bit_simps)

section \<open>Directory contents\<close>

definition dirent_at :: "fs \<Rightarrow> nat \<Rightarrow> nat \<Rightarrow> u8 list" where
  "dirent_at s dp i = map (fbyte s dp) [16 * i..<16 * i + 16]"

definition dir_ok :: "fs \<Rightarrow> nat \<Rightarrow> bool" where
  "dir_ok s dp \<longleftrightarrow> no_holes s dp \<and> i_type (icache s dp) = T_DIR \<and> 16 dvd unat (i_size (icache s dp))"

definition nents :: "fs \<Rightarrow> nat \<Rightarrow> nat" where
  "nents s dp = unat (i_size (icache s dp)) div 16"

text \<open>The entry that holds a name: the first that is in use and has the name.\<close>

definition entry_is :: "fs \<Rightarrow> nat \<Rightarrow> u8 list \<Rightarrow> nat \<Rightarrow> bool" where
  "entry_is s dp name i \<longleftrightarrow> de_inum (dirent_at s dp i) \<noteq> 0 \<and> cname (de_name (dirent_at s dp i)) = cname name"

definition dir_map :: "fs \<Rightarrow> nat \<Rightarrow> u8 list \<Rightarrow> u16 option" where
  "dir_map s dp name = map_option (\<lambda>i. de_inum (dirent_at s dp i)) (find (entry_is s dp name) [0..<nents s dp])"

lemma read_dirent_ok:
  assumes "dir_ok s dp" and "i < nents s dp"
  shows "read_dirent dp (16 * i) m s = Some (dirent_at s dp i, s)"
proof -
  let ?z = "unat (i_size (icache s dp))"
  have z: "16 * i + 16 \<le> ?z" using assms by (auto simp: dir_ok_def nents_def elim!: dvdE)
  moreover have "?z < 2 ^ 32" using unat_u32_less [of "i_size (icache s dp)"] by simp
  ultimately have o: "unat (of_nat (16 * i) :: u32) = 16 * i" by (intro of_nat_inverse [OF refl]) simp
  have n: "no_holes s dp" using assms(1) by (simp add: dir_ok_def)
  have "?z < 2 ^ 32" by fact
  then show ?thesis using readi_ok [OF n, of "KernelBuf []" m 16 "of_nat (16 * i)"] z
    unfolding o by (auto simp: read_dirent_def dirent_at_def min_def simp del: of_nat_mult)
qed

lemma find_upt_step: "j < n \<Longrightarrow> find P [j..<n] = (if P j then Some j else find P [Suc j..<n])"
  by (simp add: upt_conv_Cons)

lemma dir_find_ok:
  assumes "dir_ok s dp" and "i \<le> nents s dp"
  shows "dir_find dp name (16 * i) m (unat (i_size (icache s dp))) s =
    Some (map_option (\<lambda>j. (16 * j, de_inum (dirent_at s dp j))) (find (entry_is s dp name) [i..<nents s dp]), s)"
  using assms(2)
proof (induction "nents s dp - i" arbitrary: i)
  case 0
  moreover have "16 * nents s dp = unat (i_size (icache s dp))" using assms(1) by (simp add: dir_ok_def nents_def)
  ultimately show ?case by (subst dir_find.simps) simp
next
  case (Suc x)
  then have i: "i < nents s dp" by simp
  have "16 * nents s dp = unat (i_size (icache s dp))" using assms(1) by (simp add: dir_ok_def nents_def)
  then have "16 * i < unat (i_size (icache s dp))" using i by simp
  moreover have "dir_find dp name (16 * i + 16) m (unat (i_size (icache s dp))) s =
      Some (map_option (\<lambda>j. (16 * j, de_inum (dirent_at s dp j))) (find (entry_is s dp name) [Suc i..<nents s dp]), s)"
    using Suc(1) [of "Suc i"] Suc(2) i by (simp add: add.commute)
  ultimately show ?case using i
    by (subst dir_find.simps) (auto simp: read_dirent_ok [OF assms(1) i] find_upt_step entry_is_def namecmp_eq dest: sym)
qed

lemma dir_free_ok:
  assumes "dir_ok s dp" and "i \<le> nents s dp"
  shows "dir_free dp (16 * i) m (unat (i_size (icache s dp))) s =
    Some (16 * (case find (\<lambda>j. de_inum (dirent_at s dp j) = 0) [i..<nents s dp] of None \<Rightarrow> nents s dp | Some j \<Rightarrow> j), s)"
  using assms(2)
proof (induction "nents s dp - i" arbitrary: i)
  case 0
  moreover have "16 * nents s dp = unat (i_size (icache s dp))" using assms(1) by (simp add: dir_ok_def nents_def)
  ultimately show ?case by (subst dir_free.simps) simp
next
  case (Suc x)
  then have i: "i < nents s dp" by simp
  have "16 * nents s dp = unat (i_size (icache s dp))" using assms(1) by (simp add: dir_ok_def nents_def)
  then have "16 * i < unat (i_size (icache s dp))" using i by simp
  moreover have "dir_free dp (16 * i + 16) m (unat (i_size (icache s dp))) s =
      Some (16 * (case find (\<lambda>j. de_inum (dirent_at s dp j) = 0) [Suc i..<nents s dp] of None \<Rightarrow> nents s dp | Some j \<Rightarrow> j), s)"
    using Suc(1) [of "Suc i"] Suc(2) i by (simp add: add.commute)
  ultimately show ?case using i
    by (subst dir_free.simps) (auto simp: read_dirent_ok [OF assms(1) i] find_upt_step)
qed

lemma dirlookup_ok:
  assumes "dir_ok s dp"
  shows "dirlookup dp name m s =
    (case find (entry_is s dp name) [0..<nents s dp] of
       None \<Rightarrow> Some (None, s)
     | Some i \<Rightarrow> map_option (\<lambda>(ip, t). (Some (ip, 16 * i), t)) (iget (i_dev (icache s dp)) (ucast (de_inum (dirent_at s dp i))) s))"
  using dir_find_ok [OF assms, of 0 name m] assms by (auto simp: dirlookup_def dir_ok_def split: option.split)

text \<open>
  C23. \<^verbatim>\<open>dirlookup\<close> implements a finite map: in a well-formed directory it finds a name exactly if
  the directory maps it, the names being compared as C strings of at most \<^verbatim>\<open>DIRSIZ\<close> bytes,
  and then returns the cached inode of the number the directory has for it, or panics if the inode
  cache is full. It does not change the directory.
\<close>

theorem dirlookup_map:
  assumes "dir_ok s dp"
  shows "case dir_map s dp name of
      None \<Rightarrow> dirlookup dp name m s = Some (None, s)
    | Some inum \<Rightarrow> map_option (\<lambda>(r, t). (map_option fst r, t)) (dirlookup dp name m s) =
        map_option (\<lambda>(ip, t). (Some ip, t)) (iget (i_dev (icache s dp)) (ucast inum) s)"
  using dirlookup_ok [OF assms, of name m]
  by (auto simp: dir_map_def option.map_comp o_def case_prod_unfold split: option.splits)

lemma dirent_at_cong:
  "(\<And>x. 16 * i \<le> x \<Longrightarrow> x < 16 * i + 16 \<Longrightarrow> fbyte t dp x = fbyte s dp x) \<Longrightarrow> dirent_at t dp i = dirent_at s dp i"
  by (simp add: dirent_at_def)

lemma dirent_at_new:
  assumes "length de = 16" and "\<And>x. 16 * j \<le> x \<Longrightarrow> x < 16 * j + 16 \<Longrightarrow> fbyte t dp x = de ! (x - 16 * j)"
  shows "dirent_at t dp j = de"
  unfolding dirent_at_def by (rule nth_equalityI) (simp_all add: assms)

lemma find_cong_upt: "(\<And>i. i < n \<Longrightarrow> P i = Q i) \<Longrightarrow> find P [0..<n] = find Q [0..<n]"
  by (rule find_cong) auto

lemma find_upt_only: "j < n \<Longrightarrow> (\<And>i. i < n \<Longrightarrow> P i \<longleftrightarrow> i = j) \<Longrightarrow> find P [0..<n] = Some j"
  by (auto simp: find_Some_iff)

lemma find_append: "find P (xs @ ys) = (case find P xs of None \<Rightarrow> find P ys | Some x \<Rightarrow> Some x)"
  by (induction xs) auto

lemma find_or_end:
  fixes n :: nat and P :: "nat \<Rightarrow> bool"
  defines "j \<equiv> case find P [0..<n] of None \<Rightarrow> n | Some j \<Rightarrow> j"
  shows "j \<le> n" and "j < n \<Longrightarrow> P j"
proof -
  have "j \<le> n \<and> (j < n \<longrightarrow> P j)"
  proof (cases "find P [0..<n]")
    case (Some k)
    then show ?thesis using find_upt_Some [OF Some] by (simp add: j_def)
  qed (simp add: j_def)
  then show "j \<le> n" "j < n \<Longrightarrow> P j" by blast+
qed

text \<open>The map of a directory after entry \<open>j\<close>, free before, has been filled.\<close>

lemma dir_map_fill:
  assumes n: "nents t dp = max (nents s dp) (Suc j)" and j: "j \<le> nents s dp"
    and fr: "j < nents s dp \<Longrightarrow> de_inum (dirent_at s dp j) = 0"
    and new: "dirent_at t dp j = mk_dirent inum name" "ucast inum \<noteq> (0 :: u16)"
    and old: "\<And>i. i < nents s dp \<Longrightarrow> i \<noteq> j \<Longrightarrow> dirent_at t dp i = dirent_at s dp i"
    and none: "dir_map s dp name = None"
  shows "dir_map t dp nm = (if cname nm = cname name then Some (ucast inum) else dir_map s dp nm)"
proof (cases "cname nm = cname name")
  case True
  have "\<not> entry_is s dp nm i" if "i < nents s dp" for i
    using none that True by (auto simp: dir_map_def find_None_iff entry_is_def)
  then have "entry_is t dp nm i \<longleftrightarrow> i = j" if "i < nents t dp" for i
    using that n j old [of i] new True by (cases "i = j") (auto simp: entry_is_def de_inum_mk_dirent max_def split: if_splits)
  then have "find (entry_is t dp nm) [0..<nents t dp] = Some j" using n by (intro find_upt_only) auto
  then show ?thesis using True new by (simp add: dir_map_def de_inum_mk_dirent)
next
  case False
  have j': "\<not> entry_is t dp nm j" "j < nents s dp \<Longrightarrow> \<not> entry_is s dp nm j"
    using False new fr by (auto simp: entry_is_def)
  have e: "entry_is t dp nm i = entry_is s dp nm i" if "i < nents s dp" for i
    using j' old [OF that] that by (cases "i = j") (auto simp: entry_is_def)
  have "find (entry_is t dp nm) [0..<nents t dp] = find (entry_is s dp nm) [0..<nents s dp]"
  proof (cases "j < nents s dp")
    case True
    then have "nents t dp = nents s dp" using n by simp
    then show ?thesis using e by (auto intro!: find_cong_upt)
  next
    case F: False
    then have "nents t dp = Suc (nents s dp)" "j = nents s dp" using n j by auto
    moreover have "find (entry_is t dp nm) [0..<nents s dp] = find (entry_is s dp nm) [0..<nents s dp]"
      using e by (intro find_cong_upt)
    ultimately show ?thesis using j'(1) by (simp add: find_append split: option.split)
  qed
  moreover have "dirent_at t dp i = dirent_at s dp i" if "find (entry_is s dp nm) [0..<nents s dp] = Some i" for i
  proof -
    have "i < nents s dp" "entry_is s dp nm i" using that by (auto simp: find_Some_iff)
    then show ?thesis using old j'(2) by blast
  qed
  ultimately show ?thesis using False by (cases "find (entry_is s dp nm) [0..<nents s dp]") (simp_all add: dir_map_def)
qed


text \<open>
  C24. \<^verbatim>\<open>dirlink\<close> adds one name. If it returns, then the name was already there and it returns
  \<open>-1\<close>, or it returns 0, the directory now maps the name to the new inode number and every
  other name as before, and directory, block tree and reserved blocks are still well formed.
\<close>

theorem dirlink_adds:
  assumes ok: "meta_ok s" "tree_ok s dp" "layout_ok s" "dir_ok s dp"
    and i: "unat (i_inum (icache s dp)) < unat (sb_ninodes (fs_sb s))" and inum: "ucast inum \<noteq> (0 :: u16)"
    and r: "dirlink pid dp name inum m s = Some (r, t)"
  shows "if dir_map s dp name \<noteq> None then r = - 1
    else r = 0 \<and> meta_ok t \<and> tree_ok t dp \<and> dir_ok t dp \<and>
      (\<forall>nm. dir_map t dp nm = (if cname nm = cname name then Some (ucast inum) else dir_map s dp nm))"
proof (cases "dir_map s dp name")
  case (Some a)
  then show ?thesis using r dirlookup_ok [OF ok(4), of name m]
    by (auto simp: dirlink_def dir_map_def split: option.splits prod.splits)
next
  case None
  define j where "j = (case find (\<lambda>j. de_inum (dirent_at s dp j) = 0) [0..<nents s dp] of None \<Rightarrow> nents s dp | Some j \<Rightarrow> j)"
  let ?z = "unat (i_size (icache s dp))"
  have z: "?z = 16 * nents s dp" "?z \<le> MAXFILE * BSIZE" using ok(4) by (auto simp: dir_ok_def nents_def no_holes_def)
  have j: "j \<le> nents s dp" "j < nents s dp \<Longrightarrow> de_inum (dirent_at s dp j) = 0"
    using find_or_end [of "nents s dp" "\<lambda>j. de_inum (dirent_at s dp j) = 0", folded j_def] by simp_all
  have o: "unat (of_nat (16 * j) :: u32) = 16 * j"
    using z j by (intro of_nat_inverse [OF refl]) (simp add: tree_consts)
  have lk: "dirlookup dp name m s = Some (None, s)" using None dirlookup_ok [OF ok(4), of name m] by (auto simp: dir_map_def)
  obtain u where u: "writei dp (KernelBuf (mk_dirent inum name)) (of_nat (16 * j)) 16 m s = Some (16, u)" "r = 0" "t = u"
    using r lk dir_free_ok [OF ok(4), of 0 m, folded j_def] by (auto simp: dirlink_def simp del: of_nat_mult split: bind_splits if_splits)
  have lim: "16 * j + 16 \<le> MAXFILE * BSIZE"
  proof (rule ccontr)
    assume "\<not> ?thesis"
    moreover have "unat (of_nat (16 * j) + 16 :: u32) = 16 * j + 16"
      using o z j by (simp add: unat_plus_if' tree_consts del: of_nat_mult)
    ultimately show False using u(1) o z j
      by (auto simp: writei_def word_less_nat_alt simp del: of_nat_mult split: if_splits)
  qed
  have nh: "no_holes s dp" using ok(4) by (simp add: dir_ok_def)
  have j32: "unat (of_nat (16 * j) :: u32) \<le> ?z" "unat (of_nat (16 * j) :: u32) + unat (16 :: u32) \<le> MAXFILE * BSIZE"
    "length (mk_dirent inum name) = unat (16 :: u32)" "0 < (16 :: u32)" using o z j lim by simp_all
  have "place_bytes (KernelBuf (mk_dirent inum name)) m (mk_dirent inum name)" by simp
  note R = writei_ok [OF ok(1-3) nh i this j32(3,4,1,2) u(1), unfolded o]
  from R obtain a where a: "icache u = (icache s)(dp := (icache s dp)\<lparr>i_addrs := a, i_size := i_size (icache u dp)\<rparr>)" by blast
  have "i_type (icache u dp) = i_type (icache s dp)" using arg_cong [OF a, of "\<lambda>c. i_type (c dp)"] by simp
  then have W: "unat (i_size (icache t dp)) = max ?z (16 * j + 16) \<and>
      (\<forall>x < MAXFILE * BSIZE. fbyte t dp x = (if 16 * j \<le> x \<and> x < 16 * j + 16 then mk_dirent inum name ! (x - 16 * j) else fbyte s dp x)) \<and>
      meta_ok t \<and> tree_ok t dp \<and> no_holes t dp \<and> i_type (icache t dp) = i_type (icache s dp)"
    using R unfolding u(3) by simp
  have n: "nents t dp = max (nents s dp) (Suc j)" 
  proof -
    have "unat (i_size (icache t dp)) = 16 * max (nents s dp) (Suc j)" using W z(1) by (simp add: max_def)
    then show ?thesis by (simp add: nents_def [of t])
  qed
  have "dir_map t dp nm = (if cname nm = cname name then Some (ucast inum) else dir_map s dp nm)" for nm
  proof (rule dir_map_fill [OF n j _ inum _ None])
    show "dirent_at t dp j = mk_dirent inum name" using W lim by (intro dirent_at_new) auto
    show "dirent_at t dp i = dirent_at s dp i" if "i < nents s dp" "i \<noteq> j" for i
      using W z that by (intro dirent_at_cong) auto
  qed
  moreover have "dir_ok t dp" using W ok(4) z(1) by (auto simp: dir_ok_def max_def)
  ultimately show ?thesis using None W u(2) by simp
qed

section \<open>Examples\<close>

lemma upd_inode_keeps:
  assumes "\<And>x. i_addrs (f x) = i_addrs x" and "\<And>x. i_size (f x) = i_size x"
  shows "tree_ok (upd_inode jp f s) ip = tree_ok s ip" "meta_ok (upd_inode jp f s) = meta_ok s"
    "no_holes (upd_inode jp f s) ip = no_holes s ip" "layout_ok (upd_inode jp f s) = layout_ok s"
proof -
  have n: "node (upd_inode jp f s) ip p = node s ip p" if "pos_ok p" for p
    by (rule node_cong) (use assms that in auto)
  have m: "meta (upd_inode jp f s) = meta s" using meta_cong [of "upd_inode jp f s" s] by auto
  show "tree_ok (upd_inode jp f s) ip = tree_ok s ip" by (simp add: tree_ok_def n m cong: imp_cong)
  show "meta_ok (upd_inode jp f s) = meta_ok s" by (simp add: meta_ok_def m)
  have "pos_ok (PData (off div BSIZE))" if "off < unat (i_size (icache s ip))" "unat (i_size (icache s ip)) \<le> MAXFILE * BSIZE" for off
    using that by (auto simp: BSIZE_def less_mult_imp_div_less)
  then show "no_holes (upd_inode jp f s) ip = no_holes s ip" using assms(2) n by (auto simp: no_holes_def)
  show "layout_ok (upd_inode jp f s) = layout_ok s" by (simp add: layout_ok_def is_bitmap_def BBLOCK_def IBLOCK_def)
qed

definition empty_dir :: fs where
  "empty_dir = upd_inode 0 (\<lambda>x. x\<lparr>i_type := T_DIR, i_ref := 1\<rparr>) demo_fs"

lemma empty_dir_ok: "meta_ok empty_dir" "tree_ok empty_dir 0" "layout_ok empty_dir" "dir_ok empty_dir 0" "budget 5 1 empty_dir"
  "nents empty_dir 0 = 0"
  using demo_write_ok demo_meta(2) by (simp_all add: empty_dir_def upd_inode_keeps dir_ok_def nents_def demo_inode)

theorem dirlink_adds_witness:
  "\<exists>t. dirlink 1 0 [97] 7 demo empty_dir = Some (0, t) \<and> dir_map t 0 [97] = Some 7 \<and> dir_map t 0 [98] = None"
proof -
  have sz: "i_size (icache empty_dir 0) = 0" "i_inum (icache empty_dir 0) = 0" "unat (sb_ninodes (fs_sb empty_dir)) = 16"
    by (simp_all add: empty_dir_def demo_inode)
  have nc: "nchunks 0 16 = 1" by (simp add: nchunks_def BSIZE_def)
  have lv: "bn * BSIZE < 16 \<Longrightarrow> levels bn \<le> 1" for bn by (cases bn) (simp_all add: levels_def tree_consts)
  obtain t where t: "writei 0 (KernelBuf (mk_dirent 7 [97])) 0 16 demo empty_dir = Some (16, t)"
    using writei_total [OF empty_dir_ok(1,2), of "KernelBuf (mk_dirent 7 [97])" demo "mk_dirent 7 [97]" 16 0 1] lv nc empty_dir_ok(5)
    by (auto simp: sz tree_consts)
  have none: "dir_map empty_dir 0 nm = None" for nm by (simp add: dir_map_def empty_dir_ok)
  have "dirlookup 0 [97] demo empty_dir = Some (None, empty_dir)"
    using dirlookup_ok [OF empty_dir_ok(4)] by (simp add: empty_dir_ok)
  then have r: "dirlink 1 0 [97] 7 demo empty_dir = Some (0, t)"
    using dir_free_ok [OF empty_dir_ok(4), of 0 demo] t by (simp add: dirlink_def empty_dir_ok sz)
  have "cname [98] \<noteq> cname [97]" by (simp add: cname_def DIRSIZ_def)
  then show ?thesis using dirlink_adds [OF empty_dir_ok(1-4) _ _ r] none r by (simp add: sz)
qed

definition demo_dir :: fs where
  "demo_dir = upd_inode 0 (\<lambda>x. x\<lparr>i_type := T_DIR, i_ref := 1, i_size := 16, i_addrs := (\<lambda>_. 0)(0 := 38)\<rparr>)
     (demo_fs\<lparr>fs_log := set_view 38 (put_bytes 0 (mk_dirent 7 [97]) (\<lambda>_. 0)) (fs_log demo_fs)\<rparr>)"

theorem dirlookup_map_witness:
  "\<exists>ip off t. dirlookup 0 [97, 0] demo demo_dir = Some (Some (ip, off), t) \<and> i_inum (icache t ip) = 7"
proof -
  have sz: "i_size (icache demo_dir 0) = 16" by (simp add: demo_dir_def)
  have n: "node demo_dir 0 (PData 0) = 38" by (subst node_None [OF up_PData(1)]) (simp_all add: demo_dir_def)
  have b: "bdata 38 demo_dir = put_bytes 0 (mk_dirent 7 [97]) (\<lambda>_. 0)" by (simp add: demo_dir_def bdata_def)
  have z: "off div BSIZE = 0 \<and> off mod BSIZE = off" if "off < 16" for off using that by (simp add: BSIZE_def)
  have ok: "dir_ok demo_dir 0" using z n by (simp add: dir_ok_def no_holes_def sz tree_consts demo_dir_def [THEN arg_cong, of "\<lambda>s. i_type (icache s 0)"])
  have d: "dirent_at demo_dir 0 0 = mk_dirent 7 [97]"
    by (rule dirent_at_new) (use n b z in \<open>auto simp: fbyte_def put_bytes_def\<close>)
  have m: "dir_map demo_dir 0 [97, 0] = Some 7"
    by (simp add: dir_map_def nents_def sz entry_is_def d de_inum_mk_dirent) (simp add: cname_def)
  have "iget dev 7 demo_dir = Some (1, upd_inode 1 (\<lambda>x. x\<lparr>i_dev := dev, i_inum := 7, i_ref := 1, i_valid := False\<rparr>) demo_dir)" for dev
  proof -
    have "find (\<lambda>ip. i_ref (icache demo_dir ip) > 0 \<and> i_dev (icache demo_dir ip) = dev \<and> i_inum (icache demo_dir ip) = 7) [0..<NINODE] = None"
      by (auto simp: find_None_iff demo_dir_def demo_fs_def)
    moreover have "[0..<NINODE] = 0 # 1 # [2..<NINODE]" by (simp add: NINODE_def upt_rec)
    moreover have "i_ref (icache demo_dir 0) = 1" "i_ref (icache demo_dir 1) = 0" by (simp_all add: demo_dir_def demo_fs_def)
    ultimately show ?thesis by (simp add: iget_def)
  qed
  then show ?thesis using dirlookup_map [OF ok, of "[97, 0]" demo] m by auto
qed

section \<open>Paths\<close>

text \<open>The components of a path: the maximal runs of bytes other than slash, before the NUL.\<close>

fun split_at :: "u8 \<Rightarrow> u8 list \<Rightarrow> u8 list list" where
  "split_at c [] = [[]]"
| "split_at c (x # xs) = (if x = c then [] # split_at c xs else (x # hd (split_at c xs)) # tl (split_at c xs))"

definition cstr :: "u8 list \<Rightarrow> u8 list" where
  "cstr xs = takeWhile (\<lambda>c. c \<noteq> 0) xs"

definition components :: "u8 list \<Rightarrow> u8 list list" where
  "components path = filter (\<lambda>e. e \<noteq> []) (split_at slash (cstr path))"

lemma split_at_nonempty [simp]: "split_at c xs \<noteq> []"
  by (cases xs) auto

lemma split_at_append: "c \<notin> set e \<Longrightarrow> split_at c (e @ xs) = (e @ hd (split_at c xs)) # tl (split_at c xs)"
  by (induction e) auto

lemma components_slashes: "components (dropWhile (\<lambda>c. c = slash) path) = components path"
  by (induction path) (auto simp: components_def cstr_def)

lemma hd0_cstr: "hd0 xs = 0 \<longleftrightarrow> cstr xs = []"
  by (cases xs) (auto simp: hd0_def cstr_def)

lemma components_empty: "cstr path = [] \<Longrightarrow> components path = []"
  by (simp add: components_def)

lemma components_elem:
  assumes "e \<noteq> []" and "\<forall>c \<in> set e. c \<noteq> slash \<and> c \<noteq> 0" and "rest = [] \<or> hd rest = slash \<or> hd rest = 0"
  shows "components (e @ rest) = e # components rest"
proof -
  have c: "cstr (e @ rest) = e @ cstr rest" using assms(2) by (simp add: cstr_def)
  have s: "slash \<notin> set e" using assms(2) by auto
  consider "cstr rest = []" | r where "rest = slash # r" using assms(3) by (cases rest) (auto simp: cstr_def)
  then show ?thesis
  proof cases
    case 1
    then show ?thesis using assms(1) split_at_append [OF s, of "[]"] by (simp add: components_def c)
  next
    case (2 r)
    then have "cstr rest = slash # cstr r" by (simp add: cstr_def)
    then show ?thesis using assms(1) split_at_append [OF s, of "slash # cstr r"] by (simp add: components_def c)
  qed
qed

lemma components_last:
  assumes "rest = [] \<or> hd rest \<noteq> slash"
  shows "hd0 rest = 0 \<longleftrightarrow> components rest = []"
proof (cases "hd0 rest = 0")
  case False
  then have "components rest \<noteq> []" using assms
    by (cases rest) (auto simp: components_def cstr_def hd0_def)
  then show ?thesis using False by simp
qed (simp add: hd0_cstr components_empty)

text \<open>
  C25. \<^verbatim>\<open>skipelem\<close> takes paths apart: it returns the first component of the path, cut to
  \<^verbatim>\<open>DIRSIZ\<close> bytes, and a rest that has the remaining components, and fails exactly if there is
  none. The rest starts with NUL exactly if the component was the last one, which is the test
  \<^verbatim>\<open>nameiparent\<close> relies on. Repeated, leading and trailing slashes make no difference.
\<close>

theorem skipelem_components:
  "case components path of
     [] \<Rightarrow> skipelem path = None
   | e # es \<Rightarrow> \<exists>rest. skipelem path = Some (take DIRSIZ e, rest) \<and> components rest = es \<and> (hd0 rest = 0 \<longleftrightarrow> es = [])"
proof -
  let ?p = "dropWhile (\<lambda>c. c = slash) path" let ?Q = "\<lambda>c. c \<noteq> slash \<and> c \<noteq> (0 :: u8)"
  let ?e = "takeWhile ?Q ?p" let ?r = "dropWhile ?Q ?p" let ?rest = "dropWhile (\<lambda>c. c = slash) ?r"
  have c: "components path = components ?p" by (simp add: components_slashes)
  have h: "?p = [] \<or> hd ?p \<noteq> slash" using hd_dropWhile [of "\<lambda>c. c = slash" path] by auto
  show ?thesis
  proof (cases "hd0 ?p = 0")
    case True
    then show ?thesis using components_last [OF h] by (simp add: c skipelem_def)
  next
    case False
    then have e: "?e \<noteq> []" using h by (cases ?p) (auto simp: hd0_def)
    have q: "\<forall>c \<in> set ?e. c \<noteq> slash \<and> c \<noteq> 0" by (auto dest: set_takeWhileD)
    have r: "?r = [] \<or> hd ?r = slash \<or> hd ?r = 0" using hd_dropWhile [of ?Q ?p] by auto
    have "components ?p = ?e # components ?r" using components_elem [OF e q r] by simp
    then have "components path = ?e # components ?rest" by (simp only: c components_slashes [of ?r])
    moreover have "skipelem path = Some (take DIRSIZ ?e, ?rest)" using False by (simp add: skipelem_def Let_def)
    moreover have "?rest = [] \<or> hd ?rest \<noteq> slash" using hd_dropWhile [of "\<lambda>c. c = slash" ?r] by auto
    ultimately show ?thesis using components_last [of ?rest] by simp
  qed
qed

end
