(* ===== verification/Proc.thy ===== *)
theory Proc
  imports Sched_O1
begin

text \<open>
  Processes and scheduling, \<^verbatim>\<open>kernel/proc/proc.c\<close>: the operations that move a process between
  the states \<^verbatim>\<open>UNUSED\<close>, \<^verbatim>\<open>RUNNABLE\<close>, \<^verbatim>\<open>RUNNING\<close>, \<^verbatim>\<open>SLEEPING\<close>
  and \<^verbatim>\<open>ZOMBIE\<close>, and the per-CPU scheduler. The state adds to the ready queue the owner of
  every process lock, what every CPU does, \<^verbatim>\<open>initproc\<close> and \<^verbatim>\<open>nextpid\<close>. A section
  under \<^verbatim>\<open>runq_lock\<close> or \<^verbatim>\<open>pid_lock\<close> is atomic; \<^verbatim>\<open>p->lock\<close> is kept in
  the state where it is held across \<^verbatim>\<open>swtch\<close>. Memory, files and the rest of process creation
  and destruction are in theory \<open>Kernel\<close>.
\<close>

section \<open>State\<close>

text \<open>
  What a CPU does: it looks for a process, has taken one off the ready queue, enters it with its
  lock held, runs it, or is on the way back to the scheduler with its lock held.
\<close>

datatype cpu_st = CIdle | CPicked nat | CResuming nat | CRunning nat | CSwitching nat

record ptable = runq +
  plock :: "nat \<Rightarrow> nat option"
  cpu_of :: "nat \<Rightarrow> cpu_st"
  initproc :: nat
  nextpid :: int

definition set_cpu :: "nat \<Rightarrow> cpu_st \<Rightarrow> 'a ptable_scheme \<Rightarrow> 'a ptable_scheme" where
  "set_cpu c x s = s\<lparr>cpu_of := (cpu_of s)(c := x)\<rparr>"

definition lock_proc :: "nat \<Rightarrow> nat option \<Rightarrow> 'a ptable_scheme \<Rightarrow> 'a ptable_scheme" where
  "lock_proc p ow s = s\<lparr>plock := (plock s)(p := ow)\<rparr>"

section \<open>Operations on the process table\<close>

definition allocpid :: "'a ptable_scheme \<Rightarrow> int \<times> 'a ptable_scheme" where
  "allocpid s = (nextpid s, s\<lparr>nextpid := wrap32 (nextpid s + 1)\<rparr>)"

text \<open>\<^verbatim>\<open>p->state = RUNNABLE\<close> and the insertion into the ready queue.\<close>

definition make_runnable :: "nat \<Rightarrow> 'a runq_scheme \<Rightarrow> 'a runq_scheme" where
  "make_runnable p s = runq_enqueue p (upd_proc p (\<lambda>x. x\<lparr>p_state := RUNNABLE\<rparr>) s)"

definition setPriority :: "int \<Rightarrow> int \<Rightarrow> 'a runq_scheme \<Rightarrow> int \<times> 'a runq_scheme" where
  "setPriority pid priority s =
     (case find (\<lambda>p. p_pid (procs s p) = pid) [0..<NPROC] of
        None \<Rightarrow> (- 1, s)
      | Some p \<Rightarrow>
          let s = upd_proc p (\<lambda>x. x\<lparr>p_priority := priority\<rparr>) s
          in (0, if p_on_runq (procs s p) then runq_enqueue p (runq_remove p s)
                 else upd_proc p (\<lambda>x. x\<lparr>p_dyn_priority := runq_dyn x\<rparr>) s))"

definition sleeps_on :: "chan \<Rightarrow> proc \<Rightarrow> bool" where
  "sleeps_on ch x \<longleftrightarrow> p_state x = SLEEPING \<and> p_chan x = ch"

definition wakeup :: "chan \<Rightarrow> 'a runq_scheme \<Rightarrow> 'a runq_scheme" where
  "wakeup ch s = fold (\<lambda>p s. if sleeps_on ch (procs s p) then make_runnable p s else s) [0..<NPROC] s"

text \<open>The loop is left with \<^verbatim>\<open>break\<close>: the result names the process whose lock stays held.\<close>

definition wakeupOneProc :: "chan \<Rightarrow> 'a runq_scheme \<Rightarrow> nat option \<times> 'a runq_scheme" where
  "wakeupOneProc ch s =
     (case find (\<lambda>p. sleeps_on ch (procs s p)) [0..<NPROC] of
        None \<Rightarrow> (None, s)
      | Some p \<Rightarrow> (Some p, make_runnable p s))"

definition wakeup1 :: "nat \<Rightarrow> nat \<Rightarrow> 'a ptable_scheme \<Rightarrow> 'a ptable_scheme option" where
  "wakeup1 c p s =
     (if plock s p \<noteq> Some c then None
      else if sleeps_on (ChanProc p) (procs s p) then Some (make_runnable p s) else Some s)"

definition kill :: "int \<Rightarrow> 'a runq_scheme \<Rightarrow> int \<times> 'a runq_scheme" where
  "kill pid s =
     (case find (\<lambda>p. p_pid (procs s p) = pid) [0..<NPROC] of
        None \<Rightarrow> (- 1, s)
      | Some p \<Rightarrow>
          let s = upd_proc p (\<lambda>x. x\<lparr>p_killed := True\<rparr>) s
          in (0, if p_state (procs s p) = SLEEPING then make_runnable p s else s))"

definition reparent :: "nat \<Rightarrow> 'a ptable_scheme \<Rightarrow> 'a ptable_scheme" where
  "reparent p s =
     fold (\<lambda>pp s. if p_parent (procs s pp) = Some p
                  then upd_proc pp (\<lambda>x. x\<lparr>p_parent := Some (initproc s)\<rparr>) s else s) [0..<NPROC] s"

definition procnum :: "'a runq_scheme \<Rightarrow> u64" where
  "procnum s = of_nat (length (filter (\<lambda>p. p_state (procs s p) \<noteq> UNUSED) [0..<NPROC]))"

section \<open>Switching\<close>

text \<open>
  \<^verbatim>\<open>sched\<close> on CPU \<open>c\<close>, with \<open>noff\<close> the depth of \<^verbatim>\<open>push_off\<close> nesting and
  \<open>intr\<close> the interrupt flag; \<open>None\<close> is one of its panics. It leaves the CPU on the way
  to its scheduler.
\<close>

definition sched :: "nat \<Rightarrow> int \<Rightarrow> bool \<Rightarrow> nat \<Rightarrow> 'a ptable_scheme \<Rightarrow> 'a ptable_scheme option" where
  "sched c noff intr p s =
     (if plock s p \<noteq> Some c then None
      else if noff \<noteq> 1 then None
      else if p_state (procs s p) = RUNNING then None
      else if intr then None
      else Some (set_cpu c (CSwitching p) s))"

text \<open>
  \<^verbatim>\<open>yield\<close> and \<^verbatim>\<open>sleep\<close> up to the switch. An \<^verbatim>\<open>acquire\<close> of a lock another CPU
  holds does not return in this state, which is \<open>None\<close>. In \<^verbatim>\<open>sleep\<close> the flag
  \<open>own\<close> says that \<open>lk\<close> is the lock of the process itself; otherwise that lock is
  acquired and \<open>lk\<close> released, which leaves \<open>noff\<close> as it was.
\<close>

definition acquire_proc :: "nat \<Rightarrow> nat \<Rightarrow> 'a ptable_scheme \<Rightarrow> 'a ptable_scheme option" where
  "acquire_proc c p s = (if plock s p \<noteq> None then None else Some (lock_proc p (Some c) s))"

definition yield :: "nat \<Rightarrow> nat \<Rightarrow> 'a ptable_scheme \<Rightarrow> 'a ptable_scheme option" where
  "yield c p s =
     (case acquire_proc c p s of
        None \<Rightarrow> None
      | Some s \<Rightarrow> sched c 1 False p (make_runnable p s))"

definition sleep :: "nat \<Rightarrow> chan \<Rightarrow> bool \<Rightarrow> int \<Rightarrow> nat \<Rightarrow> 'a ptable_scheme \<Rightarrow> 'a ptable_scheme option" where
  "sleep c ch own noff p s =
     (case (if own then Some s else acquire_proc c p s) of
        None \<Rightarrow> None
      | Some s \<Rightarrow> sched c noff False p (upd_proc p (\<lambda>x. x\<lparr>p_chan := ch, p_state := SLEEPING\<rparr>) s))"

text \<open>
  What the process does when it runs again, after \<^verbatim>\<open>swtch\<close>: the end of \<^verbatim>\<open>sleep\<close> clears
  the channel, and \<^verbatim>\<open>sleep\<close>, \<^verbatim>\<open>yield\<close> and \<^verbatim>\<open>forkret\<close> release the lock.
\<close>

definition resume :: "nat \<Rightarrow> bool \<Rightarrow> nat \<Rightarrow> 'a ptable_scheme \<Rightarrow> 'a ptable_scheme" where
  "resume c slept p s =
     set_cpu c (CRunning p) (lock_proc p None (if slept then upd_proc p (\<lambda>x. x\<lparr>p_chan := NoChan\<rparr>) s else s))"

text \<open>
  The loop of \<^verbatim>\<open>scheduler\<close>, cut where other CPUs can intervene: taking a process off the ready
  queue, entering it once its lock is free, and coming back from it.
\<close>

definition scheduler_pick :: "nat \<Rightarrow> 'a ptable_scheme \<Rightarrow> 'a ptable_scheme option" where
  "scheduler_pick c s =
     (case runq_pick s of
        None \<Rightarrow> None
      | Some (None, s) \<Rightarrow> Some s
      | Some (Some p, s) \<Rightarrow> Some (set_cpu c (CPicked p) s))"

definition scheduler_enter :: "nat \<Rightarrow> nat \<Rightarrow> 'a ptable_scheme \<Rightarrow> 'a ptable_scheme option" where
  "scheduler_enter c p s =
     (case acquire_proc c p s of
        None \<Rightarrow> None
      | Some s \<Rightarrow>
          if p_state (procs s p) \<noteq> RUNNABLE then
            let s = lock_proc p None s
            in Some (set_cpu c CIdle (if \<not> p_on_runq (procs s p) then runq_enqueue p s else s))
          else Some (set_cpu c (CResuming p) (upd_proc p (\<lambda>x. x\<lparr>p_state := RUNNING, p_wait_time := 0\<rparr>) s)))"

definition scheduler_back :: "nat \<Rightarrow> nat \<Rightarrow> 'a ptable_scheme \<Rightarrow> 'a ptable_scheme" where
  "scheduler_back c p s = set_cpu c CIdle (lock_proc p None s)"

text \<open>The two schedulers kept in the file for comparison: the choice each of them makes.\<close>

definition scheduler1_choose :: "'a runq_scheme \<Rightarrow> nat option" where
  "scheduler1_choose s =
     fst (fold (\<lambda>p (pmax, priority_max).
            if p_state (procs s p) = RUNNABLE \<and> p_priority (procs s p) > priority_max
            then (Some p, p_priority (procs s p)) else (pmax, priority_max)) [0..<NPROC] (None, - 1))"

definition scheduler2_choose :: "nat \<Rightarrow> 'a runq_scheme \<Rightarrow> nat option" where
  "scheduler2_choose p s = find (\<lambda>q. p_state (procs s q) = RUNNABLE) [p..<NPROC]"

section \<open>Exit and wait\<close>

text \<open>
  The end of \<^verbatim>\<open>exit\<close>, from the acquisition of the parent's lock; \<open>q\<close> is the parent read
  before. What \<^verbatim>\<open>wait\<close> does with the process table: the scan for an exited child, and the
  sleep if there are children but none has exited.
\<close>

definition exit_finish :: "nat \<Rightarrow> int \<Rightarrow> nat \<Rightarrow> nat \<Rightarrow> 'a ptable_scheme \<Rightarrow> 'a ptable_scheme option" where
  "exit_finish c status q p s = do {
     s \<leftarrow> acquire_proc c q s;
     s \<leftarrow> acquire_proc c p s;
     s \<leftarrow> wakeup1 c q (reparent p s);
     sched c 1 False p (lock_proc q None (upd_proc p (\<lambda>x. x\<lparr>p_xstate := status, p_state := ZOMBIE\<rparr>) s))
   }"

definition original_parent :: "proc \<Rightarrow> nat option" where
  "original_parent x = (if p_parent x = None \<and> p_pthread x \<noteq> None then p_pthread x else p_parent x)"

definition havekids :: "nat \<Rightarrow> 'a runq_scheme \<Rightarrow> bool" where
  "havekids p s \<longleftrightarrow> (\<exists>np \<in> set [0..<NPROC]. p_parent (procs s np) = Some p)"

definition zombie_child :: "nat \<Rightarrow> 'a runq_scheme \<Rightarrow> nat option" where
  "zombie_child p s = find (\<lambda>np. p_parent (procs s np) = Some p \<and> p_state (procs s np) = ZOMBIE) [0..<NPROC]"

definition wait_sleep :: "nat \<Rightarrow> nat \<Rightarrow> 'a ptable_scheme \<Rightarrow> 'a ptable_scheme option" where
  "wait_sleep c p s = do {
     s \<leftarrow> acquire_proc c p s;
     if zombie_child p s = None \<and> havekids p s \<and> \<not> p_killed (procs s p)
     then sleep c (ChanProc p) True 1 p s else None
   }"

end
