(* ===== verification/Proc_Inv.thy ===== *)
theory Proc_Inv
  imports Proc
begin

text \<open>
  The scheduler as a concurrent system: the CPUs interleave the steps of theory \<open>Proc\<close> in any
  order. The invariant says where every process is, and gives mutual exclusion of CPUs over
  processes, that no ready process is lost, and that \<^verbatim>\<open>wait\<close> misses no exit.
\<close>

section \<open>What the operations write\<close>

lemma set_cpu_sel [simp]:
  "procs (set_cpu c x s) = procs s" "plock (set_cpu c x s) = plock s" "cpu_of (set_cpu c x s) = (cpu_of s)(c := x)"
  "initproc (set_cpu c x s) = initproc s" "runq_rel (set_cpu c x s) = runq_rel s"
  by (simp_all add: set_cpu_def fun_eq_iff runq_rel_def)

lemma lock_proc_sel [simp]:
  "procs (lock_proc p ow s) = procs s" "plock (lock_proc p ow s) = (plock s)(p := ow)" "cpu_of (lock_proc p ow s) = cpu_of s"
  "initproc (lock_proc p ow s) = initproc s" "runq_rel (lock_proc p ow s) = runq_rel s"
  by (simp_all add: lock_proc_def fun_eq_iff runq_rel_def)

lemma upd_proc_table [simp]:
  "plock (upd_proc p f s) = plock s" "cpu_of (upd_proc p f s) = cpu_of s" "initproc (upd_proc p f s) = initproc s"
  by (simp_all add: upd_proc_def)

lemma runq_ops_table [simp]:
  "plock (runq_enqueue p s) = plock s" "cpu_of (runq_enqueue p s) = cpu_of s" "initproc (runq_enqueue p s) = initproc s"
  "plock (runq_remove p s) = plock s" "cpu_of (runq_remove p s) = cpu_of s" "initproc (runq_remove p s) = initproc s"
  by (simp_all add: runq_enqueue_def runq_remove_def link_tail_def set_tail_bit_def unlink_prev_def unlink_next_def
      clear_bit_if_empty_def Let_def split: option.split)

lemma off_queue_fields:
  assumes "off_queue x = off_queue y"
  shows "p_state x = p_state y" "p_chan x = p_chan y" "p_parent x = p_parent y" "p_killed x = p_killed y"
    "p_xstate x = p_xstate y" "p_pid x = p_pid y" "p_priority x = p_priority y"
  using arg_cong [OF assms, of p_state] arg_cong [OF assms, of p_chan] arg_cong [OF assms, of p_parent]
    arg_cong [OF assms, of p_killed] arg_cong [OF assms, of p_xstate] arg_cong [OF assms, of p_pid] arg_cong [OF assms, of p_priority]
  by (simp_all add: off_queue_def)

lemmas enqueue_fields [simp] = off_queue_fields [OF off_queue_enqueue]
lemmas remove_fields [simp] = off_queue_fields [OF off_queue_remove]

lemma make_runnable_sel [simp]:
  "p_state (procs (make_runnable p s) q) = (if q = p then RUNNABLE else p_state (procs s q))"
  "p_chan (procs (make_runnable p s) q) = p_chan (procs s q)"
  "p_parent (procs (make_runnable p s) q) = p_parent (procs s q)"
  "p_killed (procs (make_runnable p s) q) = p_killed (procs s q)"
  "p_on_runq (procs (make_runnable p s) q) \<longleftrightarrow> p_on_runq (procs s q) \<or> q = p"
  by (simp_all add: make_runnable_def)

lemma make_runnable_table [simp]:
  "plock (make_runnable p s) = plock s" "cpu_of (make_runnable p s) = cpu_of s" "initproc (make_runnable p s) = initproc s"
  by (simp_all add: make_runnable_def)

lemma valid_upd_proc:
  assumes "rq.valid s" "\<And>x. p_run_next (f x) = p_run_next x" "\<And>x. p_run_prev (f x) = p_run_prev x"
    "\<And>x. p_on_runq (f x) = p_on_runq x" "\<And>x. p_dyn_priority (f x) = p_dyn_priority x"
  shows "rq.valid (upd_proc p f s)"
  using assms runq_rel_upd_proc [of s _ f p] unfolding rq.valid_def by blast

lemma valid_make_runnable: "rq.valid s \<Longrightarrow> rq.valid (make_runnable p s)"
  unfolding make_runnable_def by (intro rq.enq_valid valid_upd_proc) auto

lemma valid_table [simp]: "rq.valid (set_cpu c x s) = rq.valid s" "rq.valid (lock_proc p ow s) = rq.valid s"
  by (simp_all add: rq.valid_def)

section \<open>The system\<close>

text \<open>
  \<open>resume\<close> ends any of \<^verbatim>\<open>sleep\<close>, \<^verbatim>\<open>yield\<close> and \<^verbatim>\<open>forkret\<close>. \<open>wake\<close> is
  one round of the loop of \<^verbatim>\<open>wakeup\<close> that finds a sleeper, \<open>killed\<close> one of
  \<^verbatim>\<open>kill\<close>. \<open>spawn\<close> is the creation of a process as others see it: an unused entry gets
  its contents under its lock and becomes runnable; \<open>reap\<close> is the end of \<^verbatim>\<open>wait\<close> for an
  exited child, whose lock must be free. A process sleeps on its own address in \<^verbatim>\<open>wait\<close> only.
\<close>

inductive pstep :: "'a ptable_scheme \<Rightarrow> 'a ptable_scheme \<Rightarrow> bool" where
  pick: "cpu_of s c = CIdle \<Longrightarrow> scheduler_pick c s = Some t \<Longrightarrow> pstep s t"
| enter: "cpu_of s c = CPicked p \<Longrightarrow> scheduler_enter c p s = Some t \<Longrightarrow> pstep s t"
| resume: "cpu_of s c = CResuming p \<Longrightarrow> pstep s (resume c slept p s)"
| yield: "cpu_of s c = CRunning p \<Longrightarrow> yield c p s = Some t \<Longrightarrow> pstep s t"
| sleep: "cpu_of s c = CRunning p \<Longrightarrow> ch \<noteq> ChanProc p \<Longrightarrow> sleep c ch False noff p s = Some t \<Longrightarrow> pstep s t"
| wait_sleep: "cpu_of s c = CRunning p \<Longrightarrow> wait_sleep c p s = Some t \<Longrightarrow> pstep s t"
| exit: "cpu_of s c = CRunning p \<Longrightarrow> p_parent (procs s p) \<in> {Some q, Some (initproc s)} \<Longrightarrow>
    exit_finish c status q p s = Some t \<Longrightarrow> pstep s t"
| leave: "cpu_of s c = CSwitching p \<Longrightarrow> pstep s (scheduler_back c p s)"
| wake: "sleeps_on ch (procs s p) \<Longrightarrow> plock s p = None \<Longrightarrow> pstep s (make_runnable p s)"
| killed: "plock s p = None \<Longrightarrow> s' = upd_proc p (\<lambda>x. x\<lparr>p_killed := True\<rparr>) s \<Longrightarrow>
    pstep s (if p_state (procs s' p) = SLEEPING then make_runnable p s' else s')"
| prio: "pstep s (snd (setPriority pid priority s))"
| tick: "sched_tick running s = Some t \<Longrightarrow> pstep s t"
| spawn: "cpu_of s c = CRunning q \<Longrightarrow> p_state (procs s p) = UNUSED \<Longrightarrow> plock s p = None \<Longrightarrow>
    off_queue x = x \<Longrightarrow> p_parent x = Some q \<Longrightarrow>
    pstep s (make_runnable p (upd_proc p (\<lambda>_. x) s))"
| reap: "cpu_of s c = CRunning q \<Longrightarrow> p_state (procs s p) = ZOMBIE \<Longrightarrow> p_parent (procs s p) = Some q \<Longrightarrow> plock s p = None \<Longrightarrow>
    pstep s (upd_proc p (\<lambda>x. x\<lparr>p_parent := None, p_chan := NoChan, p_killed := False, p_state := UNUSED\<rparr>) (runq_remove p s))"

definition psteps :: "'a ptable_scheme \<Rightarrow> 'a ptable_scheme \<Rightarrow> bool" where
  "psteps = pstep\<^sup>*\<^sup>*"

text \<open>The state after \<^verbatim>\<open>procinit\<close> and \<^verbatim>\<open>userinit\<close>: only \<^verbatim>\<open>initproc\<close> is there, ready to run.\<close>

definition pstart :: "'a ptable_scheme \<Rightarrow> bool" where
  "pstart s \<longleftrightarrow> rq.valid s \<and> (\<forall>c. cpu_of s c = CIdle) \<and> (\<forall>p. plock s p = None) \<and>
     (\<forall>p. p_state (procs s p) = (if p = initproc s then RUNNABLE else UNUSED)) \<and>
     (\<forall>p. p_on_runq (procs s p) \<longleftrightarrow> p = initproc s)"

section \<open>The invariant\<close>

definition runs :: "'a ptable_scheme \<Rightarrow> nat \<Rightarrow> nat \<Rightarrow> bool" where
  "runs s c p \<longleftrightarrow> cpu_of s c = CResuming p \<or> cpu_of s c = CRunning p"

definition place_inv :: "'a ptable_scheme \<Rightarrow> bool" where
  "place_inv s \<longleftrightarrow>
     (\<forall>p. p_on_runq (procs s p) \<longleftrightarrow> p_state (procs s p) = RUNNABLE \<and> (\<forall>c. cpu_of s c \<noteq> CPicked p)) \<and>
     (\<forall>c p. cpu_of s c = CPicked p \<longrightarrow> p_state (procs s p) = RUNNABLE) \<and>
     (\<forall>c d p. cpu_of s c = CPicked p \<longrightarrow> cpu_of s d = CPicked p \<longrightarrow> c = d) \<and>
     (\<forall>c p. runs s c p \<longrightarrow> p_state (procs s p) = RUNNING) \<and>
     (\<forall>p. p_state (procs s p) = RUNNING \<longrightarrow> (\<exists>c. runs s c p)) \<and>
     (\<forall>c d p. runs s c p \<longrightarrow> runs s d p \<longrightarrow> c = d) \<and>
     (\<forall>c d p. cpu_of s c = CSwitching p \<longrightarrow> \<not> runs s d p) \<and>
     (\<forall>c p. plock s p = Some c \<longleftrightarrow> cpu_of s c = CResuming p \<or> cpu_of s c = CSwitching p)"

definition wait_inv :: "'a ptable_scheme \<Rightarrow> bool" where
  "wait_inv s \<longleftrightarrow> (\<forall>p q. q \<noteq> initproc s \<longrightarrow> sleeps_on (ChanProc q) (procs s q) \<longrightarrow>
     p < NPROC \<longrightarrow> p_parent (procs s p) = Some q \<longrightarrow> p_state (procs s p) \<noteq> ZOMBIE)"

definition pinv :: "'a ptable_scheme \<Rightarrow> bool" where
  "pinv s \<longleftrightarrow> rq.valid s \<and> place_inv s \<and> wait_inv s"

lemma pstart_inv: "pstart s \<Longrightarrow> pinv s"
  by (auto simp: pstart_def pinv_def place_inv_def wait_inv_def runs_def sleeps_on_def)

section \<open>Every step keeps the invariant\<close>

lemma place_inv_cong:
  assumes "place_inv s" "\<And>p. p_state (procs t p) = p_state (procs s p)" "\<And>p. p_on_runq (procs t p) = p_on_runq (procs s p)"
    "cpu_of t = cpu_of s" "plock t = plock s"
  shows "place_inv t"
  using assms by (simp add: place_inv_def runs_def)

lemma wait_inv_cong:
  assumes "wait_inv s" "\<And>p. p_state (procs t p) = p_state (procs s p)" "\<And>p. p_chan (procs t p) = p_chan (procs s p)"
    "\<And>p. p_parent (procs t p) = p_parent (procs s p)" "initproc t = initproc s"
  shows "wait_inv t"
  using assms by (simp add: wait_inv_def sleeps_on_def)


lemma place_invD:
  assumes "place_inv s"
  shows "p_on_runq (procs s p) \<longleftrightarrow> p_state (procs s p) = RUNNABLE \<and> (\<forall>c. cpu_of s c \<noteq> CPicked p)"
    and "cpu_of s c = CPicked p \<Longrightarrow> p_state (procs s p) = RUNNABLE"
    and "cpu_of s c = CPicked p \<Longrightarrow> cpu_of s d = CPicked p \<Longrightarrow> c = d"
    and "runs s c p \<Longrightarrow> p_state (procs s p) = RUNNING"
    and "p_state (procs s p) = RUNNING \<Longrightarrow> \<exists>c. runs s c p"
    and "runs s c p \<Longrightarrow> runs s d p \<Longrightarrow> c = d"
    and "cpu_of s c = CSwitching p \<Longrightarrow> \<not> runs s d p"
    and "plock s p = Some c \<longleftrightarrow> cpu_of s c = CResuming p \<or> cpu_of s c = CSwitching p"
  using assms unfolding place_inv_def by blast+

lemma runs_upd [simp]:
  "cpu_of t = (cpu_of s)(c := x) \<Longrightarrow> runs t d p \<longleftrightarrow> (if d = c then x = CResuming p \<or> x = CRunning p else runs s d p)"
  by (simp add: runs_def)

lemma place_pick:
  assumes I: "place_inv s" and c: "cpu_of s c = CIdle" and p: "p_on_runq (procs s p)"
  shows "place_inv (set_cpu c (CPicked p) (runq_remove p s))"
proof -
  let ?t = "set_cpu c (CPicked p) (runq_remove p s)"
  note D = place_invD [OF I]
  have r: "runs ?t d q \<longleftrightarrow> runs s d q" for d q using c by (auto simp: runs_def)
  have pk: "cpu_of ?t d = CPicked q \<longleftrightarrow> cpu_of s d = CPicked q \<or> d = c \<and> q = p" for d q using c by auto
  show ?thesis unfolding place_inv_def r pk using D p c by (auto simp: r)
qed


lemma place_enter:
  assumes I: "place_inv s" and c: "cpu_of s c = CPicked p" and l: "plock s p = None"
  shows "place_inv (set_cpu c (CResuming p) (upd_proc p (\<lambda>x. x\<lparr>p_state := RUNNING, p_wait_time := 0\<rparr>) (lock_proc p (Some c) s)))"
    (is "place_inv ?t")
proof -
  note D = place_invD [OF I]
  have s: "p_state (procs s p) = RUNNABLE" using D(2) [OF c] .
  have nr: "\<not> runs s d p" for d using D(4) s by fastforce
  have nl: "cpu_of s d \<noteq> CResuming p" "cpu_of s d \<noteq> CSwitching p" for d using D(8) [of p d] l by auto
  have r: "runs ?t d q \<longleftrightarrow> runs s d q \<or> d = c \<and> q = p" for d q using c by (auto simp: runs_def)
  have pk: "cpu_of ?t d = CPicked q \<longleftrightarrow> cpu_of s d = CPicked q \<and> q \<noteq> p" for d q using c D(3) by auto
  have sw: "cpu_of ?t d = CSwitching q \<longleftrightarrow> cpu_of s d = CSwitching q" for d q using c by auto
  have lk: "plock ?t q = Some d \<longleftrightarrow> cpu_of ?t d = CResuming q \<or> cpu_of ?t d = CSwitching q" for q d
    using D(8) [of q d] nl c by auto
  have on: "p_on_runq (procs ?t q) \<longleftrightarrow> p_on_runq (procs s q)" for q by simp
  have st: "p_state (procs ?t q) = (if q = p then RUNNING else p_state (procs s q))" for q by simp
  have non: "\<not> p_on_runq (procs s p)" using D(1) c by blast
  show ?thesis unfolding place_inv_def r pk sw lk on st using D(1-7) nr nl non by auto
qed

lemma place_resume:
  assumes I: "place_inv s" and c: "cpu_of s c = CResuming p"
  shows "place_inv (resume c slept p s)" (is "place_inv ?t")
proof -
  note D = place_invD [OF I]
  have r: "runs ?t d q \<longleftrightarrow> runs s d q" for d q using c by (auto simp: runs_def resume_def)
  have pk: "cpu_of ?t d = CPicked q \<longleftrightarrow> cpu_of s d = CPicked q" for d q using c by (auto simp: resume_def)
  have sw: "cpu_of ?t d = CSwitching q \<longleftrightarrow> cpu_of s d = CSwitching q" for d q using c by (auto simp: resume_def)
  have "runs s c p" using c by (simp add: runs_def)
  then have u: "cpu_of s d \<noteq> CResuming p" if "d \<noteq> c" for d using D(6) that by (auto simp: runs_def)
  have ns: "cpu_of s d \<noteq> CSwitching p" for d using D(7) \<open>runs s c p\<close> by blast
  have lk: "plock ?t q = Some d \<longleftrightarrow> cpu_of ?t d = CResuming q \<or> cpu_of ?t d = CSwitching q" for q d
    using D(8) [of q d] u ns c by (auto simp: resume_def)
  have st: "p_on_runq (procs ?t q) \<longleftrightarrow> p_on_runq (procs s q)" "p_state (procs ?t q) = p_state (procs s q)" for q
    by (auto simp: resume_def)
  show ?thesis unfolding place_inv_def r pk sw lk st using D(1-7) by blast
qed

text \<open>A process gives up its CPU in a state other than running, with its lock held.\<close>

lemma place_leave:
  assumes I: "place_inv s" and c: "cpu_of s c = CRunning p" and l: "plock s p = None"
    and st: "\<And>q. p_state (procs t q) = (if q = p then x else p_state (procs s q))" "x \<noteq> RUNNING"
    and on: "\<And>q. p_on_runq (procs t q) = (if q = p then x = RUNNABLE else p_on_runq (procs s q))"
    and t: "plock t = (plock s)(p := Some c)" "cpu_of t = (cpu_of s)(c := CSwitching p)"
  shows "place_inv t"
proof -
  note D = place_invD [OF I]
  have rc: "runs s c p" using c by (simp add: runs_def)
  then have s: "p_state (procs s p) = RUNNING" using D(4) by blast
  have r: "runs t d q \<longleftrightarrow> runs s d q \<and> q \<noteq> p" for d q using c t D(6) [OF rc] by (auto simp: runs_def)
  have pk: "cpu_of t d = CPicked q \<longleftrightarrow> cpu_of s d = CPicked q" for d q using c t by auto
  have np: "cpu_of s d \<noteq> CPicked p" for d using D(2) s by fastforce
  have sw: "cpu_of t d = CSwitching q \<longleftrightarrow> cpu_of s d = CSwitching q \<or> d = c \<and> q = p" for d q using c t by auto
  have nl: "cpu_of s d \<noteq> CResuming p" "cpu_of s d \<noteq> CSwitching p" for d using D(8) [of p d] l by auto
  have lk: "plock t q = Some d \<longleftrightarrow> cpu_of t d = CResuming q \<or> cpu_of t d = CSwitching q" for q d
    using D(8) [of q d] nl c t by auto
  show ?thesis unfolding place_inv_def r pk sw lk on st(1) using D(1-7) np st(2) by auto
qed

lemma place_back:
  assumes I: "place_inv s" and c: "cpu_of s c = CSwitching p"
  shows "place_inv (scheduler_back c p s)" (is "place_inv ?t")
proof -
  note D = place_invD [OF I]
  have r: "runs ?t d q \<longleftrightarrow> runs s d q" for d q using c by (auto simp: runs_def scheduler_back_def)
  have pk: "cpu_of ?t d = CPicked q \<longleftrightarrow> cpu_of s d = CPicked q" for d q using c by (auto simp: scheduler_back_def)
  have u: "plock s p = Some c" using D(8) c by blast
  have lk: "plock ?t q = Some d \<longleftrightarrow> cpu_of ?t d = CResuming q \<or> cpu_of ?t d = CSwitching q" for q d
    using D(8) [of q d] u c by (auto simp: scheduler_back_def)
  have sw: "cpu_of ?t d = CSwitching q \<Longrightarrow> cpu_of s d = CSwitching q" for d q by (auto simp: scheduler_back_def split: if_splits)
  have st: "procs ?t = procs s" by (simp add: scheduler_back_def)
  show ?thesis unfolding place_inv_def r pk lk st using D(1-7) sw by blast
qed

text \<open>A process that is neither running nor ready changes its state.\<close>

lemma place_ready:
  assumes I: "place_inv s" and p: "p_state (procs s p) \<notin> {RUNNING, RUNNABLE}" and x: "x \<noteq> RUNNING"
    and st: "\<And>q. p_state (procs t q) = (if q = p then x else p_state (procs s q))"
    and on: "\<And>q. p_on_runq (procs t q) \<longleftrightarrow> (if q = p then x = RUNNABLE else p_on_runq (procs s q))"
    and t: "plock t = plock s" "cpu_of t = cpu_of s"
  shows "place_inv t"
proof -
  note D = place_invD [OF I]
  have r: "runs t d q \<longleftrightarrow> runs s d q" for d q by (simp add: runs_def t)
  have "cpu_of s d \<noteq> CPicked p" "\<not> runs s d p" for d using D(2,4) p by fastforce+
  then show ?thesis unfolding place_inv_def r st on t using D x by auto
qed

lemma acquire_proc_Some: "acquire_proc c p s = Some t \<longleftrightarrow> plock s p = None \<and> t = lock_proc p (Some c) s"
  by (auto simp: acquire_proc_def)

lemma sched_Some: "sched c noff intr p s = Some t \<longleftrightarrow>
    plock s p = Some c \<and> noff = 1 \<and> p_state (procs s p) \<noteq> RUNNING \<and> \<not> intr \<and> t = set_cpu c (CSwitching p) s"
  by (auto simp: sched_def)

lemma runs_off_queue:
  assumes "place_inv s" "cpu_of s c = CRunning p"
  shows "p_state (procs s p) = RUNNING" "\<not> p_on_runq (procs s p)"
proof -
  have "runs s c p" using assms(2) by (simp add: runs_def)
  then show "p_state (procs s p) = RUNNING" using place_invD(4) [OF assms(1)] by blast
  then show "\<not> p_on_runq (procs s p)" using place_invD(1) [OF assms(1)] by simp
qed

text \<open>The fall-back branch of \<^verbatim>\<open>scheduler\<close> is dead: a process taken off the queue is still runnable.\<close>

lemma scheduler_enter_Some:
  assumes "place_inv s" "cpu_of s c = CPicked p" "scheduler_enter c p s = Some t"
  shows "plock s p = None"
    "t = set_cpu c (CResuming p) (upd_proc p (\<lambda>x. x\<lparr>p_state := RUNNING, p_wait_time := 0\<rparr>) (lock_proc p (Some c) s))"
  using place_invD(2) [OF assms(1,2)] assms(3) by (auto simp: scheduler_enter_def acquire_proc_Some split: option.splits)

lemma pinv_pick:
  assumes I: "pinv s" and c: "cpu_of s c = CIdle" and t: "scheduler_pick c s = Some t"
  shows "pinv t"
proof -
  have v: "rq.valid s" using I by (simp add: pinv_def)
  show ?thesis using v
  proof (cases rule: rq.pick_total)
    case none
    then show ?thesis using t I by (simp add: scheduler_pick_def)
  next
    case (some p)
    then have "t = set_cpu c (CPicked p) (runq_remove p s)" using t by (simp add: scheduler_pick_def)
    then show ?thesis using I place_pick [OF _ c some(2)] rq.rem_valid [OF v] wait_inv_cong [of s t]
      by (simp add: pinv_def)
  qed
qed

lemma pinv_enter:
  assumes I: "pinv s" and c: "cpu_of s c = CPicked p" and t: "scheduler_enter c p s = Some t"
  shows "pinv t"
proof -
  have P: "place_inv s" using I by (simp add: pinv_def)
  note e = scheduler_enter_Some [OF P c t]
  have "rq.valid t" unfolding e(2) using I by (auto simp: pinv_def intro!: valid_upd_proc)
  moreover have "wait_inv t" using I place_invD(2) [OF P c] unfolding e(2) pinv_def wait_inv_def sleeps_on_def by auto
  ultimately show ?thesis using place_enter [OF P c e(1)] by (simp add: pinv_def e(2))
qed

lemma pinv_resume:
  assumes I: "pinv s" and c: "cpu_of s c = CResuming p"
  shows "pinv (resume c slept p s)"
proof -
  have P: "place_inv s" using I by (simp add: pinv_def)
  have "rq.valid (resume c slept p s)" using I by (auto simp: pinv_def resume_def intro!: valid_upd_proc)
  moreover have "wait_inv (resume c slept p s)" using I
    unfolding pinv_def wait_inv_def resume_def sleeps_on_def by auto
  ultimately show ?thesis using place_resume [OF P c] by (simp add: pinv_def)
qed

lemma pinv_yield:
  assumes I: "pinv s" and c: "cpu_of s c = CRunning p" and t: "yield c p s = Some t"
  shows "pinv t"
proof -
  have P: "place_inv s" using I by (simp add: pinv_def)
  note R = runs_off_queue [OF P c]
  have l: "plock s p = None" and e: "t = set_cpu c (CSwitching p) (make_runnable p (lock_proc p (Some c) s))"
    using t by (auto simp: yield_def acquire_proc_Some sched_Some split: option.splits)
  have "place_inv t" by (rule place_leave [OF P c l, where x = RUNNABLE]) (simp_all add: e R)
  moreover have "wait_inv t" using I unfolding e pinv_def wait_inv_def sleeps_on_def by auto
  ultimately show ?thesis using I by (auto simp: pinv_def e intro!: valid_make_runnable)
qed

lemma pinv_sleeps:
  assumes I: "pinv s" and c: "cpu_of s c = CRunning p" and l: "plock s p = None"
    and e: "t = set_cpu c (CSwitching p) (upd_proc p (\<lambda>x. x\<lparr>p_chan := ch, p_state := SLEEPING\<rparr>) (lock_proc p (Some c) s))"
    and ch: "ch = ChanProc p \<Longrightarrow> (\<And>q. q < NPROC \<Longrightarrow> p_parent (procs s q) = Some p \<Longrightarrow> p_state (procs s q) \<noteq> ZOMBIE)"
  shows "pinv t"
proof -
  have P: "place_inv s" using I by (simp add: pinv_def)
  note R = runs_off_queue [OF P c]
  have "place_inv t" by (rule place_leave [OF P c l, where x = SLEEPING]) (simp_all add: e R)
  moreover have "wait_inv t" using I ch unfolding e pinv_def wait_inv_def sleeps_on_def by auto
  moreover have "rq.valid t" using I by (auto simp: pinv_def e intro!: valid_upd_proc)
  ultimately show ?thesis by (auto simp: pinv_def)
qed

definition reparents :: "nat \<Rightarrow> nat list \<Rightarrow> 'a ptable_scheme \<Rightarrow> 'a ptable_scheme" where
  "reparents p xs s = fold (\<lambda>pp s. if p_parent (procs s pp) = Some p
     then upd_proc pp (\<lambda>x. x\<lparr>p_parent := Some (initproc s)\<rparr>) s else s) xs s"

lemma reparents_sel:
  "procs (reparents p xs s) q = (procs s q)\<lparr>p_parent :=
     (if q \<in> set xs \<and> p_parent (procs s q) = Some p then Some (initproc s) else p_parent (procs s q))\<rparr>
   \<and> initproc (reparents p xs s) = initproc s \<and> plock (reparents p xs s) = plock s \<and> cpu_of (reparents p xs s) = cpu_of s \<and>
   (rq.valid s \<longrightarrow> rq.valid (reparents p xs s))"
proof (induction xs arbitrary: s)
  case (Cons a xs)
  let ?s = "if p_parent (procs s a) = Some p then upd_proc a (\<lambda>x. x\<lparr>p_parent := Some (initproc s)\<rparr>) s else s"
  have e: "reparents p (a # xs) s = reparents p xs ?s" by (simp add: reparents_def)
  have v: "rq.valid s \<longrightarrow> rq.valid ?s" by (auto intro!: valid_upd_proc)
  show ?case unfolding e using Cons [of ?s] v by auto
qed (simp add: reparents_def)

lemma reparent_sel [simp]:
  "procs (reparent p s) q = (procs s q)\<lparr>p_parent :=
     (if q < NPROC \<and> p_parent (procs s q) = Some p then Some (initproc s) else p_parent (procs s q))\<rparr>"
  "initproc (reparent p s) = initproc s" "plock (reparent p s) = plock s" "cpu_of (reparent p s) = cpu_of s"
  "rq.valid s \<Longrightarrow> rq.valid (reparent p s)"
  using reparents_sel [of p "[0..<NPROC]" s q] by (simp_all add: reparent_def reparents_def)

lemma pinv_wake:
  assumes I: "pinv s" and p: "p_state (procs s p) \<notin> {RUNNING, RUNNABLE}"
  shows "pinv (make_runnable p s)"
proof -
  have P: "place_inv s" using I by (simp add: pinv_def)
  have "\<not> p_on_runq (procs s p)" using place_invD(1) [OF P] p by simp
  then have "place_inv (make_runnable p s)" by (intro place_ready [OF P p, where x = RUNNABLE]) auto
  moreover have "wait_inv (make_runnable p s)" using I unfolding pinv_def wait_inv_def sleeps_on_def by auto
  ultimately show ?thesis using I by (auto simp: pinv_def intro!: valid_make_runnable)
qed

lemma pinv_upd:
  assumes "pinv s" "\<And>x. p_run_next (f x) = p_run_next x" "\<And>x. p_run_prev (f x) = p_run_prev x"
    "\<And>x. p_on_runq (f x) = p_on_runq x" "\<And>x. p_dyn_priority (f x) = p_dyn_priority x"
    "\<And>x. p_state (f x) = p_state x" "\<And>x. p_chan (f x) = p_chan x" "\<And>x. p_parent (f x) = p_parent x"
  shows "pinv (upd_proc p f s)"
  using assms place_inv_cong [of s "upd_proc p f s"] wait_inv_cong [of s "upd_proc p f s"]
  by (simp add: pinv_def valid_upd_proc)

lemma pinv_reparent: "pinv s \<Longrightarrow> pinv (reparent p s)"
proof -
  assume I: "pinv s"
  have "place_inv (reparent p s)" by (rule place_inv_cong [of s]) (use I in \<open>simp_all add: pinv_def\<close>)
  moreover have "wait_inv (reparent p s)" using I unfolding pinv_def wait_inv_def sleeps_on_def by auto
  ultimately show ?thesis using I by (simp add: pinv_def)
qed

lemma pinv_exit:
  assumes I: "pinv s" and c: "cpu_of s c = CRunning p" and q: "p_parent (procs s p) \<in> {Some q, Some (initproc s)}"
    and t: "exit_finish c status q p s = Some t"
  shows "pinv t"
proof -
  obtain s1 where l: "plock s q = None" "plock s p = None" "p \<noteq> q"
    and w: "wakeup1 c q (reparent p (lock_proc p (Some c) (lock_proc q (Some c) s))) = Some s1"
    and e: "t = set_cpu c (CSwitching p) (lock_proc q None (upd_proc p (\<lambda>x. x\<lparr>p_xstate := status, p_state := ZOMBIE\<rparr>) s1))"
    using t by (auto simp: exit_finish_def acquire_proc_Some sched_Some split: bind_splits if_splits)
  let ?s0 = "reparent p s"
  define s2 where "s2 = (if sleeps_on (ChanProc q) (procs ?s0 q) then make_runnable q ?s0 else ?s0)"
  have I2: "pinv s2" unfolding s2_def using pinv_reparent [OF I] by (auto simp: sleeps_on_def intro!: pinv_wake)
  then have P2: "place_inv s2" and W2: "wait_inv s2" by (auto simp: pinv_def)
  have tb: "cpu_of s2 = cpu_of s" "plock s2 = plock s" "initproc s2 = initproc s" by (auto simp: s2_def)
  have s1: "p_state (procs s1 x) = p_state (procs s2 x)" "p_chan (procs s1 x) = p_chan (procs s2 x)"
    "p_parent (procs s1 x) = p_parent (procs s2 x)" "p_on_runq (procs s1 x) = p_on_runq (procs s2 x)"
    "cpu_of s1 = cpu_of s" "plock s1 = (plock s)(q := Some c, p := Some c)" "initproc s1 = initproc s" for x
    using w l by (auto simp: wakeup1_def s2_def sleeps_on_def split: if_splits)
  have c2: "cpu_of s2 c = CRunning p" using c tb by simp
  have "place_inv t"
    by (rule place_leave [OF P2 c2, where x = ZOMBIE]) (use l in \<open>auto simp: e s1 tb runs_off_queue [OF P2 c2] fun_upd_twist\<close>)
  moreover have "rq.valid s1"
    using w I by (auto simp: wakeup1_def pinv_def intro!: valid_make_runnable split: if_splits)
  then have "rq.valid t" by (auto simp: e intro!: valid_upd_proc)
  moreover have "wait_inv t"
  proof -
    have nq: "\<not> sleeps_on (ChanProc q) (procs s2 q)" by (auto simp: s2_def sleeps_on_def)
    have pp: "p_parent (procs s2 p) \<in> {Some q, Some (initproc s)}" using q by (auto simp: s2_def)
    show ?thesis unfolding wait_inv_def
    proof (intro allI impI notI)
      fix x r assume h: "r \<noteq> initproc t" "sleeps_on (ChanProc r) (procs t r)" "x < NPROC" "p_parent (procs t x) = Some r" "p_state (procs t x) = ZOMBIE"
      then have r: "sleeps_on (ChanProc r) (procs s2 r)" "p_parent (procs s2 x) = Some r" "r \<noteq> initproc s"
        by (auto simp: e s1 sleeps_on_def split: if_splits)
      then have "r \<noteq> q" using nq by blast
      then have "x \<noteq> p" using pp r by auto
      then have "p_state (procs s2 x) = ZOMBIE" using h(5) by (auto simp: e s1)
      then show False using W2 r tb h(3) unfolding wait_inv_def by auto
    qed
  qed
  ultimately show ?thesis by (simp add: pinv_def)
qed


text \<open>An entry that is not queued can be rewritten as long as it stays unqueued.\<close>

lemma valid_upd_off:
  assumes "rq.valid s" and p: "\<not> p_on_runq (procs s p)" "\<not> p_on_runq (f (procs s p))"
  shows "rq.valid (upd_proc p f s)"
proof -
  obtain Q where Q: "runq_rel s Q" using assms(1) by (auto simp: rq.valid_def)
  have n: "p \<notin> set (Q i)" for i using runq_relD(3) [OF Q] p(1) by blast
  have "dseg (procs (upd_proc p f s)) None (runq_head s i) (Q i) (runq_tail s i) None" if "i < RUNQ_LEN" for i
    using runq_relD(1) [OF Q that] n [of i] by (elim dseg_frame) auto
  then have "runq_rel (upd_proc p f s) Q" using Q p n by (auto simp: runq_rel_def)
  then show ?thesis by (auto simp: rq.valid_def)
qed

lemma pinv_prio: "pinv s \<Longrightarrow> pinv (snd (setPriority pid priority s))"
proof -
  assume I: "pinv s"
  show ?thesis
  proof (cases "find (\<lambda>p. p_pid (procs s p) = pid) [0..<NPROC]")
    case (Some p)
    let ?s = "upd_proc p (\<lambda>x. x\<lparr>p_priority := priority\<rparr>) s"
    have I': "pinv ?s" using I by (intro pinv_upd) auto
    then have V: "rq.valid ?s" by (simp add: pinv_def)
    define t where "t = snd (setPriority pid priority s)"
    have t: "t = (if p_on_runq (procs s p) then runq_enqueue p (runq_remove p ?s) else upd_proc p (\<lambda>x. x\<lparr>p_dyn_priority := runq_dyn x\<rparr>) ?s)"
      using Some by (simp add: t_def setPriority_def Let_def)
    have v: "rq.valid t"
    proof (cases "p_on_runq (procs s p)")
      case True
      then show ?thesis using rq.enq_valid [OF rq.rem_valid [OF V]] by (simp add: t)
    next
      case False
      then show ?thesis using V by (auto simp: t intro!: valid_upd_off)
    qed
    have "place_inv t" by (rule place_inv_cong [of s]) (use I in \<open>auto simp: pinv_def t\<close>)
    moreover have "wait_inv t" by (rule wait_inv_cong [of s]) (use I in \<open>auto simp: pinv_def t\<close>)
    ultimately show ?thesis using v by (simp add: pinv_def t_def)
  qed (use I in \<open>simp add: setPriority_def\<close>)
qed


lemma pinv_tick:
  assumes I: "pinv s" and t: "sched_tick running s = Some t"
  shows "pinv t"
proof -
  obtain Q where Q: "runq_rel s Q" using I by (auto simp: pinv_def rq.valid_def)
  obtain s1 Q' where s1: "t = (case running of None \<Rightarrow> s1 | Some r \<Rightarrow> upd_proc r (\<lambda>x. x\<lparr>p_cpu_time := wrap32 (p_cpu_time x + 1)\<rparr>) s1)"
    "runq_rel s1 Q'" "same_ready (age_set {p. p_on_runq (procs s p)} s) s1"
    using sched_tick_Some [OF Q, of running] t by auto
  have m: "runq.more s1 = runq.more s" using s1(3) by (simp add: same_ready_def)
  have tb: "plock s1 = plock s" "cpu_of s1 = cpu_of s" "initproc s1 = initproc s"
    using m by (cases s1, cases s, simp)+
  have off: "off_queue (procs s1 q) = off_queue (procs (age_set {p. p_on_runq (procs s p)} s) q)"
    "p_on_runq (procs s1 q) = p_on_runq (procs s q)" for q
    using s1(3) by (simp_all add: same_ready_def)
  note F = off_queue_fields [OF off(1)]
  have f: "p_state (procs t q) = p_state (procs s q)" "p_chan (procs t q) = p_chan (procs s q)"
    "p_parent (procs t q) = p_parent (procs s q)" "p_on_runq (procs t q) = p_on_runq (procs s q)" for q
    using F [of q] off(2) [of q] by (auto simp: s1(1) age_def split: option.split)
  have tb': "plock t = plock s" "cpu_of t = cpu_of s" "initproc t = initproc s"
    using tb by (auto simp: s1(1) split: option.split)
  have "rq.valid s1" using s1(2) by (auto simp: rq.valid_def)
  then have "rq.valid t" by (auto simp: s1(1) intro!: valid_upd_proc split: option.split)
  moreover have "place_inv t" by (rule place_inv_cong [of s]) (use I f tb' in \<open>simp_all add: pinv_def\<close>)
  moreover have "wait_inv t" by (rule wait_inv_cong [of s]) (use I f tb' in \<open>simp_all add: pinv_def\<close>)
  ultimately show ?thesis by (simp add: pinv_def)
qed

lemma pinv_spawn:
  assumes I: "pinv s" and q: "cpu_of s c = CRunning q" and p: "p_state (procs s p) = UNUSED" "plock s p = None"
    and x: "off_queue x = x" "p_parent x = Some q"
  shows "pinv (make_runnable p (upd_proc p (\<lambda>_. x) s))" (is "pinv ?t")
proof -
  have P: "place_inv s" using I by (simp add: pinv_def)
  have on: "\<not> p_on_runq (procs s p)" using place_invD(1) [OF P] p by simp
  have xn: "\<not> p_on_runq x" using arg_cong [OF x(1), of p_on_runq] by (simp add: off_queue_def)
  have "rq.valid ?t" using I on xn by (auto simp: pinv_def intro!: valid_make_runnable valid_upd_off)
  moreover have "place_inv ?t" by (rule place_ready [OF P, of p RUNNABLE]) (use p on in auto)
  moreover have "wait_inv ?t" using I x(2) runs_off_queue(1) [OF P q] unfolding pinv_def wait_inv_def sleeps_on_def by auto
  ultimately show ?thesis by (simp add: pinv_def)
qed

lemma pinv_reap:
  assumes I: "pinv s" and p: "p_state (procs s p) = ZOMBIE"
  shows "pinv (upd_proc p (\<lambda>x. x\<lparr>p_parent := None, p_chan := NoChan, p_killed := False, p_state := UNUSED\<rparr>) (runq_remove p s))" (is "pinv ?t")
proof -
  have P: "place_inv s" using I by (simp add: pinv_def)
  have on: "\<not> p_on_runq (procs s p)" using place_invD(1) [OF P] p by simp
  have "rq.valid ?t" using I by (auto simp: pinv_def intro!: valid_upd_proc rq.rem_valid)
  moreover have "place_inv ?t" by (rule place_ready [OF P, of p UNUSED]) (use p on in auto)
  moreover have "wait_inv ?t" using I unfolding pinv_def wait_inv_def sleeps_on_def by auto
  ultimately show ?thesis by (simp add: pinv_def)
qed

lemma zombie_child_None: "zombie_child p s = None \<Longrightarrow> q < NPROC \<Longrightarrow> p_parent (procs s q) = Some p \<Longrightarrow> p_state (procs s q) \<noteq> ZOMBIE"
  by (auto simp: zombie_child_def find_None_iff)


lemma pinv_back:
  assumes I: "pinv s" and c: "cpu_of s c = CSwitching p"
  shows "pinv (scheduler_back c p s)"
proof -
  have "wait_inv (scheduler_back c p s)"
    by (rule wait_inv_cong [of s]) (use I in \<open>simp_all add: pinv_def scheduler_back_def\<close>)
  then show ?thesis using I place_back [OF _ c] by (simp add: pinv_def) (simp add: scheduler_back_def)
qed

lemma pstep_pinv: "pstep s t \<Longrightarrow> pinv s \<Longrightarrow> pinv t"
proof (induction rule: pstep.induct)
  case (sleep s c p ch noff t)
  then show ?case
    by (intro pinv_sleeps [of s c p t ch]) (auto simp: sleep_def acquire_proc_Some sched_Some split: option.splits)
next
  case (wait_sleep s c p t)
  then have "plock s p = None" "zombie_child p s = None"
    "t = set_cpu c (CSwitching p) (upd_proc p (\<lambda>x. x\<lparr>p_chan := ChanProc p, p_state := SLEEPING\<rparr>) (lock_proc p (Some c) s))"
    by (auto simp: wait_sleep_def sleep_def acquire_proc_Some sched_Some zombie_child_def split: bind_splits if_splits)
  then show ?case using wait_sleep zombie_child_None by (intro pinv_sleeps [of s c p t "ChanProc p"]) auto
next
  case (killed s p s')
  have "pinv s'" unfolding killed(2) using killed(3) by (intro pinv_upd) auto
  then show ?case by (auto intro!: pinv_wake)
next
  case (wake ch s p)
  then show ?case by (intro pinv_wake) (auto simp: sleeps_on_def)
qed (rule pinv_pick pinv_enter pinv_resume pinv_yield pinv_exit pinv_prio pinv_tick pinv_spawn pinv_reap pinv_back; assumption)+

lemma psteps_pinv: "pstart s \<Longrightarrow> psteps s t \<Longrightarrow> pinv t"
  unfolding psteps_def by (rotate_tac 1, induction rule: rtranclp_induct) (auto dest: pstart_inv pstep_pinv)

section \<open>The scheduler is correct\<close>




lemma off_queue_state: "off_queue (x\<lparr>p_state := v\<rparr>) = (off_queue x)\<lparr>p_state := v\<rparr>"
  by (simp add: off_queue_def)

lemma wakeup_fold:
  fixes s :: "'a runq_scheme" and ch :: chan and xs :: "nat list"
  assumes "rq.valid s" and "distinct xs"
  defines "t \<equiv> fold (\<lambda>p s. if sleeps_on ch (procs s p) then make_runnable p s else s) xs s"
  shows "rq.valid t \<and> (\<forall>q. off_queue (procs t q) =
      (if q \<in> set xs \<and> sleeps_on ch (procs s q) then (off_queue (procs s q))\<lparr>p_state := RUNNABLE\<rparr> else off_queue (procs s q)) \<and>
    (p_on_runq (procs t q) \<longleftrightarrow> p_on_runq (procs s q) \<or> q \<in> set xs \<and> sleeps_on ch (procs s q)))"
  using assms(1,2) unfolding t_def
proof (induction xs arbitrary: s)
  case (Cons a xs)
  define s1 where "s1 = (if sleeps_on ch (procs s a) then make_runnable a s else s)"
  have v: "rq.valid s1" using Cons(2) by (auto simp: s1_def intro!: valid_make_runnable)
  have o: "off_queue (procs s1 q) = (if q = a \<and> sleeps_on ch (procs s q) then (off_queue (procs s q))\<lparr>p_state := RUNNABLE\<rparr> else off_queue (procs s q))"
    "p_on_runq (procs s1 q) \<longleftrightarrow> p_on_runq (procs s q) \<or> q = a \<and> sleeps_on ch (procs s q)" for q
    by (auto simp: s1_def make_runnable_def off_queue_state)
  have n: "sleeps_on ch (procs s1 q) = sleeps_on ch (procs s q)" if "q \<in> set xs" for q
    using that Cons(3) by (auto simp: sleeps_on_def s1_def)
  have f: "fold (\<lambda>p s. if sleeps_on ch (procs s p) then make_runnable p s else s) (a # xs) s =
      fold (\<lambda>p s. if sleeps_on ch (procs s p) then make_runnable p s else s) xs s1" by (simp add: s1_def)
  show ?case unfolding f using Cons(1) [OF v] Cons(3) o n by auto
qed simp

text \<open>
  C32. \<^verbatim>\<open>wakeup\<close> makes exactly the processes that sleep on the channel runnable and queues them,
  each once; it changes no other process and no other field.
\<close>

theorem wakeup_exact:
  fixes s :: "'a runq_scheme"
  assumes "rq.valid s"
  shows "rq.valid (wakeup ch s) \<and> (\<forall>p.
    off_queue (procs (wakeup ch s) p) = (if p < NPROC \<and> sleeps_on ch (procs s p)
      then (off_queue (procs s p))\<lparr>p_state := RUNNABLE\<rparr> else off_queue (procs s p)) \<and>
    (p_on_runq (procs (wakeup ch s) p) \<longleftrightarrow> p_on_runq (procs s p) \<or> p < NPROC \<and> sleeps_on ch (procs s p)))"
  using wakeup_fold [OF assms, of "[0..<NPROC]" ch] unfolding wakeup_def by simp


section \<open>Examples\<close>

definition demo_table :: ptable where
  "demo_table = make_runnable 0 \<lparr>procs = \<lambda>_. zero_proc, runq_head = \<lambda>_. None, runq_tail = \<lambda>_. None, runq_bitmap = 0,
     plock = \<lambda>_. None, cpu_of = \<lambda>_. CIdle, initproc = 0, nextpid = 2\<rparr>"

lemma demo_table_start: "pstart demo_table"
proof -
  let ?z = "\<lparr>procs = \<lambda>_. zero_proc, runq_head = \<lambda>_. None, runq_tail = \<lambda>_. None, runq_bitmap = 0,
     plock = \<lambda>_. None, cpu_of = \<lambda>_. CIdle, initproc = 0, nextpid = 2\<rparr> :: ptable"
  have "runq_rel ?z (\<lambda>_. [])" by (simp add: runq_rel_def zero_proc_def)
  then have "rq.valid ?z" by (auto simp: rq.valid_def)
  then show ?thesis unfolding pstart_def demo_table_def by (auto simp: zero_proc_def intro!: valid_make_runnable)
qed

text \<open>The only ready process gets an idle CPU.\<close>

lemma run_only:
  assumes I: "pinv s" and c: "cpu_of s c = CIdle" and on: "\<And>q. p_on_runq (procs s q) \<longleftrightarrow> q = p" and l: "plock s p = None"
  shows "\<exists>t. psteps s t \<and> pinv t \<and> cpu_of t = (cpu_of s)(c := CRunning p) \<and> plock t = plock s \<and> initproc t = initproc s \<and>
    (\<forall>q. \<not> p_on_runq (procs t q) \<and> p_state (procs t q) = (if q = p then RUNNING else p_state (procs s q)) \<and>
      p_parent (procs t q) = p_parent (procs s q) \<and> p_killed (procs t q) = p_killed (procs s q))"
proof -
  have v: "rq.valid s" using I by (simp add: pinv_def)
  define u where "u = set_cpu c (CPicked p) (runq_remove p s)"
  have u: "scheduler_pick c s = Some u"
    using v by (cases rule: rq.pick_total) (use on in \<open>auto simp: scheduler_pick_def u_def\<close>)
  have s1: "pstep s u" by (rule pstep.pick [OF c u])
  then have Iu: "pinv u" using pstep_pinv I by blast
  have cu: "cpu_of u c = CPicked p" by (simp add: u_def)
  have ru: "p_state (procs u p) = RUNNABLE" using place_invD(2) [OF _ cu] Iu by (simp add: pinv_def)
  define w where "w = set_cpu c (CResuming p) (upd_proc p (\<lambda>x. x\<lparr>p_state := RUNNING, p_wait_time := 0\<rparr>) (lock_proc p (Some c) u))"
  have "scheduler_enter c p u = Some w" using ru l by (simp add: scheduler_enter_def acquire_proc_def w_def u_def)
  then have s2: "pstep u w" by (rule pstep.enter [OF cu])
  have cw: "cpu_of w c = CResuming p" by (simp add: w_def)
  have s3: "pstep w (resume c False p w)" by (rule pstep.resume [OF cw])
  have "psteps s (resume c False p w)" using s1 s2 s3 unfolding psteps_def
    by (meson r_into_rtranclp rtranclp.rtrancl_into_rtrancl)
  moreover have "pinv (resume c False p w)" using s2 s3 Iu pstep_pinv by blast
  ultimately show ?thesis using on l
    by (intro exI [of _ "resume c False p w"]) (auto simp: resume_def w_def u_def fun_eq_iff)
qed

lemma demo_on: "p_on_runq (procs demo_table q) \<longleftrightarrow> q = 0" "plock demo_table q = None" "cpu_of demo_table q = CIdle" "initproc demo_table = 0"
  using demo_table_start by (simp_all add: pstart_def demo_table_def)

lemma demo_runs: "\<exists>t. psteps demo_table t \<and> runs t 3 0"
proof -
  obtain t where t: "psteps demo_table t" "cpu_of t = (cpu_of demo_table)(3 := CRunning 0)"
    using run_only [OF pstart_inv [OF demo_table_start] demo_on(3,1,2), of 3] by blast
  then have "runs t 3 0" by (simp add: runs_def)
  then show ?thesis using t(1) by blast
qed

text \<open>A child of the first process forks and waits.\<close>

lemma demo_waits: "\<exists>t. psteps demo_table t \<and> sleeps_on (ChanProc 1) (procs t 1) \<and> initproc t = 0"
proof -
  let ?x = "\<lambda>q. zero_proc\<lparr>p_parent := Some q\<rparr>"
  have x: "off_queue (?x q) = ?x q" "p_parent (?x q) = Some q" for q by (simp_all add: off_queue_def zero_proc_def)
  have un: "p_state (procs demo_table q) = (if q = 0 then RUNNABLE else UNUSED)" for q
    using demo_table_start demo_on by (simp add: pstart_def)
  obtain s1 where s1: "psteps demo_table s1" "pinv s1" "cpu_of s1 = (cpu_of demo_table)(3 := CRunning 0)" "plock s1 = plock demo_table"
    "initproc s1 = 0" "\<forall>q. \<not> p_on_runq (procs s1 q) \<and> p_state (procs s1 q) = (if q = 0 then RUNNING else p_state (procs demo_table q))"
    using run_only [OF pstart_inv [OF demo_table_start] demo_on(3,1,2), of 3] unfolding demo_on(4) by blast
  define s2 where "s2 = make_runnable 1 (upd_proc 1 (\<lambda>_. ?x 0) s1)"
  have p2: "pstep s1 s2" unfolding s2_def by (rule pstep.spawn [of _ 3 0]) (use s1 un demo_on x in auto)
  have I2: "pinv s2" using p2 s1(2) pstep_pinv by blast
  have on2: "p_on_runq (procs s2 q) \<longleftrightarrow> q = 1" for q using s1(6) by (simp add: s2_def zero_proc_def)
  have c2: "cpu_of s2 4 = CIdle" and l2: "plock s2 1 = None" using s1(3,4) demo_on by (simp_all add: s2_def)
  obtain s3 where s3: "psteps s2 s3" "pinv s3" "cpu_of s3 = (cpu_of s2)(4 := CRunning 1)" "plock s3 = plock s2" "initproc s3 = initproc s2"
    "\<forall>q. p_state (procs s3 q) = (if q = 1 then RUNNING else p_state (procs s2 q)) \<and> p_killed (procs s3 q) = p_killed (procs s2 q)"
    using run_only [OF I2 c2 on2 l2] by blast
  define s4 where "s4 = make_runnable 2 (upd_proc 2 (\<lambda>_. ?x 1) s3)"
  have st3: "p_state (procs s3 2) = UNUSED" "\<And>q. p_state (procs s3 q) \<noteq> ZOMBIE" "\<not> p_killed (procs s3 1)"
    using s3(6) s1(6) un by (auto simp: s2_def zero_proc_def)
  have p4: "pstep s3 s4" unfolding s4_def by (rule pstep.spawn [of _ 4 1]) (use s3 s1 st3 demo_on x in \<open>auto simp: s2_def\<close>)
  have z: "zombie_child 1 (lock_proc 1 (Some 4) s4) = None" using st3(2) by (auto simp: zombie_child_def find_None_iff s4_def)
  have h: "havekids 1 (lock_proc 1 (Some 4) s4)" by (auto simp: havekids_def s4_def NPROC_def zero_proc_def intro!: bexI [of _ 2])
  have l: "plock s4 1 = None" "cpu_of s4 4 = CRunning 1" using s1(4) s3(3,4) demo_on by (simp_all add: s4_def s2_def)
  have k: "\<not> p_killed (procs s4 1)" using st3(3) by (simp add: s4_def)
  define t where "t = set_cpu 4 (CSwitching 1) (upd_proc 1 (\<lambda>x. x\<lparr>p_chan := ChanProc 1, p_state := SLEEPING\<rparr>) (lock_proc 1 (Some 4) s4))"
  have t: "wait_sleep 4 1 s4 = Some t"
    using z h k l(1) by (simp add: wait_sleep_def acquire_proc_def sleep_def sched_def t_def)
  have "sleeps_on (ChanProc 1) (procs t 1)" "initproc t = 0" using s1(5) s3(5) by (simp_all add: t_def sleeps_on_def) (simp add: s4_def s2_def)
  moreover have "pstep s4 t" by (rule pstep.wait_sleep [OF l(2) t])
  then have "psteps demo_table t" using s1(1) p2 s3(1) p4 unfolding psteps_def
    by (meson r_into_rtranclp rtranclp_trans)
  ultimately show ?thesis by blast
qed




theorem wakeup_exact_witness:
  "p_state (procs (wakeup ChanTicks (upd_proc 3 (\<lambda>x. x\<lparr>p_state := SLEEPING, p_chan := ChanTicks\<rparr>) demo_table)) 3) = RUNNABLE"
proof -
  let ?s = "upd_proc 3 (\<lambda>x. x\<lparr>p_state := SLEEPING, p_chan := ChanTicks\<rparr>) demo_table"
  have "rq.valid ?s" using demo_table_start by (auto simp: pstart_def intro!: valid_upd_proc)
  from wakeup_exact [OF this, of ChanTicks]
  have "off_queue (procs (wakeup ChanTicks ?s) 3) = (off_queue (procs ?s 3))\<lparr>p_state := RUNNABLE\<rparr>"
    by (simp add: sleeps_on_def NPROC_def)
  from arg_cong [OF this, of p_state] show ?thesis by (simp add: off_queue_def)
qed

end
