(* ===== verification/Net.thy ===== *)
theory Net
  imports Blocks Either_Copy
begin

text \<open>
  Networking: packet buffers, the checksum and the Ethernet, ARP, IP and UDP layers of
  \<^verbatim>\<open>kernel/network/net.c\<close>, the descriptor rings of \<^verbatim>\<open>kernel/network/e1000.c\<close> and the
  sockets of \<^verbatim>\<open>kernel/sysnet.c\<close>. A packet buffer is a page from \<^verbatim>\<open>kalloc\<close>, named by its
  address; \<^verbatim>\<open>m->head\<close> is an offset into \<^verbatim>\<open>m->buf\<close>. The device changes the descriptors
  of the rings between calls. \<open>None\<close> is a panic.
\<close>

section \<open>State\<close>

definition MBUF_SIZE :: u32 where "MBUF_SIZE = 2048"
definition MBUF_DEFAULT_HEADROOM :: u32 where "MBUF_DEFAULT_HEADROOM = 128"
definition ETHTYPE_IP :: u16 where "ETHTYPE_IP = 0x0800"
definition ETHTYPE_ARP :: u16 where "ETHTYPE_ARP = 0x0806"
definition IPPROTO_UDP :: u8 where "IPPROTO_UDP = 17"
definition ARP_HRD_ETHER :: u16 where "ARP_HRD_ETHER = 1"
definition ARP_OP_REQUEST :: u16 where "ARP_OP_REQUEST = 1"
definition ARP_OP_REPLY :: u16 where "ARP_OP_REPLY = 2"
definition TX_RING_SIZE :: u32 where "TX_RING_SIZE = 16"
definition RX_RING_SIZE :: u32 where "RX_RING_SIZE = 16"
definition local_ip :: u32 where "local_ip = 0x0A00020F"
definition local_mac :: "u8 list" where "local_mac = [0x52, 0x54, 0, 0x12, 0x34, 0x56]"
definition broadcast_mac :: "u8 list" where "broadcast_mac = replicate 6 0xFF"

record mbuf =
  m_next :: u64
  m_head :: int
  m_len :: u32
  m_buf :: block

record mbufq =
  q_head :: u64
  q_tail :: u64

record sock =
  sk_addr :: u64
  sk_raddr :: u32
  sk_lport :: u16
  sk_rport :: u16
  sk_rxq :: mbufq
  sk_sleep :: bool

text \<open>A descriptor: which buffer and where in it, the length, and the done bit of its status.\<close>

record desc =
  d_mbuf :: u64
  d_off :: int
  d_length :: u16
  d_done :: bool

record netst =
  n_mem :: kmem
  n_mbufs :: "u64 \<Rightarrow> mbuf"
  n_tdt :: u32
  n_tx :: "nat \<Rightarrow> desc"
  n_txm :: "nat \<Rightarrow> u64"
  n_rdt :: u32
  n_rx :: "nat \<Rightarrow> desc"
  n_rxm :: "nat \<Rightarrow> u64"
  n_socks :: "sock list"

definition set_mbuf :: "u64 \<Rightarrow> mbuf \<Rightarrow> netst \<Rightarrow> netst" where
  "set_mbuf a m s = s\<lparr>n_mbufs := (n_mbufs s)(a := m)\<rparr>"

section \<open>Packet buffers\<close>

text \<open>Each returns the offset that the C function returns as a pointer.\<close>

definition mbufpull :: "u32 \<Rightarrow> mbuf \<Rightarrow> int option \<times> mbuf" where
  "mbufpull len m =
     (if m_len m < len then (None, m)
      else (Some (m_head m), m\<lparr>m_len := m_len m - len, m_head := m_head m + uint len\<rparr>))"

definition mbufpush :: "u32 \<Rightarrow> mbuf \<Rightarrow> (int \<times> mbuf) option" where
  "mbufpush len m =
     (let h = m_head m - uint len
      in if h < 0 then None else Some (h, m\<lparr>m_head := h, m_len := m_len m + len\<rparr>))"

definition mbufput :: "u32 \<Rightarrow> mbuf \<Rightarrow> (int \<times> mbuf) option" where
  "mbufput len m =
     (let tmp = m_head m + uint (m_len m); n = m_len m + len
      in if n > MBUF_SIZE then None else Some (tmp, m\<lparr>m_len := n\<rparr>))"

definition mbuftrim :: "u32 \<Rightarrow> mbuf \<Rightarrow> int option \<times> mbuf" where
  "mbuftrim len m =
     (if len > m_len m then (None, m)
      else (Some (m_head m + uint (m_len m - len)), m\<lparr>m_len := m_len m - len\<rparr>))"

definition mbufalloc :: "u32 \<Rightarrow> netst \<Rightarrow> u64 \<times> netst" where
  "mbufalloc headroom s =
     (if headroom > MBUF_SIZE then (0, s)
      else
        let (a, km) = kalloc (n_mem s); s = s\<lparr>n_mem := km\<rparr>
        in if a = 0 then (0, s)
           else (a, set_mbuf a \<lparr>m_next = 0, m_head = uint headroom, m_len = 0,
                               m_buf = (\<lambda>i. if i < 2048 then 0 else m_buf (n_mbufs s a) i)\<rparr> s))"

definition mbuffree :: "u64 \<Rightarrow> netst \<Rightarrow> netst option" where
  "mbuffree a s = map_option (\<lambda>km. s\<lparr>n_mem := km\<rparr>) (kfree a (n_mem s))"

text \<open>Queues of buffers, linked through \<^verbatim>\<open>m->next\<close>.\<close>

type_synonym links = "u64 \<Rightarrow> mbuf"

definition mbufq_pushtail :: "u64 \<Rightarrow> mbufq \<times> links \<Rightarrow> mbufq \<times> links" where
  "mbufq_pushtail a = (\<lambda>(q, h).
     (let h = h(a := (h a)\<lparr>m_next := 0\<rparr>)
      in if q_head q = 0 then (\<lparr>q_head = a, q_tail = a\<rparr>, h)
         else (q\<lparr>q_tail := a\<rparr>, h(q_tail q := (h (q_tail q))\<lparr>m_next := a\<rparr>))))"

definition mbufq_pophead :: "mbufq \<times> links \<Rightarrow> u64 \<times> mbufq" where
  "mbufq_pophead = (\<lambda>(q, h). if q_head q = 0 then (0, q) else (q_head q, q\<lparr>q_head := m_next (h (q_head q))\<rparr>))"

definition mbufq_empty :: "mbufq \<Rightarrow> bool" where
  "mbufq_empty q \<longleftrightarrow> q_head q = 0"

definition mbufq_init :: "mbufq \<Rightarrow> mbufq" where
  "mbufq_init q = q\<lparr>q_head := 0\<rparr>"

section \<open>Byte order and checksum\<close>

definition bswaps :: "u16 \<Rightarrow> u16" where
  "bswaps v = push_bit 8 (v AND 0x00ff) OR drop_bit 8 (v AND 0xff00)"

definition bswapl :: "u32 \<Rightarrow> u32" where
  "bswapl v = push_bit 24 (v AND 0x000000ff) OR push_bit 8 (v AND 0x0000ff00) OR
     drop_bit 8 (v AND 0x00ff0000) OR drop_bit 24 (v AND 0xff000000)"

text \<open>The sum over the 16-bit words of the buffer as they lie in memory, and the final folding.\<close>

fun cksum_words :: "u8 list \<Rightarrow> u32 \<Rightarrow> u32" where
  "cksum_words (a # b # bs) acc = cksum_words bs (acc + (ucast a OR push_bit 8 (ucast b)))"
| "cksum_words [a] acc = acc + ucast a"
| "cksum_words [] acc = acc"

definition cksum_fold :: "u32 \<Rightarrow> u16" where
  "cksum_fold x =
     (let y = (x AND 0xffff) + drop_bit 16 x;
          z = y + drop_bit 16 y
      in ucast z)"

definition in_cksum :: "u8 list \<Rightarrow> u16" where
  "in_cksum bs = NOT (cksum_fold (cksum_words bs 0))"

section \<open>The device\<close>

definition e1000_transmit :: "u64 \<Rightarrow> netst \<Rightarrow> (int \<times> netst) option" where
  "e1000_transmit a s =
     (let ind = unat (n_tdt s)
      in if \<not> d_done (n_tx s ind) then Some (- 1, s)
         else
           (case (if n_txm s ind \<noteq> 0
                  then map_option (\<lambda>s. s\<lparr>n_txm := (n_txm s)(ind := 0)\<rparr>) (mbuffree (n_txm s ind) s)
                  else Some s) of
              None \<Rightarrow> None
            | Some s \<Rightarrow>
                Some (0, s\<lparr>n_tx := (n_tx s)(ind := (n_tx s ind)\<lparr>d_mbuf := a, d_off := m_head (n_mbufs s a),
                              d_length := ucast (m_len (n_mbufs s a))\<rparr>),
                           n_txm := (n_txm s)(ind := a),
                           n_tdt := (n_tdt s + 1) mod TX_RING_SIZE\<rparr>)))"

section \<open>Sending\<close>

definition eth_hdr :: "u16 \<Rightarrow> nat \<Rightarrow> block \<Rightarrow> block" where
  "eth_hdr ethtype h d = put16 (h + 12) (bswaps ethtype) (put_bytes h broadcast_mac (put_bytes (h + 6) local_mac d))"

definition net_tx_eth :: "u64 \<Rightarrow> u16 \<Rightarrow> netst \<Rightarrow> netst option" where
  "net_tx_eth a ethtype s = do {
     (h, m) \<leftarrow> mbufpush 14 (n_mbufs s a);
     (r, s) \<leftarrow> e1000_transmit a (set_mbuf a (m\<lparr>m_buf := eth_hdr ethtype (nat h) (m_buf m)\<rparr>) s);
     if r \<noteq> 0 then mbuffree a s else Some s
   }"

definition ip_hdr :: "u8 \<Rightarrow> u32 \<Rightarrow> u16 \<Rightarrow> nat \<Rightarrow> block \<Rightarrow> block" where
  "ip_hdr proto dip len h d =
     (let d = put_bytes h (replicate 20 0) d;
          d = d(h := 0x45);
          d = d(h + 9 := proto);
          d = put32 (h + 12) (bswapl local_ip) d;
          d = put32 (h + 16) (bswapl dip) d;
          d = put16 (h + 2) (bswaps len) d;
          d = d(h + 8 := 100)
      in put16 (h + 10) (in_cksum (get_bytes h 20 d)) d)"

definition net_tx_ip :: "u64 \<Rightarrow> u8 \<Rightarrow> u32 \<Rightarrow> netst \<Rightarrow> netst option" where
  "net_tx_ip a proto dip s = do {
     (h, m) \<leftarrow> mbufpush 20 (n_mbufs s a);
     net_tx_eth a ETHTYPE_IP (set_mbuf a (m\<lparr>m_buf := ip_hdr proto dip (ucast (m_len m)) (nat h) (m_buf m)\<rparr>) s)
   }"

definition udp_hdr :: "u16 \<Rightarrow> u16 \<Rightarrow> u16 \<Rightarrow> nat \<Rightarrow> block \<Rightarrow> block" where
  "udp_hdr sport dport ulen h d =
     put16 (h + 6) 0 (put16 (h + 4) (bswaps ulen) (put16 (h + 2) (bswaps dport) (put16 h (bswaps sport) d)))"

definition net_tx_udp :: "u64 \<Rightarrow> u32 \<Rightarrow> u16 \<Rightarrow> u16 \<Rightarrow> netst \<Rightarrow> netst option" where
  "net_tx_udp a dip sport dport s = do {
     (h, m) \<leftarrow> mbufpush 8 (n_mbufs s a);
     net_tx_ip a IPPROTO_UDP dip (set_mbuf a (m\<lparr>m_buf := udp_hdr sport dport (ucast (m_len m)) (nat h) (m_buf m)\<rparr>) s)
   }"

definition arp_hdr :: "u16 \<Rightarrow> u8 list \<Rightarrow> u32 \<Rightarrow> nat \<Rightarrow> block \<Rightarrow> block" where
  "arp_hdr op dmac dip h d =
     (let d = put16 h (bswaps ARP_HRD_ETHER) d;
          d = put16 (h + 2) (bswaps ETHTYPE_IP) d;
          d = d(h + 4 := 6, h + 5 := 4);
          d = put16 (h + 6) (bswaps op) d;
          d = put_bytes (h + 8) local_mac d;
          d = put32 (h + 14) (bswapl local_ip) d;
          d = put_bytes (h + 18) dmac d
      in put32 (h + 24) (bswapl dip) d)"

definition net_tx_arp :: "u16 \<Rightarrow> u8 list \<Rightarrow> u32 \<Rightarrow> netst \<Rightarrow> (int \<times> netst) option" where
  "net_tx_arp op dmac dip s =
     (let (a, s) = mbufalloc MBUF_DEFAULT_HEADROOM s
      in if a = 0 then Some (- 1, s)
         else do {
           (h, m) \<leftarrow> mbufput 28 (n_mbufs s a);
           s \<leftarrow> net_tx_eth a ETHTYPE_ARP (set_mbuf a (m\<lparr>m_buf := arp_hdr op dmac dip (nat h) (m_buf m)\<rparr>) s);
           Some (0, s)
         })"

section \<open>Sockets and receiving\<close>

definition sock_is :: "u32 \<Rightarrow> u16 \<Rightarrow> u16 \<Rightarrow> sock \<Rightarrow> bool" where
  "sock_is raddr lport rport si \<longleftrightarrow> sk_raddr si = raddr \<and> sk_lport si = lport \<and> sk_rport si = rport"

text \<open>Replaces the first socket of the list that satisfies the test.\<close>

fun upd_first :: "(sock \<Rightarrow> bool) \<Rightarrow> (sock \<Rightarrow> sock) \<Rightarrow> sock list \<Rightarrow> sock list" where
  "upd_first P f [] = []"
| "upd_first P f (x # xs) = (if P x then f x # xs else x # upd_first P f xs)"

definition sockrecvudp :: "u64 \<Rightarrow> u32 \<Rightarrow> u16 \<Rightarrow> u16 \<Rightarrow> netst \<Rightarrow> netst option" where
  "sockrecvudp a raddr lport rport s =
     (case find (sock_is raddr lport rport) (n_socks s) of
        None \<Rightarrow> mbuffree a s
      | Some si \<Rightarrow>
          let (q, h) = mbufq_pushtail a (sk_rxq si, n_mbufs s)
          in Some (s\<lparr>n_mbufs := h,
                     n_socks := upd_first (sock_is raddr lport rport) (\<lambda>x. x\<lparr>sk_rxq := q, sk_sleep := False\<rparr>) (n_socks s)\<rparr>))"

definition net_rx_arp :: "u64 \<Rightarrow> netst \<Rightarrow> netst option" where
  "net_rx_arp a s =
     (case mbufpull 28 (n_mbufs s a) of
        (None, m) \<Rightarrow> mbuffree a s
      | (Some ho, m) \<Rightarrow>
          let s = set_mbuf a m s; d = m_buf m; h = nat ho
          in if bswaps (get16 h d) \<noteq> ARP_HRD_ETHER \<or> bswaps (get16 (h + 2) d) \<noteq> ETHTYPE_IP \<or> d (h + 4) \<noteq> 6 \<or> d (h + 5) \<noteq> 4
             then mbuffree a s
             else if bswaps (get16 (h + 6) d) \<noteq> ARP_OP_REQUEST \<or> bswapl (get32 (h + 24) d) \<noteq> local_ip then mbuffree a s
             else do {
               (r, s) \<leftarrow> net_tx_arp ARP_OP_REPLY (get_bytes (h + 8) 6 d) (bswapl (get32 (h + 14) d)) s;
               mbuffree a s
             })"

text \<open>\<open>iph\<close> is the offset of the IP header in the same buffer.\<close>

definition net_rx_udp :: "u64 \<Rightarrow> u16 \<Rightarrow> nat \<Rightarrow> netst \<Rightarrow> netst option" where
  "net_rx_udp a len iph s =
     (case mbufpull 8 (n_mbufs s a) of
        (None, m) \<Rightarrow> mbuffree a s
      | (Some ho, m) \<Rightarrow>
          let s = set_mbuf a m s; d = m_buf m; h = nat ho
          in if bswaps (get16 (h + 4) d) \<noteq> len then mbuffree a s
             else
               let len = len - 8
               in if ucast len > m_len m then mbuffree a s
                  else
                    let m = snd (mbuftrim (m_len m - ucast len) m)
                    in sockrecvudp a (bswapl (get32 (iph + 12) d)) (bswaps (get16 (h + 2) d)) (bswaps (get16 h d)) (set_mbuf a m s))"

definition net_rx_ip :: "u64 \<Rightarrow> netst \<Rightarrow> netst option" where
  "net_rx_ip a s =
     (case mbufpull 20 (n_mbufs s a) of
        (None, m) \<Rightarrow> mbuffree a s
      | (Some ho, m) \<Rightarrow>
          let s = set_mbuf a m s; d = m_buf m; h = nat ho
          in if d h \<noteq> 0x45 then mbuffree a s
             else if in_cksum (get_bytes h 20 d) \<noteq> 0 then mbuffree a s
             else if bswaps (get16 (h + 6) d) \<noteq> 0 then mbuffree a s
             else if bswapl (get32 (h + 16) d) \<noteq> local_ip then mbuffree a s
             else if d (h + 9) \<noteq> IPPROTO_UDP then mbuffree a s
             else net_rx_udp a (bswaps (get16 (h + 2) d) - 20) h s)"

definition net_rx :: "u64 \<Rightarrow> netst \<Rightarrow> netst option" where
  "net_rx a s =
     (case mbufpull 14 (n_mbufs s a) of
        (None, m) \<Rightarrow> mbuffree a s
      | (Some ho, m) \<Rightarrow>
          let s = set_mbuf a m s; ty = bswaps (get16 (nat ho + 12) (m_buf m))
          in if ty = ETHTYPE_IP then net_rx_ip a s
             else if ty = ETHTYPE_ARP then net_rx_arp a s
             else mbuffree a s)"

definition upd_sock :: "u64 \<Rightarrow> (sock \<Rightarrow> sock) \<Rightarrow> netst \<Rightarrow> netst" where
  "upd_sock si f s = s\<lparr>n_socks := map (\<lambda>x. if sk_addr x = si then f x else x) (n_socks s)\<rparr>"

definition sock_at :: "u64 \<Rightarrow> netst \<Rightarrow> sock option" where
  "sock_at si s = find (\<lambda>x. sk_addr x = si) (n_socks s)"

text \<open>
  \<^verbatim>\<open>sockread\<close> sleeps, which is \<open>Inl\<close>, or returns. Only the socket with address
  \<open>si\<close> is touched; a socket that is not in the list is a dangling pointer, \<open>None\<close>.
\<close>

definition sockread :: "bool \<Rightarrow> u64 \<Rightarrow> u64 \<Rightarrow> u64 \<Rightarrow> int \<Rightarrow> netst \<Rightarrow> (netst + int \<times> netst) option" where
  "sockread killed pagetable si addr n s =
     (case sock_at si s of
        None \<Rightarrow> None
      | Some k \<Rightarrow>
          if mbufq_empty (sk_rxq k) \<and> \<not> killed then Some (Inl (upd_sock si (\<lambda>x. x\<lparr>sk_sleep := True\<rparr>) s))
          else if killed then Some (Inr (- 1, s))
          else
            let (a, q) = mbufq_pophead (sk_rxq k, n_mbufs s);
                s = upd_sock si (\<lambda>x. x\<lparr>sk_rxq := q\<rparr>) s;
                m = n_mbufs s a;
                len = (if sint (m_len m) > n then n else sint (m_len m))
            in do {
              (r, km) \<leftarrow> copyout pagetable addr (get_bytes (nat (m_head m)) (unat (of_int len :: u64)) (m_buf m)) (n_mem s);
              s \<leftarrow> mbuffree a (s\<lparr>n_mem := km\<rparr>);
              Some (Inr (if r = - 1 then (- 1, s) else (len, s)))
            })"

definition sockwrite :: "u64 \<Rightarrow> u64 \<Rightarrow> u64 \<Rightarrow> int \<Rightarrow> netst \<Rightarrow> (int \<times> netst) option" where
  "sockwrite pagetable si addr n s =
     (let (a, s) = mbufalloc MBUF_DEFAULT_HEADROOM s
      in if a = 0 then Some (- 1, s)
         else do {
           (h, m) \<leftarrow> mbufput (of_int n) (n_mbufs s a);
           r \<leftarrow> copyin pagetable addr (unat (of_int n :: u64)) (n_mem s);
           k \<leftarrow> sock_at si s;
           (case r of
              Inl e \<Rightarrow> map_option (Pair (- 1)) (mbuffree a s)
            | Inr bs \<Rightarrow>
                map_option (Pair n)
                  (net_tx_udp a (sk_raddr k) (sk_lport k) (sk_rport k) (set_mbuf a (m\<lparr>m_buf := put_bytes (nat h) bs (m_buf m)\<rparr>) s)))
         })"

text \<open>\<^verbatim>\<open>sockclose\<close> frees the queued buffers; the loop ends because each turn shortens the chain.\<close>

partial_function (option) free_chain :: "u64 \<Rightarrow> netst \<Rightarrow> netst option" where
  "free_chain a s =
     (if a = 0 then Some s
      else (case mbuffree a s of None \<Rightarrow> None | Some t \<Rightarrow> free_chain (m_next (n_mbufs s a)) t))"

fun remove_first :: "u64 \<Rightarrow> sock list \<Rightarrow> sock list" where
  "remove_first si [] = []"
| "remove_first si (x # xs) = (if sk_addr x = si then xs else x # remove_first si xs)"

definition sockclose :: "u64 \<Rightarrow> netst \<Rightarrow> netst option" where
  "sockclose si s =
     (case sock_at si s of
        None \<Rightarrow> None
      | Some k \<Rightarrow> do {
          s \<leftarrow> free_chain (q_head (sk_rxq k)) (s\<lparr>n_socks := remove_first si (n_socks s)\<rparr>);
          km \<leftarrow> kfree si (n_mem s);
          Some (s\<lparr>n_mem := km\<rparr>)
        })"

text \<open>The receive loop: a packet whose replacement buffer cannot be allocated faults.\<close>

definition rx_ind :: "netst \<Rightarrow> nat" where
  "rx_ind s = unat ((n_rdt s + 1) mod RX_RING_SIZE)"

definition e1000_recv_one :: "netst \<Rightarrow> netst option" where
  "e1000_recv_one s =
     (let ind = rx_ind s; a = n_rxm s ind
      in (case net_rx a (set_mbuf a ((n_mbufs s a)\<lparr>m_len := ucast (d_length (n_rx s ind))\<rparr>) s) of
            None \<Rightarrow> None
          | Some s \<Rightarrow>
              let (b, s) = mbufalloc 0 s
              in if b = 0 then None
                 else Some (s\<lparr>n_rxm := (n_rxm s)(ind := b),
                        n_rx := (n_rx s)(ind := (n_rx s ind)\<lparr>d_mbuf := b, d_off := m_head (n_mbufs s b), d_done := False\<rparr>),
                        n_rdt := of_nat ind\<rparr>)))"

partial_function (option) e1000_recv_from :: "nat \<Rightarrow> netst \<Rightarrow> netst option" where
  "e1000_recv_from ind s =
     (if \<not> d_done (n_rx s ind) then Some s
      else (case e1000_recv_one s of None \<Rightarrow> None | Some t \<Rightarrow> e1000_recv_from (rx_ind t) t))"

definition e1000_recv :: "netst \<Rightarrow> netst option" where
  "e1000_recv s = e1000_recv_from (rx_ind s) s"

section \<open>Buffers\<close>

lemma mbufpush_pull:
  assumes "mbufpush len m = Some (h, m')" and "unat (m_len m) + unat len < 2 ^ 32"
  shows "mbufpull len m' = (Some h, m)"
proof -
  have "\<not> m_len m + len < len" using assms(2) by (simp add: word_less_nat_alt unat_plus_if')
  then show ?thesis using assms(1) by (auto simp: mbufpush_def mbufpull_def Let_def split: if_splits)
qed

section \<open>The buffer queue\<close>

text \<open>The queue holds the list \<open>as\<close> of buffer addresses.\<close>

fun mchain :: "links \<Rightarrow> u64 \<Rightarrow> u64 list \<Rightarrow> bool" where
  "mchain h p [] = (p = 0)"
| "mchain h p (a # as) = (p = a \<and> a \<noteq> 0 \<and> mchain h (m_next (h a)) as)"

definition queue_of :: "mbufq \<times> links \<Rightarrow> u64 list \<Rightarrow> bool" where
  "queue_of qh as \<longleftrightarrow> mchain (snd qh) (q_head (fst qh)) as \<and> distinct as \<and> (as \<noteq> [] \<longrightarrow> q_tail (fst qh) = last as)"

lemma mchain_frame: "(\<And>a. a \<in> set as \<Longrightarrow> m_next (h' a) = m_next (h a)) \<Longrightarrow> mchain h' p as = mchain h p as"
  by (induction as arbitrary: p) auto

lemma mchain_snoc: "mchain h p (as @ [a]) \<longleftrightarrow> a \<noteq> 0 \<and> m_next (h a) = 0 \<and>
    (if as = [] then p = a else mchain (h(last as := (h (last as))\<lparr>m_next := 0\<rparr>)) p as \<and> m_next (h (last as)) = a)"
  if "distinct (as @ [a])"
  using that
proof (induction as arbitrary: p)
  case (Cons b as)
  show ?case
  proof (cases "as = []")
    case False
    then have "b \<noteq> last as" using Cons(2) by auto
    then show ?thesis using Cons False by auto
  qed auto
qed auto

text \<open>
  The queue of packets waiting at a socket is a FIFO queue: \<^verbatim>\<open>mbufq_pushtail\<close> appends a
  buffer, \<^verbatim>\<open>mbufq_pophead\<close> removes and returns the oldest, and \<^verbatim>\<open>mbufq_empty\<close> tells
  whether there is one.
\<close>

lemma mbufq_fifo:
  assumes q: "queue_of (q, h) as" and a: "a \<noteq> 0" "a \<notin> set as"
  shows "queue_of (mbufq_pushtail a (q, h)) (as @ [a]) \<and> (mbufq_empty q \<longleftrightarrow> as = []) \<and>
    (case as of
       [] \<Rightarrow> mbufq_pophead (q, h) = (0, q)
     | b # bs \<Rightarrow> fst (mbufq_pophead (q, h)) = b \<and> queue_of (snd (mbufq_pophead (q, h)), h) bs)"
proof -
  have e: "mbufq_empty q \<longleftrightarrow> as = []" using q by (cases as) (auto simp: queue_of_def mbufq_empty_def)
  have "queue_of (mbufq_pushtail a (q, h)) (as @ [a])"
  proof (cases "as = []")
    case True
    then show ?thesis using q a by (auto simp: queue_of_def mbufq_pushtail_def Let_def)
  next
    case False
    let ?h = "h(a := (h a)\<lparr>m_next := 0\<rparr>)" let ?h' = "?h(last as := (?h (last as))\<lparr>m_next := a\<rparr>)"
    have nz: "q_head q \<noteq> 0" using e False by (simp add: mbufq_empty_def)
    have l: "last as \<in> set as" "last as \<noteq> a" using False a by auto
    have lst: "m_next (h (last as)) = 0" "mchain h (q_head q) as"
    proof -
      show m: "mchain h (q_head q) as" using q by (simp add: queue_of_def)
      have "distinct (butlast as @ [last as])" "mchain h (q_head q) (butlast as @ [last as])"
        using q False by (simp_all add: queue_of_def)
      then show "m_next (h (last as)) = 0" using mchain_snoc by blast
    qed
    have "mchain (?h'(last as := (?h' (last as))\<lparr>m_next := 0\<rparr>)) (q_head q) as"
      using lst l a by (subst mchain_frame [of as _ h]) auto
    then have "mchain ?h' (q_head q) (as @ [a])"
      using q a l False by (subst mchain_snoc) (auto simp: queue_of_def)
    then show ?thesis using q nz False a by (auto simp: queue_of_def mbufq_pushtail_def Let_def)
  qed
  then show ?thesis using e q by (cases as) (auto simp: queue_of_def mbufq_pophead_def)
qed

section \<open>The checksum\<close>

fun word_sum :: "u8 list \<Rightarrow> nat" where
  "word_sum (a # b # bs) = unat a + 256 * unat b + word_sum bs"
| "word_sum [a] = unat a"
| "word_sum [] = 0"

lemma le16_unat: "unat (ucast (a :: u8) OR push_bit 8 (ucast b) :: u32) = unat a + 256 * unat (b :: u8)"
proof -
  have d: "ucast a AND push_bit 8 (ucast b) = (0 :: u32)"
    by (rule bit_word_eqI) (auto simp: bit_simps dest: bit_imp_le_length)
  have u: "unat (ucast a :: u32) = unat a" "unat (ucast b :: u32) = unat b"
    using unat_u8_less [of a] unat_u8_less [of b] by (simp_all add: unsigned_ucast_eq take_bit_nat_eq_self)
  have p: "unat (push_bit 8 (ucast b) :: u32) = 256 * unat b"
    using unat_u8_less [of b] by (simp only: unsigned_push_bit_eq u) (simp add: push_bit_eq_mult take_bit_nat_eq_self)
  have "ucast a OR push_bit 8 (ucast b) = (ucast a + push_bit 8 (ucast b) :: u32)"
    using d disjunctive_add_eq_or [of "ucast a :: u32" "push_bit 8 (ucast b)"] by simp
  then show ?thesis using u p unat_u8_less [of a] unat_u8_less [of b] by (simp add: unat_plus_if')
qed

lemma cksum_words_sum: "unat acc + word_sum bs < 2 ^ 32 \<Longrightarrow> unat (cksum_words bs acc) = unat acc + word_sum bs"
proof (induction bs acc rule: cksum_words.induct)
  case (1 a b bs acc)
  have "unat (acc + (ucast a OR push_bit 8 (ucast b))) = unat acc + (unat a + 256 * unat b)"
    using 1(2) by (simp add: unat_plus_if' le16_unat)
  then show ?case using 1 by simp
next
  case (2 a acc)
  then show ?case using unat_u8_less [of a] by (simp add: unat_plus_if' unsigned_ucast_eq take_bit_nat_eq_self)
qed simp

lemma word_sum_bound: "word_sum bs \<le> 65535 * ((length bs + 1) div 2)"
proof (induction bs rule: word_sum.induct)
  case (1 a b bs)
  then show ?case using unat_u8_less [of a] unat_u8_less [of b] by simp
next
  case (2 a)
  then show ?case using unat_u8_less [of a] by simp
qed simp

lemma word_sum_append: "even (length xs) \<Longrightarrow> word_sum (xs @ ys) = word_sum xs + word_sum ys"
  by (induction xs rule: word_sum.induct) auto

text \<open>Folding computes the residue modulo \<open>65535\<close>, with \<open>65535\<close> for a positive multiple.\<close>

lemma cksum_fold_mod: "unat (cksum_fold x) = (if unat x = 0 then 0 else (unat x - 1) mod 65535 + 1)"
proof -
  define l where "l = unat x mod 65536" define h where "h = unat x div 65536"
  have x: "unat x = 65536 * h + l" by (simp add: l_def h_def)
  have b: "l < 65536" "h < 65536" using unat_u32_less [of x] by (simp_all add: l_def h_def less_mult_imp_div_less)
  have "x AND 0xffff = take_bit 16 x" by (simp add: take_bit_eq_mask mask_eq_exp_minus_1)
  then have lo: "unat (x AND 0xffff) = l" by (simp only: l_def unsigned_take_bit_eq) (simp add: take_bit_eq_mod)
  have hi: "unat (drop_bit 16 x) = h" using unat_u32_less [of x] by (simp only: h_def unsigned_drop_bit_eq) (simp add: drop_bit_eq_div take_bit_nat_eq_self)
  define y where "y = (x AND 0xffff) + drop_bit 16 x"
  have y: "unat y = l + h" using lo hi b by (simp add: y_def unat_plus_if')
  have "unat (drop_bit 16 y) = (l + h) div 65536" using b by (simp only: unsigned_drop_bit_eq y) (simp add: drop_bit_eq_div take_bit_nat_eq_self)
  moreover have "(l + h) div 65536 \<le> l + h" by simp
  then have "l + h + (l + h) div 65536 < 4294967296" using b by linarith
  ultimately have z: "unat (y + drop_bit 16 y) = l + h + (l + h) div 65536" using y by (simp add: unat_plus_if')
  have "unat (cksum_fold x) = (l + h + (l + h) div 65536) mod 65536"
    by (simp add: cksum_fold_def Let_def flip: y_def) (simp add: unsigned_ucast_eq z take_bit_eq_mod)
  also have "\<dots> = (if unat x = 0 then 0 else (unat x - 1) mod 65535 + 1)"
  proof (cases "l + h < 65536")
    case True
    have "(l + h - 1) mod 65535 = (65536 * h + l - 1) mod 65535" if "l + h > 0"
    proof -
      have "65536 * h + l - 1 = (l + h - 1) + 65535 * h" using that by simp
      then show ?thesis by (simp only: mod_mult_self2)
    qed
    then show ?thesis using True by (auto simp: x)
  next
    case False
    then have d: "(l + h) div 65536 = 1" using b by (intro div_nat_eqI) auto
    have "65536 * h + l - 1 = (l + h - 65536) + 65535 * (h + 1)" using False by simp
    then have "(65536 * h + l - 1) mod 65535 = (l + h - 65536) mod 65535" by (simp only: mod_mult_self2)
    moreover have "l + h - 65536 < 65535" using b by simp
    moreover have "Suc (l + h) mod 65536 = Suc (l + h - 65536)"
      using False b by (simp add: le_mod_geq Suc_diff_le)
    ultimately show ?thesis using False b d by (simp add: x)
  qed
  finally show ?thesis .
qed

lemma unat_not16: "unat (NOT x :: u16) = 65535 - unat x"
proof -
  have "NOT x = 65535 - x" by (simp add: not_eq_complement)
  moreover have "x \<le> 65535" using unat_u16_less [of x] by (simp add: word_le_nat_alt)
  ultimately show ?thesis by (simp add: unat_sub)
qed

text \<open>
  The Internet checksum validates: if the checksum of a header, computed with zero in the
  checksum field, is stored in that field, then the checksum of the header is zero, which is
  the test the receiver makes. This holds for a field at any even offset and for every header of
  at most \<open>2^17\<close> bytes, for which the 32-bit sum does not overflow.
\<close>

lemma in_cksum_validates:
  assumes "even (length xs)" and "length xs + length ys \<le> 2 ^ 17 - 2"
    and c: "c = in_cksum (xs @ [0, 0] @ ys)"
  shows "in_cksum (xs @ [ucast c, ucast (drop_bit 8 c)] @ ys) = 0"
proof -
  let ?S = "word_sum xs + word_sum ys"
  let ?b = "xs @ [ucast c, ucast (drop_bit 8 c)] @ ys"
  have s0: "word_sum (xs @ [0, 0] @ ys) = ?S" using assms(1) by (simp add: word_sum_append)
  have l: "length (xs @ [0 :: u8, 0] @ ys) \<le> 131072" using assms(2) by simp
  then have "(length (xs @ [0 :: u8, 0] @ ys) + 1) div 2 \<le> 65536" by simp
  then have S: "?S \<le> 65535 * 65536" using word_sum_bound [of "xs @ [0, 0] @ ys"] s0 by simp
  have f: "unat (cksum_words (xs @ [0, 0] @ ys) 0) = ?S"
    using cksum_words_sum [of 0 "xs @ [0, 0] @ ys"] s0 S by simp
  have c': "unat c = 65535 - (if ?S = 0 then 0 else (?S - 1) mod 65535 + 1)"
    unfolding c in_cksum_def unat_not16 cksum_fold_mod f ..
  have cs: "unat (ucast c :: u8) + 256 * unat (ucast (drop_bit 8 c) :: u8) = unat c"
    using unat_u16_less [of c] mult_div_mod_eq [of 256 "unat c"]
    by (simp only: unsigned_ucast_eq unsigned_drop_bit_eq) (simp add: drop_bit_eq_div take_bit_eq_mod less_mult_imp_div_less)
  have s1: "word_sum ?b = ?S + unat c" using assms(1) cs by (simp add: word_sum_append)
  have "?S + unat c < 2 ^ 32" using S unat_u16_less [of c] by simp
  then have g: "unat (cksum_words ?b 0) = ?S + unat c" using cksum_words_sum [of 0 ?b] s1 by simp
  have "(if ?S + unat c = 0 then 0 else (?S + unat c - 1) mod 65535 + 1) = 65535"
  proof (cases "?S = 0")
    case False
    let ?k = "(?S - 1) div 65535"
    have "?S = 65535 * ?k + (?S - 1) mod 65535 + 1" using False mult_div_mod_eq [of 65535 "?S - 1"] by linarith
    moreover have "(?S - 1) mod 65535 < 65535" by simp
    moreover have "unat c = 65535 - ((?S - 1) mod 65535 + 1)" using c' False by (simp only: if_False)
    ultimately have "?S + unat c - 1 = 65534 + 65535 * ?k" by linarith
    moreover have "(65534 + 65535 * ?k) mod 65535 = 65534" by (simp only: mod_mult_self2) simp
    ultimately show ?thesis using False by auto
  qed (use c' in simp)
  then have "unat (in_cksum ?b) = 0" unfolding in_cksum_def unat_not16 cksum_fold_mod g by simp
  then show ?thesis by (simp only: unat_eq_0)
qed

section \<open>A datagram arrives\<close>

lemma bswaps_bswaps [simp]: "bswaps (bswaps v) = v"
proof -
  have m: "0x00ff = (mask 8 :: u16)" "0xff00 = (push_bit 8 (mask 8) :: u16)" by (simp_all add: mask_eq_exp_minus_1 push_bit_eq_mult)
  show ?thesis unfolding bswaps_def m
    by (rule bit_word_eqI) (auto simp: bit_simps)
qed

lemma bswapl_bswapl [simp]: "bswapl (bswapl v) = v"
proof -
  have m: "0x000000ff = (mask 8 :: u32)" "0x0000ff00 = (push_bit 8 (mask 8) :: u32)"
    "0x00ff0000 = (push_bit 16 (mask 8) :: u32)" "0xff000000 = (push_bit 24 (mask 8) :: u32)"
    by (simp_all add: mask_eq_exp_minus_1 push_bit_eq_mult)
  show ?thesis unfolding bswapl_def m
  proof (rule bit_word_eqI)
    fix n assume n: "n < LENGTH(32)"
    then consider "n < 8" | "8 \<le> n" "n < 16" | "16 \<le> n" "n < 24" | "24 \<le> n" by linarith
    then show "bit (push_bit 24 ((push_bit 24 (v AND mask 8) OR push_bit 8 (v AND push_bit 8 (mask 8)) OR
        drop_bit 8 (v AND push_bit 16 (mask 8)) OR drop_bit 24 (v AND push_bit 24 (mask 8))) AND mask 8) OR
      push_bit 8 ((push_bit 24 (v AND mask 8) OR push_bit 8 (v AND push_bit 8 (mask 8)) OR
        drop_bit 8 (v AND push_bit 16 (mask 8)) OR drop_bit 24 (v AND push_bit 24 (mask 8))) AND push_bit 8 (mask 8)) OR
      drop_bit 8 ((push_bit 24 (v AND mask 8) OR push_bit 8 (v AND push_bit 8 (mask 8)) OR
        drop_bit 8 (v AND push_bit 16 (mask 8)) OR drop_bit 24 (v AND push_bit 24 (mask 8))) AND push_bit 16 (mask 8)) OR
      drop_bit 24 ((push_bit 24 (v AND mask 8) OR push_bit 8 (v AND push_bit 8 (mask 8)) OR
        drop_bit 8 (v AND push_bit 16 (mask 8)) OR drop_bit 24 (v AND push_bit 24 (mask 8))) AND push_bit 24 (mask 8))) n = bit v n"
      using n by cases (auto simp: bit_simps)
  qed
qed

lemmas put_outside = put16_outside put32_outside

lemma get16_same: "d i = d' j \<Longrightarrow> d (i + 1) = d' (j + 1) \<Longrightarrow> get16 i d = get16 j d'"
  by (simp add: get16_def)

lemma get32_same:
  "d i = d' j \<Longrightarrow> d (i + 1) = d' (j + 1) \<Longrightarrow> d (i + 2) = d' (j + 2) \<Longrightarrow> d (i + 3) = d' (j + 3) \<Longrightarrow> get32 i d = get32 j d'"
  by (simp add: get32_def)

lemma eth_hdr_outside: "j < h \<or> h + 14 \<le> j \<Longrightarrow> eth_hdr ty h d j = d j"
  by (auto simp: eth_hdr_def put16_def put_bytes_def broadcast_mac_def local_mac_def)

lemma eth_hdr_type: "get16 (h + 12) (eth_hdr ty h d) = bswaps ty"
  by (simp add: eth_hdr_def)

lemma udp_hdr_outside: "j < h \<or> h + 8 \<le> j \<Longrightarrow> udp_hdr sport dport ulen h d j = d j"
  by (auto simp: udp_hdr_def put16_def)

lemma udp_hdr_fields:
  "get16 h (udp_hdr sport dport ulen h d) = bswaps sport"
  "get16 (h + 2) (udp_hdr sport dport ulen h d) = bswaps dport"
  "get16 (h + 4) (udp_hdr sport dport ulen h d) = bswaps ulen"
  by (simp_all add: udp_hdr_def)

text \<open>The header before its checksum is stored.\<close>

definition ip_hdr0 :: "u8 \<Rightarrow> u32 \<Rightarrow> u16 \<Rightarrow> nat \<Rightarrow> block \<Rightarrow> block" where
  "ip_hdr0 proto dip len h d =
     (put16 (h + 2) (bswaps len) (put32 (h + 16) (bswapl dip) (put32 (h + 12) (bswapl local_ip)
       ((put_bytes h (replicate 20 0) d)(h := 0x45, h + 9 := proto)))))(h + 8 := 100)"

lemma ip_hdr_split: "ip_hdr proto dip len h d = put16 (h + 10) (in_cksum (get_bytes h 20 (ip_hdr0 proto dip len h d))) (ip_hdr0 proto dip len h d)"
  by (simp add: ip_hdr_def ip_hdr0_def Let_def)

lemma get16_upd: "k \<noteq> i \<Longrightarrow> k \<noteq> i + 1 \<Longrightarrow> get16 i (d(k := v)) = get16 i d"
  by (simp add: get16_def)

lemma get32_upd: "k < i \<or> i + 4 \<le> k \<Longrightarrow> get32 i (d(k := v)) = get32 i d"
  by (auto simp: get32_def)

lemma ip_hdr0_fields:
  "ip_hdr0 proto dip len h d h = 0x45"
  "ip_hdr0 proto dip len h d (h + 9) = proto"
  "ip_hdr0 proto dip len h d (h + 10) = 0" "ip_hdr0 proto dip len h d (h + 11) = 0"
  "get16 (h + 2) (ip_hdr0 proto dip len h d) = bswaps len"
  "get16 (h + 6) (ip_hdr0 proto dip len h d) = 0"
  "get32 (h + 12) (ip_hdr0 proto dip len h d) = bswapl local_ip"
  "get32 (h + 16) (ip_hdr0 proto dip len h d) = bswapl dip"
  by (simp_all add: ip_hdr0_def put_outside put_bytes_def get16_upd get32_upd) (simp add: get16_def)

lemma ip_hdr_outside: "j < h \<or> h + 20 \<le> j \<Longrightarrow> ip_hdr proto dip len h d j = d j"
  by (auto simp: ip_hdr_split ip_hdr0_def put16_def put32_def put_bytes_def)

lemma ip_hdr_fields:
  "ip_hdr proto dip len h d h = 0x45"
  "ip_hdr proto dip len h d (h + 9) = proto"
  "get16 (h + 2) (ip_hdr proto dip len h d) = bswaps len"
  "get16 (h + 6) (ip_hdr proto dip len h d) = 0"
  "get32 (h + 12) (ip_hdr proto dip len h d) = bswapl local_ip"
  "get32 (h + 16) (ip_hdr proto dip len h d) = bswapl dip"
  by (simp_all add: ip_hdr_split put_outside ip_hdr0_fields del: add_2_eq_Suc')

lemma get_bytes_split3: "get_bytes h 20 d = get_bytes h 10 d @ [d (h + 10), d (h + 11)] @ get_bytes (h + 12) 8 d"
proof -
  have "[0..<20] = [0..<10] @ [10, 11] @ map (\<lambda>k. k + 12) [0..<8 :: nat]" by (simp add: upt_rec)
  then show ?thesis by (simp add: get_bytes_def ac_simps)
qed

lemma ip_hdr_cksum: "in_cksum (get_bytes h 20 (ip_hdr proto dip len h d)) = 0"
proof -
  let ?d = "ip_hdr0 proto dip len h d" let ?c = "in_cksum (get_bytes h 20 ?d)"
  have z: "get_bytes h 20 ?d = get_bytes h 10 ?d @ [0, 0] @ get_bytes (h + 12) 8 ?d"
    unfolding get_bytes_split3 ip_hdr0_fields ..
  have "get_bytes h 20 (put16 (h + 10) ?c ?d) = get_bytes h 10 ?d @ [ucast ?c, ucast (drop_bit 8 ?c)] @ get_bytes (h + 12) 8 ?d"
    unfolding get_bytes_split3 [of _ "put16 _ _ _"] by (simp add: put16_def get_bytes_def)
  moreover have "in_cksum (get_bytes h 10 ?d @ [ucast ?c, ucast (drop_bit 8 ?c)] @ get_bytes (h + 12) 8 ?d) = 0"
    by (rule in_cksum_validates) (simp, simp, simp only: z)
  ultimately show ?thesis by (simp only: ip_hdr_split)
qed


text \<open>The headers that \<^verbatim>\<open>net_tx_udp\<close> puts in front of a payload of \<open>n\<close> bytes at \<open>h + 42\<close>.\<close>

definition udp_frame :: "u32 \<Rightarrow> u16 \<Rightarrow> u16 \<Rightarrow> u32 \<Rightarrow> nat \<Rightarrow> block \<Rightarrow> block" where
  "udp_frame dip sport dport n h d =
     eth_hdr ETHTYPE_IP h (ip_hdr IPPROTO_UDP dip (ucast (n + 28)) (h + 14) (udp_hdr sport dport (ucast (n + 8)) (h + 34) d))"

text \<open>\<open>same_frame\<close> says that two buffers hold the same \<open>n\<close> bytes, at different places.\<close>

definition same_frame :: "nat \<Rightarrow> nat \<Rightarrow> block \<Rightarrow> nat \<Rightarrow> block \<Rightarrow> bool" where
  "same_frame n i d j d' \<longleftrightarrow> get_bytes i n d = get_bytes j n d'"

lemma same_frame_nth: "same_frame n i d j d' \<Longrightarrow> k < n \<Longrightarrow> d (i + k) = d' (j + k)"
  unfolding same_frame_def get_bytes_def by (auto simp: list_eq_iff_nth_eq)

lemma same_frame_get:
  assumes "same_frame n i d j d'"
  shows "k + 2 \<le> n \<Longrightarrow> get16 (i + k) d = get16 (j + k) d'"
    and "k + 4 \<le> n \<Longrightarrow> get32 (i + k) d = get32 (j + k) d'"
    and "k + l \<le> n \<Longrightarrow> get_bytes (i + k) l d = get_bytes (j + k) l d'"
proof -
  note nth = same_frame_nth [OF assms]
  show "get16 (i + k) d = get16 (j + k) d'" if "k + 2 \<le> n"
    using that nth [of k] nth [of "k + 1"] by (intro get16_same) (simp_all add: ac_simps)
  show "get32 (i + k) d = get32 (j + k) d'" if "k + 4 \<le> n"
    using that nth [of k] nth [of "k + 1"] nth [of "k + 2"] nth [of "k + 3"] by (intro get32_same) (simp_all add: ac_simps)
  show "get_bytes (i + k) l d = get_bytes (j + k) l d'" if "k + l \<le> n"
    using that nth [of "k + _"] by (auto simp: get_bytes_def ac_simps)
qed

lemma udp_frame_fields:
  assumes f_def: "f = udp_frame dip sport dport n h d"
  shows "get16 (h + 12) f = bswaps ETHTYPE_IP" "f (h + 14) = 0x45" "f (h + 23) = IPPROTO_UDP"
    "in_cksum (get_bytes (h + 14) 20 f) = 0" "get16 (h + 16) f = bswaps (ucast (n + 28))" "get16 (h + 20) f = 0"
    "get32 (h + 26) f = bswapl local_ip" "get32 (h + 30) f = bswapl dip"
    "get16 (h + 34) f = bswaps sport" "get16 (h + 36) f = bswaps dport" "get16 (h + 38) f = bswaps (ucast (n + 8))"
    "get_bytes (h + 42) l f = get_bytes (h + 42) l d"
proof -
  let ?u = "udp_hdr sport dport (ucast (n + 8)) (h + 34) d"
  let ?i = "ip_hdr IPPROTO_UDP dip (ucast (n + 28)) (h + 14) ?u"
  note I = ip_hdr_fields [where h = "h + 14" and d = ?u and proto = IPPROTO_UDP and dip = dip and len = "ucast (n + 28)"]
  note U = udp_hdr_fields [where h = "h + 34" and sport = sport and dport = dport and ulen = "ucast (n + 8)" and d = d]
  have fi: "f j = ?i j" if "h + 14 \<le> j" for j using that by (simp add: f_def udp_frame_def eth_hdr_outside)
  have fu: "f j = ?u j" if "h + 34 \<le> j" for j using that fi by (simp add: ip_hdr_outside)
  show "get16 (h + 12) f = bswaps ETHTYPE_IP" by (simp add: f_def udp_frame_def eth_hdr_type)
  show "f (h + 14) = 0x45" "f (h + 23) = IPPROTO_UDP" using I(1,2) fi by (simp_all add: ac_simps)
  have "get_bytes (h + 14) 20 f = get_bytes (h + 14) 20 ?i" by (simp add: get_bytes_def fi)
  then show "in_cksum (get_bytes (h + 14) 20 f) = 0" by (simp only: ip_hdr_cksum)
  have "get16 (h + 16) f = get16 (h + 16) ?i" "get16 (h + 20) f = get16 (h + 20) ?i"
    "get32 (h + 26) f = get32 (h + 26) ?i" "get32 (h + 30) f = get32 (h + 30) ?i"
    by (auto intro!: get16_same get32_same fi)
  then show "get16 (h + 16) f = bswaps (ucast (n + 28))" "get16 (h + 20) f = 0"
    "get32 (h + 26) f = bswapl local_ip" "get32 (h + 30) f = bswapl dip"
    using I(3-6) by (simp_all add: ac_simps)
  have "get16 (h + 34) f = get16 (h + 34) ?u" "get16 (h + 36) f = get16 (h + 36) ?u" "get16 (h + 38) f = get16 (h + 38) ?u"
    by (auto intro!: get16_same fu)
  then show "get16 (h + 34) f = bswaps sport" "get16 (h + 36) f = bswaps dport" "get16 (h + 38) f = bswaps (ucast (n + 8))"
    using U by (simp_all add: ac_simps)
  show "get_bytes (h + 42) l f = get_bytes (h + 42) l d" by (simp add: get_bytes_def fu udp_hdr_outside)
qed

lemma net_tx_udp_frame:
  assumes t: "net_tx_udp a dip sport dport s = Some t" and n: "unat (m_len (n_mbufs s a)) + 42 < 2 ^ 16"
    and dn: "d_done (n_tx s (unat (n_tdt s)))"
  shows "42 \<le> m_head (n_mbufs s a) \<and>
    n_tx t (unat (n_tdt s)) = (n_tx s (unat (n_tdt s)))\<lparr>d_mbuf := a, d_off := m_head (n_mbufs s a) - 42,
      d_length := ucast (m_len (n_mbufs s a) + 42)\<rparr> \<and>
    m_buf (n_mbufs t a) = udp_frame dip sport dport (m_len (n_mbufs s a)) (nat (m_head (n_mbufs s a) - 42)) (m_buf (n_mbufs s a))"
proof -
  define m where "m = n_mbufs s a"
  have h: "42 \<le> m_head m"
    using t by (auto simp: net_tx_udp_def net_tx_ip_def net_tx_eth_def mbufpush_def set_mbuf_def Let_def m_def
        split: if_splits bind_splits)
  define f where "f = udp_frame dip sport dport (m_len m) (nat (m_head m - 42)) (m_buf m)"
  define m' where "m' = m\<lparr>m_head := m_head m - 42, m_len := m_len m + 42, m_buf := f\<rparr>"
  have e: "nat (m_head m - 8) = nat (m_head m - 42) + 34" "nat (m_head m - 28) = nat (m_head m - 42) + 14" using h by auto
  have "net_tx_udp a dip sport dport s = do {
     (r, u) \<leftarrow> e1000_transmit a (set_mbuf a m' s);
     if r \<noteq> 0 then mbuffree a u else Some u }"
    using h by (simp add: net_tx_udp_def net_tx_ip_def net_tx_eth_def mbufpush_def set_mbuf_def Let_def e
        m'_def f_def udp_frame_def add.commute [of 28] add.commute [of 42] flip: m_def)
  then have "n_tx t (unat (n_tdt s)) = (n_tx s (unat (n_tdt s)))\<lparr>d_mbuf := a, d_off := m_head m', d_length := ucast (m_len m')\<rparr> \<and>
      n_mbufs t a = m'"
    using t dn by (auto simp: e1000_transmit_def mbuffree_def set_mbuf_def Let_def split: if_splits option.splits)
  then show ?thesis using h by (simp add: m'_def f_def flip: m_def)
qed

lemma net_rx_udp_frame:
  assumes f: "f = udp_frame local_ip sport dport n h d" and n: "unat n + 42 < 2 ^ 16"
    and b: "0 \<le> m_head (n_mbufs r b)" "m_len (n_mbufs r b) = n + 42"
    and same: "same_frame (unat n + 42) (nat (m_head (n_mbufs r b))) (m_buf (n_mbufs r b)) h f"
  shows "net_rx b r = sockrecvudp b local_ip dport sport
    (set_mbuf b ((n_mbufs r b)\<lparr>m_head := m_head (n_mbufs r b) + 42, m_len := n\<rparr>) r)"
proof -
  define m where "m = n_mbufs r b" define i where "i = nat (m_head m)"
  have mh: "m_head m = int i" "m_len m = n + 42" using b by (simp_all add: i_def m_def)
  note S = same_frame_get [OF same, folded m_def, folded i_def]
  note F = udp_frame_fields [OF f]
  have len: "\<not> n + 42 < 14" "\<not> n + 28 < 20" "\<not> n + 8 < 8" using n by (simp_all add: word_less_nat_alt unat_plus_if')
  have u: "(ucast (n + 28) - 20 :: u16) = ucast (n + 8)" "(ucast (n + 8) - 8 :: u16) = ucast n" "ucast (ucast n :: u16) = n"
    using n by (auto simp: word_unat_eq_iff unsigned_ucast_eq unat_plus_if' unat_sub_if' take_bit_nat_eq_self unsigned_take_bit_eq)
  have R: "get16 (i + 12) (m_buf m) = bswaps ETHTYPE_IP" "m_buf m (i + 14) = 0x45" "m_buf m (i + 23) = IPPROTO_UDP"
    "in_cksum (get_bytes (i + 14) 20 (m_buf m)) = 0" "get16 (i + 16) (m_buf m) = bswaps (ucast (n + 28))"
    "get16 (i + 20) (m_buf m) = 0" "get32 (i + 26) (m_buf m) = bswapl local_ip" "get32 (i + 30) (m_buf m) = bswapl local_ip"
    "get16 (i + 34) (m_buf m) = bswaps sport" "get16 (i + 36) (m_buf m) = bswaps dport"
    "get16 (i + 38) (m_buf m) = bswaps (ucast (n + 8))"
    using F S(1) [of 12] S(1) [of 16] S(1) [of 20] S(1) [of 34] S(1) [of 36] S(1) [of 38] S(2) [of 26] S(2) [of 30]
      S(3) [of 14 20] same_frame_nth [OF same, of 14] same_frame_nth [OF same, of 23]
    by (simp_all add: i_def m_def)
  define j k where "j = i + 14" "k = i + 34"
  define m1 m2 m3 where "m1 = m\<lparr>m_len := n + 28, m_head := int j\<rparr>" "m2 = m\<lparr>m_len := n + 8, m_head := int k\<rparr>"
    "m3 = m\<lparr>m_len := n, m_head := int i + 42\<rparr>"
  have J: "m_buf m j = 0x45" "m_buf m (j + 9) = IPPROTO_UDP" "in_cksum (get_bytes j 20 (m_buf m)) = 0"
    "get16 (j + 2) (m_buf m) = bswaps (ucast (n + 28))" "get16 (j + 6) (m_buf m) = 0"
    "get32 (j + 12) (m_buf m) = bswapl local_ip" "get32 (j + 16) (m_buf m) = bswapl local_ip"
    "get16 k (m_buf m) = bswaps sport" "get16 (k + 2) (m_buf m) = bswaps dport" "get16 (k + 4) (m_buf m) = bswaps (ucast (n + 8))"
    using R by (simp_all only: j_k_def add.assoc) simp_all
  have p: "mbufpull 14 m = (Some (int i), m1)" "mbufpull 20 m1 = (Some (int j), m2)" "mbufpull 8 m2 = (Some (int k), m3)"
    using len mh by (simp_all add: mbufpull_def m1_m2_m3_def j_k_def)
  have mb: "m_buf m1 = m_buf m" "m_buf m2 = m_buf m" "m_buf m3 = m_buf m" "m_len m3 = n" "m3\<lparr>m_len := n\<rparr> = m3" by (simp_all add: m1_m2_m3_def)
  have z: "bswaps 0 = 0" by (simp add: bswaps_def)
  have sm: "n_mbufs (set_mbuf b x r) b = x" "set_mbuf b y (set_mbuf b x r) = set_mbuf b y r" for x y
    by (simp_all add: set_mbuf_def)
  have "net_rx b r = net_rx_ip b (set_mbuf b m1 r)"
    by (simp add: net_rx_def p mb R(1) flip: m_def)
  also have "\<dots> = net_rx_udp b (ucast (n + 8)) j (set_mbuf b m2 r)"
    by (simp add: net_rx_ip_def p sm mb J z u(1) Let_def del: add_2_eq_Suc')
  also have "\<dots> = sockrecvudp b local_ip dport sport (set_mbuf b m3 r)"
    by (simp add: net_rx_udp_def p sm mb J u(2,3) mbuftrim_def Let_def del: add_2_eq_Suc')
  also have "m3 = m\<lparr>m_head := m_head m + 42, m_len := n\<rparr>" by (cases m) (use mh in \<open>simp add: m1_m2_m3_def\<close>)
  finally show ?thesis by (simp add: m_def)
qed


definition hello_mbuf :: mbuf where
  "hello_mbuf = \<lparr>m_next = 0, m_head = 128, m_len = 2, m_buf = (\<lambda>i. if i = 128 then 104 else if i = 129 then 105 else 0)\<rparr>"

definition hello_net :: netst where
  "hello_net = \<lparr>n_mem = \<lparr>mem = (\<lambda>_. 0), freelist = (\<lambda>_. 0), refcnt = (\<lambda>_. 0), kernel_end = 0x80020000, hartid = 0\<rparr>, n_mbufs = (\<lambda>_. hello_mbuf), n_tdt = 3,
     n_tx = (\<lambda>_. \<lparr>d_mbuf = 0, d_off = 0, d_length = 0, d_done = True\<rparr>), n_txm = (\<lambda>_. 0), n_rdt = 15,
     n_rx = (\<lambda>_. \<lparr>d_mbuf = 0, d_off = 0, d_length = 0, d_done = True\<rparr>), n_rxm = (\<lambda>_. 0), n_socks = []\<rparr>"

definition hello_sent :: netst where
  "hello_sent = the (net_tx_udp 4096 local_ip 2000 2001 hello_net)"

lemma hello_sends: "net_tx_udp 4096 local_ip 2000 2001 hello_net = Some hello_sent"
  by (simp add: hello_sent_def net_tx_udp_def net_tx_ip_def net_tx_eth_def mbufpush_def e1000_transmit_def set_mbuf_def
      hello_net_def hello_mbuf_def Let_def)


section \<open>Two defects\<close>

text \<open>
  \<^verbatim>\<open>mbufput\<close> bounds the length of the data but not its end, which the headroom moves: a
  fresh buffer takes \<open>2048\<close> bytes that end \<open>128\<close> bytes behind the array.
\<close>

lemma mbufput_overruns:
  assumes "mbufalloc MBUF_DEFAULT_HEADROOM s = (a, t)" "a \<noteq> 0"
  shows "\<exists>m. mbufput MBUF_SIZE (n_mbufs t a) = Some (128, m) \<and> m_head m + uint (m_len m) = uint MBUF_SIZE + 128"
  using assms by (auto simp: mbufalloc_def mbufput_def MBUF_SIZE_def MBUF_DEFAULT_HEADROOM_def set_mbuf_def Let_def
      split: if_splits prod.splits)

text \<open>
  The done bit of a descriptor is never cleared by \<^verbatim>\<open>e1000_transmit\<close>: a slot that was done
  once is taken for done ever after, so the test for a full ring cannot fail and the buffer of a packet
  that the card has not sent yet is freed.
\<close>

lemma e1000_transmit_keeps_done:
  assumes "e1000_transmit a s = Some (r, t)" "\<forall>i. d_done (n_tx s i)"
  shows "r = 0 \<and> (\<forall>i. d_done (n_tx t i))"
  using assms by (auto simp: e1000_transmit_def mbuffree_def Let_def split: if_splits option.splits)

end
