(* ===== verification/File.thy ===== *)
theory File
  imports Proc Fs_Dir Pipe Net
begin

text \<open>
  Open files, \<^verbatim>\<open>kernel/filesystem/file.c\<close>, with the two operations that create files of
  other kinds, \<^verbatim>\<open>pipealloc\<close> of \<^verbatim>\<open>kernel/proc/pipe.c\<close> and \<^verbatim>\<open>sockalloc\<close>
  of \<^verbatim>\<open>kernel/sysnet.c\<close>. The state puts the parts of the kernel together: the process table,
  physical memory, the file system, the file table, the pipes by the address of their page, and the
  network. \<open>p\<close> is the calling process. An operation that returns gives \<open>Ret\<close> and its
  value; one that goes to sleep gives \<open>Blk\<close>. \<open>None\<close> is a panic, or the wait for a lock or
  for room in the log.
\<close>

section \<open>State\<close>

datatype filetype = FD_NONE | FD_PIPE | FD_INODE | FD_DEVICE | FD_SOCK

record filest =
  f_type :: filetype
  f_ref :: int
  f_readable :: bool
  f_writable :: bool
  f_pipe :: u64
  f_ip :: nat
  f_sock :: u64
  f_off :: u32
  f_major :: int

record kstate = ptable +
  k_mem :: kmem
  k_fs :: fs
  k_file :: "nat \<Rightarrow> filest"
  k_pipe :: "u64 \<Rightarrow> pipe"
  k_net :: netst

datatype 's kres = Ret int 's | Blk 's

text \<open>The driver table \<^verbatim>\<open>devsw\<close>: what reading and writing a device of each major number does.\<close>

type_synonym 's devop = "u64 \<Rightarrow> int \<Rightarrow> 's \<Rightarrow> 's kres option"

record 's devsw =
  dev_read :: "int \<Rightarrow> 's devop option"
  dev_write :: "int \<Rightarrow> 's devop option"

definition upd_file :: "nat \<Rightarrow> (filest \<Rightarrow> filest) \<Rightarrow> 'a kstate_scheme \<Rightarrow> 'a kstate_scheme" where
  "upd_file i f s = s\<lparr>k_file := (k_file s)(i := f (k_file s i))\<rparr>"

definition set_pipe :: "u64 \<Rightarrow> pipe \<Rightarrow> kmem \<Rightarrow> 'a kstate_scheme \<Rightarrow> 'a kstate_scheme" where
  "set_pipe a pi m s = s\<lparr>k_pipe := (k_pipe s)(a := pi), k_mem := m\<rparr>"

text \<open>The network has its own view of physical memory in its state; it is the kernel's.\<close>

definition net_of :: "'a kstate_scheme \<Rightarrow> netst" where
  "net_of s = (k_net s)\<lparr>n_mem := k_mem s\<rparr>"

definition put_net :: "netst \<Rightarrow> 'a kstate_scheme \<Rightarrow> 'a kstate_scheme" where
  "put_net n s = s\<lparr>k_net := n, k_mem := n_mem n\<rparr>"

text \<open>Running a file system operation on the state, alone or as a transaction.\<close>

definition on_fs :: "(fs \<Rightarrow> fs option) \<Rightarrow> 'a kstate_scheme \<Rightarrow> 'a kstate_scheme option" where
  "on_fs f s = map_option (\<lambda>x. s\<lparr>k_fs := x\<rparr>) (f (k_fs s))"

definition fs_begin_op :: "fs \<Rightarrow> fs option" where
  "fs_begin_op x = map_option (\<lambda>l. x\<lparr>fs_log := l\<rparr>) (begin_op (fs_log x))"

definition fs_end_op :: "fs \<Rightarrow> fs option" where
  "fs_end_op x = map_option (\<lambda>l. x\<lparr>fs_log := l\<rparr>) (end_op (fs_log x))"

abbreviation pid_of :: "nat \<Rightarrow> 'a runq_scheme \<Rightarrow> int" where
  "pid_of p s \<equiv> p_pid (procs s p)"

abbreviation pagetable_of :: "nat \<Rightarrow> 'a runq_scheme \<Rightarrow> u64" where
  "pagetable_of p s \<equiv> p_pagetable (procs s p)"

abbreviation killed_of :: "nat \<Rightarrow> 'a runq_scheme \<Rightarrow> bool" where
  "killed_of p s \<equiv> p_killed (procs s p)"

section \<open>References\<close>

definition filealloc :: "'a kstate_scheme \<Rightarrow> nat option \<times> 'a kstate_scheme" where
  "filealloc s =
     (case find (\<lambda>i. f_ref (k_file s i) = 0) [0..<NFILE] of
        None \<Rightarrow> (None, s)
      | Some i \<Rightarrow> (Some i, upd_file i (\<lambda>f. f\<lparr>f_ref := 1\<rparr>) s))"

definition filedup :: "nat \<Rightarrow> 'a kstate_scheme \<Rightarrow> 'a kstate_scheme option" where
  "filedup i s = (if f_ref (k_file s i) < 1 then None else Some (upd_file i (\<lambda>f. f\<lparr>f_ref := f_ref f + 1\<rparr>) s))"

definition fileclose :: "nat \<Rightarrow> nat \<Rightarrow> 'a kstate_scheme \<Rightarrow> 'a kstate_scheme option" where
  "fileclose p i s =
     (let ff = k_file s i
      in if f_ref ff < 1 then None
         else if f_ref ff - 1 > 0 then Some (upd_file i (\<lambda>f. f\<lparr>f_ref := f_ref f - 1\<rparr>) s)
         else
           let s = upd_file i (\<lambda>f. f\<lparr>f_ref := 0, f_type := FD_NONE\<rparr>) s
           in (case f_type ff of
                 FD_PIPE \<Rightarrow>
                   map_option (\<lambda>(pi, m). set_pipe (f_pipe ff) pi m s)
                     (pipeclose (f_pipe ff) (f_writable ff) (k_pipe s (f_pipe ff)) (k_mem s))
               | FD_INODE \<Rightarrow> on_fs (\<lambda>x. do { x \<leftarrow> fs_begin_op x; x \<leftarrow> iput (pid_of p s) (f_ip ff) x; fs_end_op x }) s
               | FD_DEVICE \<Rightarrow> on_fs (\<lambda>x. do { x \<leftarrow> fs_begin_op x; x \<leftarrow> iput (pid_of p s) (f_ip ff) x; fs_end_op x }) s
               | FD_SOCK \<Rightarrow> map_option (\<lambda>n. put_net n s) (sockclose (f_sock ff) (net_of s))
               | FD_NONE \<Rightarrow> Some s))"

section \<open>Reading and writing\<close>

text \<open>\<^verbatim>\<open>struct stat\<close> as it lies in memory: 24 bytes.\<close>

definition stat_bytes :: "stat \<Rightarrow> u8 list" where
  "stat_bytes st = get_bytes 0 24
     (put32 20 (ucast (drop_bit 32 (st_size st))) (put32 16 (ucast (st_size st))
       ((put16 10 (st_nlink st) (put32 4 (st_ino st) (put32 0 (st_dev st) (\<lambda>_. 0))))(8 := st_type st, 9 := st_mode st))))"

definition filestat :: "nat \<Rightarrow> nat \<Rightarrow> u64 \<Rightarrow> 'a kstate_scheme \<Rightarrow> (int \<times> 'a kstate_scheme) option" where
  "filestat p i addr s =
     (let f = k_file s i
      in if f_type f = FD_INODE \<or> f_type f = FD_DEVICE then do {
           x \<leftarrow> ilock (pid_of p s) (f_ip f) (k_fs s);
           let st = stati (icache x (f_ip f));
           x \<leftarrow> iunlock (pid_of p s) (f_ip f) x;
           (r, m) \<leftarrow> copyout (pagetable_of p s) addr (stat_bytes st) (k_mem s);
           Some (if r < 0 then - 1 else 0, s\<lparr>k_fs := x, k_mem := m\<rparr>)
         }
         else Some (- 1, s))"

definition dev_ok :: "int \<Rightarrow> bool" where
  "dev_ok major \<longleftrightarrow> 0 \<le> major \<and> major < int NDEV"

text \<open>The outcome of a pipe or socket operation, carried over to the whole state.\<close>

definition lift_pipe :: "u64 \<Rightarrow> pipe_out \<Rightarrow> 'a kstate_scheme \<Rightarrow> 'a kstate_scheme kres" where
  "lift_pipe a out s =
     (case out of Returned r pi m \<Rightarrow> Ret r (set_pipe a pi m s) | Sleeping i pi m \<Rightarrow> Blk (set_pipe a pi m s))"

definition lift_sock :: "netst + int \<times> netst \<Rightarrow> 'a kstate_scheme \<Rightarrow> 'a kstate_scheme kres" where
  "lift_sock out s = (case out of Inl n \<Rightarrow> Blk (put_net n s) | Inr (r, n) \<Rightarrow> Ret r (put_net n s))"

definition fileread ::
  "'a kstate_scheme devsw \<Rightarrow> nat \<Rightarrow> nat \<Rightarrow> u64 \<Rightarrow> int \<Rightarrow> 'a kstate_scheme \<Rightarrow> 'a kstate_scheme kres option" where
  "fileread dev p i addr n s =
     (let f = k_file s i; root = pagetable_of p s
      in if \<not> f_readable f then Some (Ret (- 1) s)
         else (case f_type f of
           FD_PIPE \<Rightarrow>
             map_option (\<lambda>out. lift_pipe (f_pipe f) out s)
               (piperead (killed_of p s) root (k_pipe s (f_pipe f)) addr n (k_mem s))
         | FD_DEVICE \<Rightarrow>
             (if \<not> dev_ok (f_major f) then Some (Ret (- 1) s)
              else (case dev_read dev (f_major f) of None \<Rightarrow> Some (Ret (- 1) s) | Some op \<Rightarrow> op addr n s))
         | FD_INODE \<Rightarrow> do {
             x \<leftarrow> ilock (pid_of p s) (f_ip f) (k_fs s);
             if i_mode (icache x (f_ip f)) AND 1 = 0 then do {
               x \<leftarrow> iunlock (pid_of p s) (f_ip f) x;
               Some (Ret (- 1) (s\<lparr>k_fs := x\<rparr>))
             }
             else do {
               (r, q, m, x) \<leftarrow> readi (f_ip f) (UserAddr root addr) (f_off f) (of_int n) (k_mem s) x;
               x \<leftarrow> iunlock (pid_of p s) (f_ip f) x;
               let s = s\<lparr>k_fs := x, k_mem := m\<rparr>;
               Some (Ret (int r) (if r > 0 then upd_file i (\<lambda>f. f\<lparr>f_off := f_off f + of_nat r\<rparr>) s else s))
             }
           }
         | FD_SOCK \<Rightarrow> map_option (\<lambda>out. lift_sock out s) (sockread (killed_of p s) root (f_sock f) addr n (net_of s))
         | FD_NONE \<Rightarrow> None))"

text \<open>
  One turn of the loop of \<^verbatim>\<open>filewrite\<close> is one transaction: its result is that of
  \<^verbatim>\<open>writei\<close>, or \<open>Inl\<close> when the inode must not be written.
\<close>

definition filewrite_max :: int where
  "filewrite_max = int (((MAXOPBLOCKS - 1 - 1 - 2) div 2) * BSIZE)"

definition filewrite_one ::
  "nat \<Rightarrow> nat \<Rightarrow> u64 \<Rightarrow> int \<Rightarrow> 'a kstate_scheme \<Rightarrow> ('a kstate_scheme + int \<times> 'a kstate_scheme) option" where
  "filewrite_one p i addr n1 s =
     (let f = k_file s i
      in do {
        x \<leftarrow> fs_begin_op (k_fs s);
        x \<leftarrow> ilock (pid_of p s) (f_ip f) x;
        if i_mode (icache x (f_ip f)) AND 2 = 0 then do {
          x \<leftarrow> iunlock (pid_of p s) (f_ip f) x;
          x \<leftarrow> fs_end_op x;
          Some (Inl (s\<lparr>k_fs := x\<rparr>))
        }
        else do {
          (r, x) \<leftarrow> writei (f_ip f) (UserAddr (pagetable_of p s) addr) (f_off f) (of_int n1) (k_mem s) x;
          x \<leftarrow> iunlock (pid_of p s) (f_ip f) x;
          x \<leftarrow> fs_end_op x;
          let s = s\<lparr>k_fs := x\<rparr>;
          Some (Inr (r, if r > 0 then upd_file i (\<lambda>f. f\<lparr>f_off := f_off f + of_int r\<rparr>) s else s))
        }
      })"

function filewrite_from :: "nat \<Rightarrow> nat \<Rightarrow> u64 \<Rightarrow> int \<Rightarrow> int \<Rightarrow> 'a kstate_scheme \<Rightarrow> (int \<times> 'a kstate_scheme) option" where
  "filewrite_from p i addr n k s =
     (if k < n then
        let n1 = min (n - k) filewrite_max
        in (case filewrite_one p i (addr + of_int k) n1 s of
              None \<Rightarrow> None
            | Some (Inl s) \<Rightarrow> Some (- 1, s)
            | Some (Inr (r, s)) \<Rightarrow>
                if r < 0 then Some (if k = n then n else - 1, s)
                else if r \<noteq> n1 then None
                else filewrite_from p i addr n (k + r) s)
      else Some (if k = n then n else - 1, s))"
  by pat_completeness auto
termination
  by (relation "measure (\<lambda>(p, i, addr, n, k, s). nat (n - k))") (auto simp: filewrite_max_def MAXOPBLOCKS_def BSIZE_def)

definition filewrite ::
  "'a kstate_scheme devsw \<Rightarrow> nat \<Rightarrow> nat \<Rightarrow> u64 \<Rightarrow> int \<Rightarrow> 'a kstate_scheme \<Rightarrow> 'a kstate_scheme kres option" where
  "filewrite dev p i addr n s =
     (let f = k_file s i; root = pagetable_of p s
      in if \<not> f_writable f then Some (Ret (- 1) s)
         else (case f_type f of
           FD_PIPE \<Rightarrow>
             map_option (\<lambda>out. lift_pipe (f_pipe f) out s)
               (pipewrite (killed_of p s) root (k_pipe s (f_pipe f)) addr n (k_mem s))
         | FD_DEVICE \<Rightarrow>
             (if \<not> dev_ok (f_major f) then Some (Ret (- 1) s)
              else (case dev_write dev (f_major f) of None \<Rightarrow> Some (Ret (- 1) s) | Some op \<Rightarrow> op addr n s))
         | FD_INODE \<Rightarrow> map_option (\<lambda>(r, s). Ret r s) (filewrite_from p i addr n 0 s)
         | FD_SOCK \<Rightarrow> map_option (\<lambda>(r, n). Ret r (put_net n s)) (sockwrite root (f_sock f) addr n (net_of s))
         | FD_NONE \<Rightarrow> None))"

section \<open>Pipes and sockets\<close>

definition pipe_files :: "nat \<Rightarrow> nat \<Rightarrow> u64 \<Rightarrow> 'a kstate_scheme \<Rightarrow> 'a kstate_scheme" where
  "pipe_files f0 f1 a s =
     upd_file f1 (\<lambda>f. f\<lparr>f_type := FD_PIPE, f_readable := False, f_writable := True, f_pipe := a\<rparr>)
       (upd_file f0 (\<lambda>f. f\<lparr>f_type := FD_PIPE, f_readable := True, f_writable := False, f_pipe := a\<rparr>)
         (s\<lparr>k_pipe := (k_pipe s)(a := pipe_init (k_pipe s a))\<rparr>))"

text \<open>\<open>None\<close> inside is the failure: the files that were allocated are closed again.\<close>

definition pipealloc :: "nat \<Rightarrow> 'a kstate_scheme \<Rightarrow> ((nat \<times> nat) option \<times> 'a kstate_scheme) option" where
  "pipealloc p s =
     (case filealloc s of
        (None, s) \<Rightarrow> Some (None, s)
      | (Some f0, s) \<Rightarrow>
          (case filealloc s of
             (None, s) \<Rightarrow> map_option (Pair None) (fileclose p f0 s)
           | (Some f1, s) \<Rightarrow>
               let (a, m) = kalloc (k_mem s); s = s\<lparr>k_mem := m\<rparr>
               in if a = 0 then do { s \<leftarrow> fileclose p f0 s; s \<leftarrow> fileclose p f1 s; Some (None, s) }
                  else Some (Some (f0, f1), pipe_files f0 f1 a s)))"

definition sockalloc :: "nat \<Rightarrow> u32 \<Rightarrow> u16 \<Rightarrow> u16 \<Rightarrow> 'a kstate_scheme \<Rightarrow> (nat option \<times> 'a kstate_scheme) option" where
  "sockalloc p raddr lport rport s =
     (case filealloc s of
        (None, s) \<Rightarrow> Some (None, s)
      | (Some i, s) \<Rightarrow>
          let (a, m) = kalloc (k_mem s); s = s\<lparr>k_mem := m\<rparr>
          in if a = 0 then do { s \<leftarrow> fileclose p i s; Some (None, s) }
             else
               let si = \<lparr>sk_addr = a, sk_raddr = raddr, sk_lport = lport, sk_rport = rport,
                         sk_rxq = mbufq_init \<lparr>q_head = 0, q_tail = 0\<rparr>, sk_sleep = False\<rparr>;
                   s = upd_file i (\<lambda>f. f\<lparr>f_type := FD_SOCK, f_readable := True, f_writable := True, f_sock := a\<rparr>) s
               in if \<exists>x \<in> set (n_socks (k_net s)). sock_is raddr lport rport x
                  then do { m \<leftarrow> kfree a (k_mem s); s \<leftarrow> fileclose p i (s\<lparr>k_mem := m\<rparr>); Some (None, s) }
                  else Some (Some i, s\<lparr>k_net := (k_net s)\<lparr>n_socks := si # n_socks (k_net s)\<rparr>\<rparr>))"

section \<open>Reference counts\<close>

text \<open>
  The contract of a table of counted objects: taking another reference adds one to the count of
  the object, dropping one subtracts one, and no other count changes. The client lemma follows
  the counts through any sequence of such calls.
\<close>

datatype ref_op = TakeRef nat | DropRef nat

fun net_refs :: "ref_op list \<Rightarrow> nat \<Rightarrow> int" where
  "net_refs [] i = 0"
| "net_refs (TakeRef j # ops) i = (if i = j then 1 else 0) + net_refs ops i"
| "net_refs (DropRef j # ops) i = (if i = j then - 1 else 0) + net_refs ops i"

primrec run_ops :: "(nat \<Rightarrow> 's \<Rightarrow> 's option) \<Rightarrow> (nat \<Rightarrow> 's \<Rightarrow> 's option) \<Rightarrow> ref_op list \<Rightarrow> 's \<Rightarrow> 's option" where
  "run_ops tk dr [] s = Some s"
| "run_ops tk dr (x # xs) s = Option.bind (case x of TakeRef i \<Rightarrow> tk i s | DropRef i \<Rightarrow> dr i s) (run_ops tk dr xs)"

locale refcounted =
  fixes ref :: "'s \<Rightarrow> nat \<Rightarrow> int"
    and tk :: "nat \<Rightarrow> 's \<Rightarrow> 's option"
    and dr :: "nat \<Rightarrow> 's \<Rightarrow> 's option"
  assumes tk_ref: "tk i s = Some t \<Longrightarrow> ref t = (ref s)(i := ref s i + 1)"
    and dr_ref: "dr i s = Some t \<Longrightarrow> ref t = (ref s)(i := ref s i - 1)"
begin

lemma run_refs: "run_ops tk dr ops s = Some t \<Longrightarrow> ref t i = ref s i + net_refs ops i"
proof (induction ops arbitrary: s)
  case (Cons x xs)
  then show ?case by (cases x) (auto dest!: tk_ref dr_ref)
qed simp

text \<open>Balanced calls leave the count as it was.\<close>

lemma run_balanced: "run_ops tk dr ops s = Some t \<Longrightarrow> net_refs ops i = 0 \<Longrightarrow> ref t i = ref s i"
  by (simp add: run_refs)

end

definition file_ref :: "'a kstate_scheme \<Rightarrow> nat \<Rightarrow> int" where
  "file_ref s i = f_ref (k_file s i)"

definition inode_ref :: "fs \<Rightarrow> nat \<Rightarrow> int" where
  "inode_ref s ip = i_ref (icache s ip)"

lemma k_file_simps [simp]:
  "k_file (upd_file i f s) = (k_file s)(i := f (k_file s i))" "k_file (set_pipe a pi m s) = k_file s"
  "k_file (put_net n s) = k_file s"
  by (simp_all add: upd_file_def set_pipe_def put_net_def)

lemma on_fs_file: "on_fs f s = Some t \<Longrightarrow> k_file t = k_file s"
  by (auto simp: on_fs_def)

lemma filedup_ref: "filedup i s = Some t \<Longrightarrow> file_ref t = (file_ref s)(i := file_ref s i + 1)"
  by (auto simp: filedup_def file_ref_def fun_eq_iff split: if_splits)

lemma fileclose_file:
  assumes "fileclose p i s = Some t"
  shows "0 < f_ref (k_file s i)"
    and "k_file t = (k_file s)(i := if f_ref (k_file s i) = 1 then (k_file s i)\<lparr>f_ref := 0, f_type := FD_NONE\<rparr>
      else (k_file s i)\<lparr>f_ref := f_ref (k_file s i) - 1\<rparr>)"
  using assms by (auto simp: fileclose_def Let_def dest!: on_fs_file split: if_splits filetype.splits)

lemma fileclose_ref: "fileclose p i s = Some t \<Longrightarrow> file_ref t = (file_ref s)(i := file_ref s i - 1)"
  by (auto simp: file_ref_def fileclose_file fun_eq_iff)

interpretation file_refs: refcounted file_ref filedup "fileclose p" for p
  by unfold_locales (rule filedup_ref fileclose_ref, assumption)+

text \<open>The inode cache is such a table too.\<close>

lemma bput_icache: "bput b d s = Some t \<Longrightarrow> icache t = icache s"
  by (auto simp: bput_def split: option.splits)

lemma bfree_icache: "bfree b s = Some t \<Longrightarrow> icache t = icache s"
  by (auto simp: bfree_def Let_def dest!: bput_icache split: if_splits)

lemma ofold_inv: "ofold f xs s = Some t \<Longrightarrow> (\<And>x s t. f x s = Some t \<Longrightarrow> P s \<Longrightarrow> P t) \<Longrightarrow> P s \<Longrightarrow> P t"
  by (induction xs arbitrary: s) (auto split: option.splits)

lemma iref_frame:
  "upd_inode j f s = t \<Longrightarrow> (\<And>x. i_ref (f x) = i_ref x) \<Longrightarrow> inode_ref t = inode_ref s"
  by (auto simp: upd_inode_def inode_ref_def fun_eq_iff)

lemma set_addr0_ref: "inode_ref (set_addr0 ip k s) = inode_ref s"
  by (simp add: set_addr0_def upd_inode_def inode_ref_def fun_eq_iff)

lemma icache_ref: "icache t = icache s \<Longrightarrow> inode_ref t = inode_ref s"
  by (simp add: inode_ref_def fun_eq_iff)

lemmas frame_refs = bput_icache [THEN icache_ref] bfree_icache [THEN icache_ref]

lemma iupdate_ref: "iupdate ip s = Some t \<Longrightarrow> inode_ref t = inode_ref s"
  by (auto simp: iupdate_def Let_def dest: frame_refs)

lemma free_slots_ref:
  assumes "free_slots f a n s = Some t" and "\<And>b s t. f b s = Some t \<Longrightarrow> inode_ref t = inode_ref s"
  shows "inode_ref t = inode_ref s"
  using assms(1) unfolding free_slots_def
  by (rule ofold_inv [where P = "\<lambda>x. inode_ref x = inode_ref s"]) (auto simp: Let_def dest: assms(2) split: if_splits)

lemma itrunc_ref: "itrunc ip s = Some t \<Longrightarrow> inode_ref t = inode_ref s"
proof -
  have 1: "inode_ref t = inode_ref s" if "trunc_direct ip s = Some t" for s t
    using that unfolding trunc_direct_def
    by (rule ofold_inv [where P = "\<lambda>x. inode_ref x = inode_ref s"]) (auto simp: Let_def set_addr0_ref dest: frame_refs split: if_splits)
  have 2: "inode_ref t = inode_ref s" if "trunc_indirect ip s = Some t" for s t
    using that by (auto simp: trunc_indirect_def Let_def set_addr0_ref dest!: free_slots_ref frame_refs split: if_splits)
  have 3: "inode_ref t = inode_ref s" if "trunc_double ip s = Some t" for s t
  proof -
    let ?f = "\<lambda>a1 s. do { s \<leftarrow> free_slots bfree a1 NADDR_PER_BLOCK s; bfree a1 s }"
    have f: "inode_ref v = inode_ref u" if "?f b u = Some v" for b u v
      using that by (auto dest!: free_slots_ref frame_refs)
    have "inode_ref v = inode_ref u" if "free_slots ?f a n u = Some v" for a n u v
      using that f by (rule free_slots_ref)
    then show ?thesis using that by (auto simp: trunc_double_def Let_def set_addr0_ref dest!: frame_refs split: if_splits)
  qed
  assume "itrunc ip s = Some t"
  then show ?thesis
    by (auto simp: itrunc_def dest!: 1 2 3 iupdate_ref) (simp add: upd_inode_def inode_ref_def fun_eq_iff)
qed

lemma iput_ref: "iput pid ip s = Some t \<Longrightarrow> inode_ref t = (inode_ref s)(ip := inode_ref s ip - 1)"
proof -
  have e: "inode_ref (upd_inode ip (\<lambda>x. x\<lparr>i_ref := i_ref x - 1\<rparr>) u) = (inode_ref u)(ip := inode_ref u ip - 1)" for u
    by (simp add: upd_inode_def inode_ref_def fun_eq_iff)
  have f: "inode_ref (upd_inode ip f u) = inode_ref u" if "\<And>x. i_ref (f x) = i_ref x" for f u
    using that by (simp add: upd_inode_def inode_ref_def fun_eq_iff)
  assume "iput pid ip s = Some t"
  then show ?thesis
    by (auto simp: iput_def e f dest!: itrunc_ref iupdate_ref split: if_splits option.splits)
qed

interpretation inode_refs: refcounted inode_ref "\<lambda>i s. Some (idup i s)" "iput pid" for pid
  by unfold_locales (auto simp: idup_def upd_inode_def inode_ref_def fun_eq_iff dest: iput_ref)

section \<open>The file table invariant\<close>

text \<open>A free entry has no type left over, so the failure paths that close it again touch nothing else.\<close>

definition ftable_ok :: "'a kstate_scheme \<Rightarrow> bool" where
  "ftable_ok s \<longleftrightarrow> (\<forall>i. 0 \<le> f_ref (k_file s i) \<and> (f_ref (k_file s i) = 0 \<longrightarrow> f_type (k_file s i) = FD_NONE))"

lemma ftable_ok_cong: "k_file t = k_file s \<Longrightarrow> ftable_ok t = ftable_ok s"
  by (simp add: ftable_ok_def)

lemma filealloc_ok:
  assumes "filealloc s = (r, t)" and "ftable_ok s"
  shows "ftable_ok t" and "r = Some i \<Longrightarrow> i < NFILE \<and> f_ref (k_file s i) = 0 \<and> k_file t = (k_file s)(i := (k_file s i)\<lparr>f_ref := 1\<rparr>)"
    and "r = None \<Longrightarrow> t = s \<and> (\<forall>i < NFILE. f_ref (k_file s i) \<noteq> 0)"
  using assms by (auto simp: filealloc_def ftable_ok_def find_None_iff find_Some_iff split: option.splits)

lemma fileclose_ok: "fileclose p i s = Some t \<Longrightarrow> ftable_ok s \<Longrightarrow> ftable_ok t"
  by (auto simp: ftable_ok_def fileclose_file dest: fileclose_file(1))

lemma filedup_ok: "filedup i s = Some t \<Longrightarrow> ftable_ok s \<Longrightarrow> ftable_ok t"
  by (auto simp: filedup_def ftable_ok_def split: if_splits)

section \<open>Reading a file\<close>

definition unlocked :: "nat \<Rightarrow> fs \<Rightarrow> fs" where
  "unlocked ip s = upd_inode ip (\<lambda>x. x\<lparr>i_lock := releasesleep (i_lock x)\<rparr>) s"

lemma ilock_iunlock: "ilock pid ip s = Some x \<Longrightarrow> iunlock pid ip x = Some (unlocked ip x)"
  by (auto simp: ilock_def iunlock_def unlocked_def acquiresleep_def holdingsleep_def upd_inode_def get_dinode_def Let_def
      split: if_splits option.splits)

text \<open>
  C37. \<^verbatim>\<open>fileread\<close> on a readable file reads on from its offset: it returns the number of
  bytes asked for, or those left in the file, puts exactly those bytes of the file into the user
  buffer and nothing else into user memory, advances the offset by that number, and leaves the
  file system as it was with the inode unlocked.
\<close>

theorem fileread_reads:
  assumes f: "k_file s i = f" "f_type f = FD_INODE" "f_readable f" and root: "pagetable_of p s = root"
    and lk: "ilock (pid_of p s) (f_ip f) (k_fs s) = Some x" and mode: "i_mode (icache x (f_ip f)) AND 1 \<noteq> 0"
    and x: "no_holes x (f_ip f)" "unat (f_off f) \<le> unat (i_size (icache x (f_ip f)))"
    and n: "0 \<le> n" "user_room (k_mem s) root addr (nat n)" "unat (f_off f) + nat n < 2 ^ 32"
    and r: "r = min (nat n) (unat (i_size (icache x (f_ip f))) - unat (f_off f))"
  shows "\<exists>t. fileread dev p i addr n s = Some (Ret (int r) t) \<and> k_fs t = unlocked (f_ip f) x \<and>
    unat (f_off (k_file t i)) = unat (f_off f) + r \<and>
    (\<forall>a. user_byte (k_mem t) root a =
      (if unat (a - addr) < r then Some (fbyte x (f_ip f) (unat (f_off f) + unat (a - addr))) else user_byte (k_mem s) root a))"
proof -
  let ?bs = "map (fbyte x (f_ip f)) [unat (f_off f)..<unat (f_off f) + r]"
  have un: "unat (of_int n :: u32) = nat n"
  proof -
    have "of_int n = (of_nat (nat n) :: u32)" using n(1) by simp
    then show ?thesis using n(3) of_nat_inverse [OF refl, of "nat n", where 'a = 32] by simp
  qed
  have room: "place_room (UserAddr root addr) (k_mem s) (unat (of_int n :: u32))" using n un by simp
  obtain q m where rd: "readi (f_ip f) (UserAddr root addr) (f_off f) (of_int n) (k_mem s) x = Some (r, q, m, x)"
      "delivered (UserAddr root addr) (k_mem s) ?bs q m"
    using readi_ok [OF x(1) room, of "f_off f"] x(2) n(3) by (auto simp: un r)
  define t where "t = (let s = s\<lparr>k_fs := unlocked (f_ip f) x, k_mem := m\<rparr>
    in if r > 0 then upd_file i (\<lambda>f. f\<lparr>f_off := f_off f + of_nat r\<rparr>) s else s)"
  have "fileread dev p i addr n s = Some (Ret (int r) t)"
    using f rd(1) lk mode root by (simp add: fileread_def t_def Let_def ilock_iunlock [OF lk])
  moreover have "k_fs t = unlocked (f_ip f) x" "k_mem t = m" by (simp_all add: t_def Let_def upd_file_def)
  moreover have "unat (f_off f + of_nat r) = unat (f_off f) + r"
    using n(3) r by (subst unat_word_ariths) (simp add: unat_of_nat take_bit_eq_mod)
  then have "unat (f_off (k_file t i)) = unat (f_off f) + r" using f(1) by (auto simp: t_def Let_def)
  moreover have "user_byte m root a = (if unat (a - addr) < r then Some (fbyte x (f_ip f) (unat (f_off f) + unat (a - addr)))
      else user_byte (k_mem s) root a)" for a
    using rd(2) by simp
  ultimately show ?thesis by blast
qed

definition demo_open :: filest where
  "demo_open = \<lparr>f_type = FD_INODE, f_ref = 1, f_readable = True, f_writable = False, f_pipe = 0, f_ip = 0, f_sock = 0, f_off = 3, f_major = 0\<rparr>"

definition demo_inode :: fs where
  "demo_inode = upd_inode 0 (\<lambda>x. x\<lparr>i_ref := 1, i_valid := True, i_mode := 3\<rparr>) demo_file"

definition demo_kernel :: kstate where
  "demo_kernel = \<lparr>procs = \<lambda>_. zero_proc\<lparr>p_pagetable := demo_root\<rparr>, runq_head = \<lambda>_. None, runq_tail = \<lambda>_. None, runq_bitmap = 0,
     plock = \<lambda>_. None, cpu_of = \<lambda>_. CIdle, initproc = 0, nextpid = 1, k_mem = demo, k_fs = demo_inode,
     k_file = \<lambda>_. demo_open, k_pipe = \<lambda>_. demo_pipe, k_net = hello_net\<rparr>"

definition demo_dev :: "kstate devsw" where
  "demo_dev = \<lparr>dev_read = (\<lambda>_. None), dev_write = (\<lambda>_. None)\<rparr>"

theorem fileread_reads_witness:
  "\<exists>t. fileread demo_dev 0 0 0 10 demo_kernel = Some (Ret 2 t) \<and> unat (f_off (k_file t 0)) = 5 \<and>
    user_byte (k_mem t) demo_root 0 = Some 3 \<and> user_byte (k_mem t) demo_root 1 = Some 4"
proof -
  define x where "x = upd_inode 0 (\<lambda>i. i\<lparr>i_lock := \<lparr>sl_locked = True, sl_pid = 0\<rparr>\<rparr>) demo_inode"
  have lk: "ilock 0 0 demo_inode = Some x"
    by (simp add: x_def ilock_def acquiresleep_def upd_inode_def demo_inode_def demo_file_def demo_fs_def Let_def)
  have sz: "i_size (icache x 0) = 5" "i_mode (icache x 0) = 3" by (simp_all add: x_def demo_inode_def demo_file_def upd_inode_def)
  have n: "node x 0 (PData 0) = 38"
    by (subst node_None [OF up_PData(1)]) (simp_all add: x_def demo_inode_def demo_file_def upd_inode_def)
  have b: "bdata 38 x = (\<lambda>i. of_nat i)" by (simp add: x_def demo_inode_def demo_file_def bdata_def upd_inode_def set_view_def)
  have z: "off div BSIZE = 0 \<and> off mod BSIZE = off" if "off < 5" for off using that by (simp add: BSIZE_def)
  have h: "no_holes x 0" using z n by (simp add: no_holes_def sz tree_consts)
  have v: "fbyte x 0 3 = 3" "fbyte x 0 4 = 4" using n b by (simp_all add: fbyte_def z)
  have k: "k_file demo_kernel 0 = demo_open" "procs demo_kernel 0 = zero_proc\<lparr>p_pagetable := demo_root\<rparr>" "k_fs demo_kernel = demo_inode"
    "k_mem demo_kernel = demo" by (simp_all add: demo_kernel_def)
  have o: "f_type demo_open = FD_INODE" "f_readable demo_open" "f_ip demo_open = 0" "f_off demo_open = 3" by (simp_all add: demo_open_def)
  have "\<exists>t. fileread demo_dev 0 0 0 10 demo_kernel = Some (Ret (int 2) t) \<and> k_fs t = unlocked (f_ip demo_open) x \<and>
      unat (f_off (k_file t 0)) = unat (f_off demo_open) + 2 \<and>
      (\<forall>a. user_byte (k_mem t) demo_root a =
        (if unat (a - 0) < 2 then Some (fbyte x (f_ip demo_open) (unat (f_off demo_open) + unat (a - 0)))
         else user_byte (k_mem demo_kernel) demo_root a))"
  proof (rule fileread_reads)
    show "ilock (pid_of 0 demo_kernel) (f_ip demo_open) (k_fs demo_kernel) = Some x" using lk by (simp add: k o zero_proc_def)
    show "i_mode (icache x (f_ip demo_open)) AND 1 \<noteq> 0" by (simp add: o sz)
    show "no_holes x (f_ip demo_open)" using h by (simp add: o)
    show "user_room (k_mem demo_kernel) demo_root 0 (nat 10)" using demo_room [of 10] by (simp add: k)
  qed (simp_all add: k o sz)
  then show ?thesis using v by (auto simp: o)
qed

section \<open>A defect in sockalloc\<close>

text \<open>
  Opening a second socket for the same address and ports frees the new socket and then closes its
  file, which is already marked as a socket: \<^verbatim>\<open>sockclose\<close> walks the packet queue of the freed
  page. The model has no socket there, and the call does not return.
\<close>

lemma sockalloc_duplicate_faults:
  assumes "filealloc s = (Some i, t)" and a: "kalloc (k_mem t) = (a, m)" "a \<noteq> 0"
    and dup: "\<exists>x \<in> set (n_socks (k_net t)). sock_is raddr lport rport x"
    and new: "\<forall>x \<in> set (n_socks (k_net t)). sk_addr x \<noteq> a"
  shows "sockalloc p raddr lport rport s = None"
proof -
  have r: "f_ref (k_file t i) = 1" using assms(1) by (auto simp: filealloc_def split: option.splits)
  have "find (\<lambda>x. sk_addr x = a) (n_socks (k_net t)) = None" using new by (simp add: find_None_iff)
  then show ?thesis
    using assms r by (auto simp: sockalloc_def Let_def fileclose_def upd_file_def sockclose_def sock_at_def net_of_def)
qed

end
