(* ===== verification/Sharemem.thy ===== *)
theory Sharemem
  imports File
begin

text \<open>
  Shared memory, \<^verbatim>\<open>kernel/mm/sharemem.c\<close>. The code works on \<^verbatim>\<open>proc->\<close>, which is entry
  0 of the process table, not on the calling process; so does the model. Addresses that the kernel
  page table does not map fault when they are dereferenced, which is \<open>None\<close>.
\<close>

section \<open>State and operations\<close>

definition MAX_SHM_PGNUM :: nat where "MAX_SHM_PGNUM = 4"

record sharemem =
  sm_refcount :: int
  sm_pagenum :: int
  sm_physaddr :: "nat \<Rightarrow> u64"

record shmst = kstate +
  shmtab :: "nat \<Rightarrow> sharemem"

definition upd_shm :: "nat \<Rightarrow> (sharemem \<Rightarrow> sharemem) \<Rightarrow> 'a shmst_scheme \<Rightarrow> 'a shmst_scheme" where
  "upd_shm k f s = s\<lparr>shmtab := (shmtab s)(k := f (shmtab s k))\<rparr>"

text \<open>What \<^verbatim>\<open>kvminit\<close> and \<^verbatim>\<open>procinit\<close> map in the kernel page table.\<close>

definition kmapped :: "u64 \<Rightarrow> bool" where
  "kmapped a \<longleftrightarrow> UART0 \<le> a \<and> a < UART0 + PGSIZE \<or> VIRTIO0 \<le> a \<and> a < VIRTIO0 + PGSIZE \<or>
     0x30000000 \<le> a \<and> a < 0x40020000 \<or> CLINT \<le> a \<and> a < CLINT + 0x10000 \<or> PLIC \<le> a \<and> a < PLIC + 0x400000 \<or>
     KERNBASE \<le> a \<and> a < PHYSTOP \<or> TRAMPOLINE \<le> a \<and> a < MAXVA \<or>
     (\<exists>p < NPROC. KSTACK p \<le> a \<and> a < KSTACK p + PGSIZE)"

definition sharememinit :: "'a shmst_scheme \<Rightarrow> 'a shmst_scheme" where
  "sharememinit s = fold (\<lambda>i. upd_shm i (\<lambda>x. x\<lparr>sm_refcount := 0\<rparr>)) [0..<8] s"

definition shmkeyused :: "u64 \<Rightarrow> u64 \<Rightarrow> bool" where
  "shmkeyused key msk \<longleftrightarrow> \<not> key > 8 \<and> drop_bit (unat key) msk AND 1 \<noteq> 0"

text \<open>\<^verbatim>\<open>int\<close> results of functions that compute an address are sign extended by the caller.\<close>

definition via_int :: "u64 \<Rightarrow> u64" where
  "via_int a = scast (ucast a :: u32)"

text \<open>Freeing the pages from the top down; the page table is dereferenced by \<^verbatim>\<open>walk\<close>.\<close>

partial_function (option) deallocshm_from :: "u64 \<Rightarrow> u64 \<Rightarrow> u64 \<Rightarrow> kmem \<Rightarrow> kmem option" where
  "deallocshm_from pagetable oldshm a m =
     (if oldshm \<le> a then
        if \<not> kmapped pagetable then None
        else do {
          (pte, m) \<leftarrow> walk pagetable a False m;
          m \<leftarrow> (if pte \<noteq> 0 \<and> pte_at m pte AND PTE_V \<noteq> 0 then
                  let pa = PTE2PA (pte_at m pte)
                  in if pa = 0 then None else map_option (set_pte pte 0) (kfree pa m)
                else Some m);
          deallocshm_from pagetable oldshm (a - PGSIZE) m
        }
      else Some m)"

definition deallocshm :: "u64 \<Rightarrow> u64 \<Rightarrow> u64 \<Rightarrow> kmem \<Rightarrow> kmem option" where
  "deallocshm pagetable oldshm newshm m =
     (if newshm \<le> oldshm then Some m
      else deallocshm_from pagetable oldshm (PGROUNDDOWN (newshm - PGSIZE)) m)"

definition shm_range_ok :: "u64 \<Rightarrow> u64 \<Rightarrow> u64 \<Rightarrow> bool" where
  "shm_range_ok oldshm newshm sz \<longleftrightarrow>
     oldshm AND 0xFFF = 0 \<and> newshm AND 0xFFF = 0 \<and> \<not> oldshm > KERNBASE \<and> \<not> newshm < sz"

text \<open>The pages allocated so far are collected in order, as the source fills \<^verbatim>\<open>phyaddr\<close>.\<close>

partial_function (option) allocshm_from :: "u64 \<Rightarrow> u64 \<Rightarrow> u64 \<Rightarrow> u64 \<Rightarrow> u64 list \<Rightarrow> kmem \<Rightarrow> (u64 list option \<times> kmem) option" where
  "allocshm_from pagetable oldshm newshm a pas m =
     (if a < oldshm then
        let (pa, m) = kalloc m
        in if pa = 0 then map_option (Pair None) (deallocshm pagetable newshm oldshm m)
           else do {
             (r, m) \<leftarrow> mappages pagetable a PGSIZE pa (PTE_W OR PTE_U) (zero_page pa m);
             if r \<noteq> 0 then do { m \<leftarrow> kfree pa m; map_option (Pair None) (deallocshm pagetable newshm oldshm m) }
             else allocshm_from pagetable oldshm newshm (a + PGSIZE) (pas @ [pa]) m
           }
      else Some (Some pas, m))"

definition allocshm :: "u64 \<Rightarrow> u64 \<Rightarrow> u64 \<Rightarrow> u64 \<Rightarrow> kmem \<Rightarrow> (u64 \<times> u64 list \<times> kmem) option" where
  "allocshm pagetable oldshm newshm sz m =
     (if \<not> shm_range_ok oldshm newshm sz then Some (0, [], m)
      else do {
        (r, m) \<leftarrow> allocshm_from pagetable oldshm newshm newshm [] m;
        Some (case r of None \<Rightarrow> (0, [], m) | Some pas \<Rightarrow> (via_int newshm, pas, m))
      })"

partial_function (option) mapshm_from :: "u64 \<Rightarrow> u64 \<Rightarrow> u64 \<Rightarrow> (nat \<Rightarrow> u64) \<Rightarrow> nat \<Rightarrow> kmem \<Rightarrow> (bool \<times> kmem) option" where
  "mapshm_from pagetable oldshm a physaddr i m =
     (if a < oldshm then do {
        (r, m) \<leftarrow> mappages pagetable a PGSIZE (physaddr i) (PTE_W OR PTE_U) m;
        if r < 0 then Some (False, m) else mapshm_from pagetable oldshm (a + PGSIZE) physaddr (i + 1) m
      }
      else Some (True, m))"

definition mapshm :: "u64 \<Rightarrow> u64 \<Rightarrow> u64 \<Rightarrow> u64 \<Rightarrow> (nat \<Rightarrow> u64) \<Rightarrow> kmem \<Rightarrow> (u64 \<times> kmem) option" where
  "mapshm pagetable oldshm newshm sz physaddr m =
     (if \<not> shm_range_ok oldshm newshm sz then Some (0, m)
      else do {
        (ok, m) \<leftarrow> mapshm_from pagetable oldshm newshm physaddr 0 m;
        Some (if ok then via_int newshm else 0, m)
      })"

definition shmadd :: "u64 \<Rightarrow> u64 \<Rightarrow> u64 list \<Rightarrow> 'a shmst_scheme \<Rightarrow> 'a shmst_scheme" where
  "shmadd key pagenum pas s =
     (if key \<ge> 8 \<or> pagenum = 0 \<or> pagenum > of_nat MAX_SHM_PGNUM then s
      else upd_shm (unat key) (\<lambda>x. x\<lparr>sm_refcount := 1, sm_pagenum := uint pagenum,
             sm_physaddr := (\<lambda>i. if i < unat pagenum then pas ! i else sm_physaddr x i)\<rparr>) s)"

definition shmgetat :: "u64 \<Rightarrow> u64 \<Rightarrow> 'a shmst_scheme \<Rightarrow> (u64 \<times> 'a shmst_scheme) option" where
  "shmgetat key num s =
     (if key \<ge> 8 \<or> of_nat MAX_SHM_PGNUM < num then Some (- 1, s)
      else
        let pr = procs s 0; shm = ucast (p_shm pr)
        in do {
          (shm, s) \<leftarrow>
            (if sm_refcount (shmtab s (unat key)) = 0 then do {
               (a, pas, m) \<leftarrow> allocshm (p_pagetable pr) shm (shm - num * PGSIZE) (p_sz pr) (k_mem s);
               let s = s\<lparr>k_mem := m\<rparr>;
               Some (a, if a = 0 then s
                        else shmadd key num pas (upd_proc 0 (\<lambda>x. x\<lparr>p_shmva := (p_shmva x)(unat key := a)\<rparr>) s))
             }
             else do {
               (a, m) \<leftarrow> mapshm (p_pagetable pr) shm shm (p_sz pr) (sm_physaddr (shmtab s (unat key))) (k_mem s);
               let s = s\<lparr>k_mem := m\<rparr>;
               Some (a, if a = 0 then s
                        else upd_shm (unat key) (\<lambda>x. x\<lparr>sm_refcount := sm_refcount x + 1\<rparr>)
                               (upd_proc 0 (\<lambda>x. x\<lparr>p_shmva := (p_shmva x)(unat key := a)\<rparr>) s))
             });
          if shm = 0 then Some (- 1, s)
          else Some (shm, upd_proc 0 (\<lambda>x. x\<lparr>p_shm := ucast shm, p_shmkeymask := p_shmkeymask x OR push_bit (unat key) 1\<rparr>) s)
        })"

definition shmaddcount :: "u64 \<Rightarrow> 'a shmst_scheme \<Rightarrow> 'a shmst_scheme" where
  "shmaddcount msk s =
     fold (\<lambda>k s. if shmkeyused (of_nat k) msk then upd_shm k (\<lambda>x. x\<lparr>sm_refcount := sm_refcount x + 1\<rparr>) s else s) [0..<8] s"

text \<open>\<^verbatim>\<open>shmrm\<close> takes a page-table entry made from the physical address for a pointer and reads it.\<close>

definition shmrm_page :: "u64 \<Rightarrow> kmem \<Rightarrow> kmem option" where
  "shmrm_page physaddr m =
     (let pte = PA2PTE physaddr
      in if pte = 0 then Some m
         else if \<not> kmapped pte then None
         else if pte_at m pte AND PTE_V \<noteq> 0 then kfree (PTE2PA (pte_at m pte)) m
         else Some m)"

definition shmrm :: "nat \<Rightarrow> 'a shmst_scheme \<Rightarrow> 'a shmst_scheme option" where
  "shmrm key s =
     (if key \<ge> 8 then Some s
      else do {
        m \<leftarrow> ofold (\<lambda>i. shmrm_page (sm_physaddr (shmtab s key) i)) [0..<nat (sm_pagenum (shmtab s key))] (k_mem s);
        Some (upd_shm key (\<lambda>x. x\<lparr>sm_refcount := 0\<rparr>) (s\<lparr>k_mem := m\<rparr>))
      })"

definition shmrelease :: "u64 \<Rightarrow> u64 \<Rightarrow> u64 \<Rightarrow> 'a shmst_scheme \<Rightarrow> 'a shmst_scheme option" where
  "shmrelease pagetable shm keymask s = do {
     m \<leftarrow> deallocshm pagetable shm KERNBASE (k_mem s);
     ofold (\<lambda>k s. if shmkeyused (of_nat k) keymask then
               let s = upd_shm k (\<lambda>x. x\<lparr>sm_refcount := sm_refcount x - 1\<rparr>) s
               in if sm_refcount (shmtab s k) = 0 then shmrm k s else Some s
             else Some s) [0..<8] (s\<lparr>k_mem := m\<rparr>)
   }"

definition shmrefcount :: "u64 \<Rightarrow> 'a shmst_scheme \<Rightarrow> int" where
  "shmrefcount key s = (if key \<ge> 8 then - 1 else sm_refcount (shmtab s (unat key)))"

section \<open>Defects\<close>

text \<open>Attaching to a region that exists maps nothing: the range given to \<^verbatim>\<open>mapshm\<close> is empty.\<close>

lemma mapshm_empty: "mapshm pagetable shm shm sz physaddr m = Some (if shm_range_ok shm shm sz then via_int shm else 0, m)"
  by (subst mapshm_def, subst mapshm_from.simps) simp

lemma shmgetat_attach_maps_nothing:
  assumes "key < 8" "num \<le> of_nat MAX_SHM_PGNUM" "sm_refcount (shmtab s (unat key)) \<noteq> 0" "shmgetat key num s = Some (r, t)"
  shows "k_mem t = k_mem s"
  using assms by (auto simp: shmgetat_def Let_def mapshm_empty upd_shm_def upd_proc_def not_le not_less split: if_splits)

text \<open>Giving up the last reference to a region of pages in RAM faults in \<^verbatim>\<open>shmrm\<close>.\<close>

lemma KSTACK_high: "q < NPROC \<Longrightarrow> 274877378560 \<le> unat (KSTACK q)"
proof -
  assume q: "q < NPROC"
  have e: "(of_nat q + 1) * 2 * 4096 = (of_nat ((q + 1) * 8192) :: u64)" by simp
  have u: "unat (of_nat ((q + 1) * 8192) :: u64) = (q + 1) * 8192" using q by (intro unat_of_nat_u64) (simp add: NPROC_def)
  have "unat (KSTACK q) = 274877902848 - (q + 1) * 8192"
    using q u unfolding KSTACK_def PGSIZE_def e by (subst unat_sub) (simp_all add: layout word_le_nat_alt)
  then show ?thesis using q by (simp add: NPROC_def)
qed

lemma not_kmapped:
  assumes "unat a < 33554432 \<or> 536870912 \<le> unat a \<and> unat a < 805306368"
  shows "\<not> kmapped a"
proof -
  have "\<not> KSTACK q \<le> a" if "q < NPROC" for q
    using KSTACK_high [OF that] assms unfolding word_le_nat_alt by linarith
  then show ?thesis using assms unfolding kmapped_def
    by (auto simp: UART0_def VIRTIO0_def CLINT_def PLIC_def KERNBASE_def TRAMPOLINE_def MAXVA_def PGSIZE_def word_le_nat_alt word_less_nat_alt)
qed

lemma PA2PTE_unmapped:
  assumes "KERNBASE \<le> pa" "pa < PHYSTOP"
  shows "PA2PTE pa \<noteq> 0 \<and> \<not> kmapped (PA2PTE pa)"
proof -
  have pa: "2147483648 \<le> unat pa" "unat pa < 2281701376"
    using assms by (simp_all add: layout word_le_nat_alt word_less_nat_alt)
  have d: "unat (drop_bit 12 pa) = unat pa div 4096"
    using unat_u64_less [of pa] by (simp only: unsigned_drop_bit_eq) (simp add: drop_bit_eq_div take_bit_nat_eq_self)
  have "unat (PA2PTE pa) = 1024 * (unat pa div 4096)"
    unfolding PA2PTE_def using pa d by (simp add: push_bit_eq_mult unat_word_ariths take_bit_eq_mod)
  moreover have "524288 \<le> unat pa div 4096" "unat pa div 4096 < 557056" using pa by simp_all
  ultimately have b: "536870912 \<le> unat (PA2PTE pa)" "unat (PA2PTE pa) < 570425344" by simp_all
  then show ?thesis by (auto intro!: not_kmapped)
qed

lemma shmrm_faults:
  assumes "key < 8" "0 < sm_pagenum (shmtab s key)" "KERNBASE \<le> sm_physaddr (shmtab s key) 0" "sm_physaddr (shmtab s key) 0 < PHYSTOP"
  shows "shmrm key s = None"
proof -
  have "[0..<nat (sm_pagenum (shmtab s key))] = 0 # [1..<nat (sm_pagenum (shmtab s key))]"
    using assms(2) by (simp add: upt_rec)
  then show ?thesis using PA2PTE_unmapped [OF assms(3,4)] assms(1) by (simp add: shmrm_def shmrm_page_def Let_def)
qed

text \<open>
  A process whose boundary has moved is released with its page table already cleared: freeing its
  entry faults on page table 0.
\<close>

lemma shmrelease_cleared_faults:
  assumes "shm \<le> KERNBASE - PGSIZE"
  shows "shmrelease 0 shm keymask s = None"
proof -
  have "PGROUNDDOWN (KERNBASE - PGSIZE) = KERNBASE - PGSIZE" by (simp add: PGROUNDDOWN_def layout)
  moreover have "\<not> KERNBASE \<le> shm" using assms by (simp add: layout word_le_nat_alt)
  ultimately have "deallocshm 0 shm KERNBASE (k_mem s) = None"
    using assms not_kmapped [of 0] by (subst deallocshm_def, subst deallocshm_from.simps) simp
  then show ?thesis by (simp add: shmrelease_def)
qed

end
