(* ===== verification/Messagequeue.thy ===== *)
theory Messagequeue
  imports Sharemem
begin

text \<open>
  Message queues, \<^verbatim>\<open>kernel/proc/messagequeue.c\<close>. The messages of a queue are a linked list inside
  one page; the model keeps them there, as bytes of physical memory, with the field offsets of
  \<^verbatim>\<open>struct msg\<close> and the 16-byte header that the code assumes. As in the source, \<^verbatim>\<open>proc\<close>
  is entry 0 of the process table. A pointer the kernel does not map faults, which is \<open>None\<close>.
\<close>

section \<open>State\<close>

record mq =
  mq_key :: int
  mq_status :: int
  mq_msgs :: u64
  mq_maxbytes :: int
  mq_curbytes :: int
  mq_refcount :: int

record mqst = shmst +
  mqs :: "nat \<Rightarrow> mq"
  wqueue :: "nat list"
  rqueue :: "nat list"

definition upd_mq :: "nat \<Rightarrow> (mq \<Rightarrow> mq) \<Rightarrow> 'a mqst_scheme \<Rightarrow> 'a mqst_scheme" where
  "upd_mq i f s = s\<lparr>mqs := (mqs s)(i := f (mqs s i))\<rparr>"

definition set_mem :: "memory \<Rightarrow> 'a kstate_scheme \<Rightarrow> 'a kstate_scheme" where
  "set_mem m s = s\<lparr>k_mem := (k_mem s)\<lparr>mem := m\<rparr>\<rparr>"

abbreviation memof :: "'a kstate_scheme \<Rightarrow> memory" where
  "memof s \<equiv> mem (k_mem s)"

text \<open>The fields of \<^verbatim>\<open>struct msg\<close>: \<^verbatim>\<open>next\<close>, \<^verbatim>\<open>type\<close>, \<^verbatim>\<open>dataaddr\<close>, \<^verbatim>\<open>datasize\<close>.\<close>

definition msg_next :: "memory \<Rightarrow> u64 \<Rightarrow> u64" where "msg_next m a = load64 m a"
definition msg_type :: "memory \<Rightarrow> u64 \<Rightarrow> int" where "msg_type m a = sint (load64 m (a + 8))"
definition msg_dataaddr :: "memory \<Rightarrow> u64 \<Rightarrow> u64" where "msg_dataaddr m a = load64 m (a + 16)"
definition msg_datasize :: "memory \<Rightarrow> u64 \<Rightarrow> int" where "msg_datasize m a = sint (ucast (load_le 4 m (a + 24)) :: u32)"

definition load_int :: "memory \<Rightarrow> u64 \<Rightarrow> int" where
  "load_int m a = sint (ucast (load_le 4 m a) :: u32)"

section \<open>Queues\<close>

definition findkey :: "int \<Rightarrow> 'a mqst_scheme \<Rightarrow> nat option" where
  "findkey key s = find (\<lambda>i. mq_status (mqs s i) \<noteq> 0 \<and> mq_key (mqs s i) = key) [0..<MQMAX]"

definition mqinit :: "'a mqst_scheme \<Rightarrow> 'a mqst_scheme" where
  "mqinit s = fold (\<lambda>i. upd_mq i (\<lambda>q. q\<lparr>mq_status := 0\<rparr>)) [0..<MQMAX] s"

definition set_mqmask :: "nat \<Rightarrow> 'a runq_scheme \<Rightarrow> 'a runq_scheme" where
  "set_mqmask idx s = upd_proc 0 (\<lambda>x. x\<lparr>p_mqmask := p_mqmask x OR push_bit idx 1\<rparr>) s"

definition newmq :: "int \<Rightarrow> 'a mqst_scheme \<Rightarrow> int \<times> 'a mqst_scheme" where
  "newmq key s =
     (case find (\<lambda>i. mq_status (mqs s i) = 0) [0..<MQMAX] of
        None \<Rightarrow> (- 1, s)
      | Some idx \<Rightarrow>
          let (pa, m) = kalloc (k_mem s); s = upd_mq idx (\<lambda>q. q\<lparr>mq_msgs := pa\<rparr>) (s\<lparr>k_mem := m\<rparr>)
          in if pa = 0 then (- 1, s)
             else
               (int idx, set_mqmask idx
                 (upd_mq idx (\<lambda>q. q\<lparr>mq_key := key, mq_status := 1, mq_maxbytes := 4096, mq_curbytes := 16, mq_refcount := 1\<rparr>)
                   (s\<lparr>k_mem := zero_page pa (k_mem s)\<rparr>))))"

definition addmqcount :: "u32 \<Rightarrow> 'a mqst_scheme \<Rightarrow> 'a mqst_scheme" where
  "addmqcount msk s =
     fold (\<lambda>k s. if drop_bit k msk AND 1 \<noteq> 0 then upd_mq k (\<lambda>q. q\<lparr>mq_refcount := mq_refcount q + 1\<rparr>) s else s) [0..<MQMAX] s"

definition sys_mqget :: "u32 \<Rightarrow> 'a mqst_scheme \<Rightarrow> int \<times> 'a mqst_scheme" where
  "sys_mqget key s =
     (case findkey (sint key) s of
        Some idx \<Rightarrow>
          (int idx,
           if drop_bit idx (p_mqmask (procs s 0)) AND 1 = 0
           then upd_mq idx (\<lambda>q. q\<lparr>mq_refcount := mq_refcount q + 1\<rparr>) (set_mqmask idx s) else s)
      | None \<Rightarrow> newmq (sint key) s)"

section \<open>Messages\<close>

text \<open>Compaction: the messages are moved to the front of the page one after the other.\<close>

partial_function (option) reloc_from :: "u64 \<Rightarrow> u64 \<Rightarrow> u64 \<Rightarrow> memory \<Rightarrow> memory option" where
  "reloc_from pages pre a m =
     (if a = 0 then Some (store64 pre 0 m)
      else
        let t = msg_next m a;
            m = memmove pages a (unat (of_int (msg_datasize m a + 16) :: u32)) m;
            m = store64 pages (pages + of_int (msg_datasize m pages) + 16) m;
            m = store64 (pages + 16) (pages + 16) m
        in reloc_from (msg_next m pages) pages t m)"

definition reloc :: "nat \<Rightarrow> 'a mqst_scheme \<Rightarrow> 'a mqst_scheme option" where
  "reloc mqid s = (let pages = mq_msgs (mqs s mqid) in map_option (\<lambda>m. set_mem m s) (reloc_from pages pages pages (memof s)))"

partial_function (option) last_msg :: "memory \<Rightarrow> u64 \<Rightarrow> u64 option" where
  "last_msg m a = (if msg_next m a = 0 then Some a else last_msg m (msg_next m a))"

text \<open>The message that is written at \<open>a\<close>: header and then \<open>sz\<close> bytes from \<open>src\<close>.\<close>

definition put_msg :: "u64 \<Rightarrow> int \<Rightarrow> u64 \<Rightarrow> int \<Rightarrow> memory \<Rightarrow> memory" where
  "put_msg a ty src sz m =
     (let m = store64 (a + 8) (of_int ty) m;
          m = store64 a 0 m;
          m = store64 (a + 16) (a + 16) m;
          m = store_le 4 (a + 24) (of_int sz) m
      in memmove (msg_dataaddr m a) src (unat (of_int sz :: u32)) m)"

definition wake_all :: "nat list \<Rightarrow> 'a runq_scheme \<Rightarrow> 'a runq_scheme" where
  "wake_all ps s = fold (\<lambda>p. wakeup (ChanProc p)) ps s"

definition mq_bad :: "u32 \<Rightarrow> 'a mqst_scheme \<Rightarrow> bool" where
  "mq_bad mqid s \<longleftrightarrow> unat mqid \<ge> MQMAX \<or> mq_status (mqs s (unat mqid)) = 0"

definition sys_msgsnd :: "u32 \<Rightarrow> u64 \<Rightarrow> int \<Rightarrow> 'a mqst_scheme \<Rightarrow> 'a mqst_scheme kres option" where
  "sys_msgsnd mqid msg sz s =
     (let i = unat mqid; q = mqs s i
      in if mq_bad mqid s then Some (Ret (- 1) s)
         else if mq_msgs q = 0 then Some (Ret (- 1) s)
         else if wrap32 (wrap32 (mq_curbytes q + sz) + 16) \<le> mq_maxbytes q then
           if \<not> kmapped msg then None
           else do {
             a \<leftarrow> last_msg (memof s) (mq_msgs q);
             let nxt = a + of_int (msg_datasize (memof s) a) + 16;
             let m = put_msg nxt (load_int (memof s) msg) (msg + 4) sz (store64 a nxt (memof s));
             let s = upd_mq i (\<lambda>q. q\<lparr>mq_curbytes := wrap32 (mq_curbytes q + (sz + 16))\<rparr>) (set_mem m s);
             Some (Ret 0 ((wake_all (rqueue s) s)\<lparr>rqueue := []\<rparr>))
           }
         else if length (wqueue s) \<ge> NPROC then None
         else Some (Blk (s\<lparr>wqueue := wqueue s @ [0]\<rparr>)))"

text \<open>The first message of the type and its predecessor.\<close>

partial_function (option) find_msg :: "memory \<Rightarrow> int \<Rightarrow> u64 \<Rightarrow> u64 \<Rightarrow> (u64 \<times> u64) option option" where
  "find_msg m ty pre a =
     (if a = 0 then Some None
      else if msg_type m a = ty then Some (Some (pre, a))
      else find_msg m ty a (msg_next m a))"

definition sys_msgrcv :: "u32 \<Rightarrow> u64 \<Rightarrow> int \<Rightarrow> 'a mqst_scheme \<Rightarrow> 'a mqst_scheme kres option" where
  "sys_msgrcv mqid msg sz s =
     (let i = unat mqid; q = mqs s i
      in if mq_bad mqid s then Some (Ret (- 1) s)
         else if \<not> kmapped msg \<and> msg_next (memof s) (mq_msgs q) \<noteq> 0 then None
         else do {
           r \<leftarrow> find_msg (memof s) (load_int (memof s) msg) (mq_msgs q) (msg_next (memof s) (mq_msgs q));
           (case r of
              None \<Rightarrow> if length (rqueue s) \<ge> NPROC then None else Some (Blk (s\<lparr>rqueue := rqueue s @ [0]\<rparr>))
            | Some (pre, a) \<Rightarrow>
                if \<not> kmapped (msg_dataaddr (memof s) a) then None
                else do {
                  let m = memmove (msg + 4) (msg_dataaddr (memof s) a) (unat (of_int sz :: u32)) (memof s);
                  let m = store64 pre (msg_next m a) m;
                  let s = upd_mq i (\<lambda>q. q\<lparr>mq_curbytes := wrap32 (mq_curbytes q - (msg_datasize m a + 16))\<rparr>) (set_mem m s);
                  s \<leftarrow> reloc i s;
                  Some (Ret 0 ((wake_all (wqueue s) s)\<lparr>wqueue := []\<rparr>))
                })
         })"

text \<open>A receiver that has slept does not look again.\<close>

definition sys_msgrcv_woken :: "'a mqst_scheme \<Rightarrow> 'a mqst_scheme kres" where
  "sys_msgrcv_woken s = Ret (- 1) s"

definition rmmq :: "nat \<Rightarrow> 'a mqst_scheme \<Rightarrow> 'a mqst_scheme option" where
  "rmmq mqid s =
     map_option (\<lambda>m. upd_mq mqid (\<lambda>q. q\<lparr>mq_status := 0\<rparr>) (s\<lparr>k_mem := m\<rparr>)) (kfree (mq_msgs (mqs s mqid)) (k_mem s))"

definition drop_mq :: "nat \<Rightarrow> 'a mqst_scheme \<Rightarrow> 'a mqst_scheme option" where
  "drop_mq i s =
     (let s = upd_mq i (\<lambda>q. q\<lparr>mq_refcount := mq_refcount q - 1\<rparr>) s
      in if mq_refcount (mqs s i) = 0 then rmmq i s else Some s)"

definition releasemq :: "u32 \<Rightarrow> 'a mqst_scheme \<Rightarrow> 'a mqst_scheme option" where
  "releasemq key s = (case findkey (sint key) s of None \<Rightarrow> Some s | Some idx \<Rightarrow> drop_mq idx s)"

definition releasemq2 :: "u32 \<Rightarrow> 'a mqst_scheme \<Rightarrow> 'a mqst_scheme option" where
  "releasemq2 msk s = ofold (\<lambda>i s. if drop_bit i msk AND 1 \<noteq> 0 then drop_mq i s else Some s) [0..<MQMAX] s"

section \<open>A defect\<close>

text \<open>
  The header is 32 bytes long and not 16: the data of a message starts where its
  \<^verbatim>\<open>dataaddr\<close> field lies. Once a message of eight or more bytes is sent, the pointer that
  \<^verbatim>\<open>msgrcv\<close> reads from is the first eight bytes of the message.
\<close>

lemma put_msg_overwrites_dataaddr:
  assumes sz: "8 \<le> sz" "sz < 4096" and a: "unat a + 8192 < 2 ^ 64" and src: "unat src + 8192 < 2 ^ 64"
    and apart: "unat src + 8 \<le> unat a \<or> unat a + 28 \<le> unat src"
  shows "msg_dataaddr (put_msg a ty src sz m) a = load64 m src"
proof -
  define h where "h = store_le 4 (a + 24) (of_int sz) (store64 (a + 16) (a + 16) (store64 a 0 (store64 (a + 8) (of_int ty) m)))"
  have n: "unat (of_int sz :: u32) = nat sz"
  proof -
    have "of_int sz = (of_nat (nat sz) :: u32)" using sz by simp
    then show ?thesis using sz of_nat_inverse [OF refl, of "nat sz", where 'a = 32] by simp
  qed
  have pa: "unat (a + 8) = unat a + 8" "unat (a + 16) = unat a + 16" "unat (a + 24) = unat a + 24"
    using a by (simp_all add: unat_word_ariths)
  have ps: "unat (src + of_nat i) = unat src + i" if "i < 8" for i
    using src that by (simp add: unat_word_ariths)
  have outside: "h (src + of_nat i) = m (src + of_nat i)" if "i < 8" for i
  proof -
    have "\<not> unat (src + of_nat i - b) < k" if "unat a \<le> unat b" "unat b + k \<le> unat a + 28" for b k
      by (rule unat_sub_outside) (use that apart a \<open>i < 8\<close> ps [OF \<open>i < 8\<close>] in linarith)+
    then show ?thesis unfolding h_def using pa by (simp add: store_le_outside del: store_le.simps)
  qed
  have "msg_dataaddr h a = a + 16"
  proof -
    have "h (a + 16 + of_nat i) = store64 (a + 16) (a + 16) (store64 a 0 (store64 (a + 8) (of_int ty) m)) (a + 16 + of_nat i)"
      if "i < 8" for i
    proof -
      have "unat (a + 16 + of_nat i) = unat a + 16 + i" using a that pa by (simp add: unat_word_ariths)
      then have "\<not> unat (a + 16 + of_nat i - (a + 24)) < 4"
        by (intro unat_sub_outside) (use a that pa in linarith)+
      then show ?thesis unfolding h_def by (intro store_le_outside) simp_all
    qed
    then have "load64 h (a + 16) = load64 (store64 (a + 16) (a + 16) (store64 a 0 (store64 (a + 8) (of_int ty) m))) (a + 16)"
      by (rule load_le_cong)
    then show ?thesis by (simp add: msg_dataaddr_def del: load_le.simps store_le.simps)
  qed
  then have p: "put_msg a ty src sz m = memmove (a + 16) src (nat sz) h"
    unfolding put_msg_def Let_def h_def [symmetric] n by simp
  have "memmove (a + 16) src (nat sz) h (a + 16 + of_nat i) = m (src + of_nat i)" if "i < 8" for i
    using that sz a src by (subst memmove_bytes) (auto simp: pa outside)
  then show ?thesis unfolding msg_dataaddr_def p by (rule load_le_shift)
qed

end
