(* ===== verification/Syscall.thy ===== *)
theory Syscall
  imports Fs_Dir File
begin

text \<open>
  The entry of system calls, \<^verbatim>\<open>kernel/syscall.c\<close>: the arguments are in the trap frame page of the
  calling process, in physical memory, and strings and pointers in its user memory. An argument
  that is refused makes the call return \<open>-1\<close>.
\<close>

section \<open>Arguments\<close>

definition MAXPATH :: nat where "MAXPATH = 128"

text \<open>Byte offsets of fields of \<^verbatim>\<open>struct trapframe\<close>.\<close>

definition tf_off_epc :: u64 where "tf_off_epc = 24"
definition tf_off_sp :: u64 where "tf_off_sp = 48"
definition tf_off_s0 :: u64 where "tf_off_s0 = 96"
definition tf_off_a0 :: u64 where "tf_off_a0 = 112"
definition tf_off_a1 :: u64 where "tf_off_a1 = 120"
definition tf_off_a7 :: u64 where "tf_off_a7 = 168"

definition tf_get :: "u64 \<Rightarrow> nat \<Rightarrow> 'a kstate_scheme \<Rightarrow> u64" where
  "tf_get off p s = load64 (mem (k_mem s)) (p_trapframe (procs s p) + off)"

definition tf_set :: "u64 \<Rightarrow> u64 \<Rightarrow> nat \<Rightarrow> 'a kstate_scheme \<Rightarrow> 'a kstate_scheme" where
  "tf_set off v p s = s\<lparr>k_mem := (k_mem s)\<lparr>mem := store64 (p_trapframe (procs s p) + off) v (mem (k_mem s))\<rparr>\<rparr>"

definition le_u64 :: "u8 list \<Rightarrow> u64" where
  "le_u64 bs = foldr (\<lambda>b v. ucast b OR push_bit 8 v) bs 0"

definition fetchaddr :: "nat \<Rightarrow> u64 \<Rightarrow> 'a kstate_scheme \<Rightarrow> u64 option option" where
  "fetchaddr p addr s =
     (let sz = p_sz (procs s p)
      in if addr \<ge> sz \<or> addr + 8 > sz then Some None
         else (case copyin (pagetable_of p s) addr 8 (k_mem s) of
                 None \<Rightarrow> None | Some (Inl e) \<Rightarrow> Some None | Some (Inr bs) \<Rightarrow> Some (Some (le_u64 bs))))"

definition fetchstr :: "nat \<Rightarrow> u64 \<Rightarrow> nat \<Rightarrow> 'a kstate_scheme \<Rightarrow> u8 list option option" where
  "fetchstr p addr mx s =
     (case copyinstr (pagetable_of p s) addr mx (k_mem s) of
        None \<Rightarrow> None | Some (Inl e) \<Rightarrow> Some None | Some (Inr bs) \<Rightarrow> Some (Some bs))"

definition argraw :: "nat \<Rightarrow> nat \<Rightarrow> 'a kstate_scheme \<Rightarrow> u64 option" where
  "argraw n p s = (if n \<le> 5 then Some (tf_get (tf_off_a0 + 8 * of_nat n) p s) else None)"

definition argint :: "nat \<Rightarrow> nat \<Rightarrow> 'a kstate_scheme \<Rightarrow> int option" where
  "argint n p s = map_option (\<lambda>v. sint (ucast v :: u32)) (argraw n p s)"

text \<open>
  A page of zeroes for a lazily allocated address: the address is above the stack page and below
  the limit. The result says whether the page is there now.
\<close>

definition above_stack :: "u64 \<Rightarrow> nat \<Rightarrow> 'a kstate_scheme \<Rightarrow> bool" where
  "above_stack va p s \<longleftrightarrow> PGROUNDUP (tf_get tf_off_sp p s) - 1 < va"

definition map_zero_page :: "u64 \<Rightarrow> nat \<Rightarrow> 'a kstate_scheme \<Rightarrow> (bool \<times> 'a kstate_scheme) option" where
  "map_zero_page va p s =
     (let (pa, m) = kalloc (k_mem s)
      in if pa = 0 then Some (False, s\<lparr>k_mem := m\<rparr>)
         else do {
           (r, m) \<leftarrow> mappages (pagetable_of p s) (PGROUNDDOWN va) PGSIZE pa (PTE_R OR PTE_W OR PTE_X OR PTE_U) (zero_page pa m);
           if r \<noteq> 0 then do { m \<leftarrow> kfree pa m; Some (False, s\<lparr>k_mem := m\<rparr>) }
           else Some (True, s\<lparr>k_mem := m\<rparr>)
         })"

definition argaddr :: "nat \<Rightarrow> nat \<Rightarrow> 'a kstate_scheme \<Rightarrow> (u64 option \<times> 'a kstate_scheme) option" where
  "argaddr n p s = do {
     v \<leftarrow> argraw n p s;
     if walkaddr (pagetable_of p s) v (k_mem s) = 0 then
       if above_stack v p s \<and> v < p_sz (procs s p) then do {
         (ok, s) \<leftarrow> map_zero_page v p s;
         Some (if ok then Some v else None, s)
       }
       else Some (None, s)
     else Some (Some v, s)
   }"

definition argstr :: "nat \<Rightarrow> nat \<Rightarrow> nat \<Rightarrow> 'a kstate_scheme \<Rightarrow> (u8 list option \<times> 'a kstate_scheme) option" where
  "argstr n mx p s = do {
     (a, s) \<leftarrow> argaddr n p s;
     (case a of None \<Rightarrow> Some (None, s) | Some addr \<Rightarrow> map_option (\<lambda>r. (r, s)) (fetchstr p addr mx s))
   }"

text \<open>Going on with an argument, or returning \<open>-1\<close>.\<close>

definition arg :: "('a option \<times> 's) option \<Rightarrow> ('a \<Rightarrow> 's \<Rightarrow> 's kres option) \<Rightarrow> 's kres option" where
  "arg r k = (case r of None \<Rightarrow> None | Some (None, s) \<Rightarrow> Some (Ret (- 1) s) | Some (Some v, s) \<Rightarrow> k v s)"

section \<open>Dispatch\<close>

text \<open>
  \<^verbatim>\<open>syscall\<close>: the table of handlers is a parameter, one for each number that has one. The
  result of a handler goes to \<^verbatim>\<open>a0\<close>; a call that sleeps has no result yet.
\<close>

definition syscall :: "(int \<Rightarrow> (nat \<Rightarrow> 'a kstate_scheme \<Rightarrow> 'a kstate_scheme kres option) option) \<Rightarrow>
    nat \<Rightarrow> 'a kstate_scheme \<Rightarrow> 'a kstate_scheme kres option" where
  "syscall handlers p s =
     (let num = sint (ucast (tf_get tf_off_a7 p s) :: u32)
      in if num > 0 then
           (case handlers num of
              Some h \<Rightarrow>
                (case h p s of
                   Some (Ret r s) \<Rightarrow> Some (Ret r (tf_set tf_off_a0 (of_int r) p s))
                 | other \<Rightarrow> other)
            | None \<Rightarrow> Some (Ret (- 1) (tf_set tf_off_a0 (- 1) p s)))
         else Some (Ret (- 1) (tf_set tf_off_a0 (- 1) p s)))"

end
