(* ===== verification/Sysfile.thy ===== *)
theory Sysfile
  imports Syscall
begin

text \<open>
  The file system calls, \<^verbatim>\<open>kernel/sysfile.c\<close>: descriptors of a process, path operations as
  transactions of the log, symbolic links, pipes, sockets and mapped files. \<open>p\<close> is the calling
  process; path names are byte lists.
\<close>

definition O_RDONLY :: u32 where "O_RDONLY = 0"
definition O_WRONLY :: u32 where "O_WRONLY = 1"
definition O_RDWR :: u32 where "O_RDWR = 2"
definition O_NOFOLLOW :: u32 where "O_NOFOLLOW = 4"
definition O_CREATE :: u32 where "O_CREATE = 0x200"
definition O_TRUNC :: u32 where "O_TRUNC = 0x400"
definition PROT_READ :: u32 where "PROT_READ = 1"
definition PROT_WRITE :: u32 where "PROT_WRITE = 2"
definition PROT_EXEC :: u32 where "PROT_EXEC = 4"
definition MAP_SHARED :: u32 where "MAP_SHARED = 1"
definition MAX_SYMLINK_DEPTH :: nat where "MAX_SYMLINK_DEPTH = 10"

section \<open>Descriptors\<close>

definition argfd :: "nat \<Rightarrow> nat \<Rightarrow> 'a kstate_scheme \<Rightarrow> (nat \<times> nat) option option" where
  "argfd n p s = do {
     fd \<leftarrow> argint n p s;
     if fd < 0 \<or> fd \<ge> int NOFILE then Some None
     else Some (map_option (Pair (nat fd)) (p_ofile (procs s p) (nat fd)))
   }"

definition set_ofile :: "nat \<Rightarrow> nat \<Rightarrow> nat option \<Rightarrow> 'a runq_scheme \<Rightarrow> 'a runq_scheme" where
  "set_ofile p fd v s = upd_proc p (\<lambda>x. x\<lparr>p_ofile := (p_ofile x)(fd := v)\<rparr>) s"

definition fdalloc :: "nat \<Rightarrow> nat \<Rightarrow> 'a runq_scheme \<Rightarrow> nat option \<times> 'a runq_scheme" where
  "fdalloc p f s =
     (case find (\<lambda>fd. p_ofile (procs s p) fd = None) [0..<NOFILE] of
        None \<Rightarrow> (None, s)
      | Some fd \<Rightarrow> (Some fd, set_ofile p fd (Some f) s))"

definition with_fd :: "nat \<Rightarrow> nat \<Rightarrow> 's \<Rightarrow> (nat \<times> nat) option option \<Rightarrow> (nat \<Rightarrow> nat \<Rightarrow> 's kres option) \<Rightarrow> 's kres option" where
  "with_fd n p s r k = (case r of None \<Rightarrow> None | Some None \<Rightarrow> Some (Ret (- 1) s) | Some (Some (fd, f)) \<Rightarrow> k fd f)"

definition sys_dup :: "nat \<Rightarrow> 'a kstate_scheme \<Rightarrow> 'a kstate_scheme kres option" where
  "sys_dup p s = with_fd 0 p s (argfd 0 p s) (\<lambda>_ f.
     (case fdalloc p f s of
        (None, s) \<Rightarrow> Some (Ret (- 1) s)
      | (Some fd, s) \<Rightarrow> map_option (Ret (int fd)) (filedup f s)))"

definition sys_read :: "'a kstate_scheme devsw \<Rightarrow> nat \<Rightarrow> 'a kstate_scheme \<Rightarrow> 'a kstate_scheme kres option" where
  "sys_read dev p s = with_fd 0 p s (argfd 0 p s) (\<lambda>_ f. do {
     n \<leftarrow> argint 2 p s;
     arg (argaddr 1 p s) (\<lambda>addr s. fileread dev p f addr n s)
   })"

definition sys_write :: "'a kstate_scheme devsw \<Rightarrow> nat \<Rightarrow> 'a kstate_scheme \<Rightarrow> 'a kstate_scheme kres option" where
  "sys_write dev p s = with_fd 0 p s (argfd 0 p s) (\<lambda>_ f. do {
     n \<leftarrow> argint 2 p s;
     arg (argaddr 1 p s) (\<lambda>addr s. filewrite dev p f addr n s)
   })"

definition sys_close :: "nat \<Rightarrow> 'a kstate_scheme \<Rightarrow> 'a kstate_scheme kres option" where
  "sys_close p s = with_fd 0 p s (argfd 0 p s) (\<lambda>fd f.
     map_option (Ret 0) (fileclose p f (set_ofile p fd None s)))"

definition sys_fstat :: "nat \<Rightarrow> 'a kstate_scheme \<Rightarrow> 'a kstate_scheme kres option" where
  "sys_fstat p s = with_fd 0 p s (argfd 0 p s) (\<lambda>_ f.
     arg (argaddr 1 p s) (\<lambda>st s. map_option (\<lambda>(r, s). Ret r s) (filestat p f st s)))"

text \<open>
  As the source has it: the descriptor \<open>newfd\<close> is closed but not cleared, and the lowest free
  one is used instead.
\<close>

definition sys_dup_new :: "nat \<Rightarrow> 'a kstate_scheme \<Rightarrow> 'a kstate_scheme kres option" where
  "sys_dup_new p s = with_fd 0 p s (argfd 0 p s) (\<lambda>_ f. do {
     newfd \<leftarrow> argint 1 p s;
     if newfd < 0 \<or> newfd \<ge> int NOFILE then Some (Ret (- 1) s)
     else do {
       s \<leftarrow> (case p_ofile (procs s p) (nat newfd) of None \<Rightarrow> Some s | Some g \<Rightarrow> fileclose p g s);
       (case fdalloc p f s of
          (None, s) \<Rightarrow> Some (Ret (- 1) s)
        | (Some fd, s) \<Rightarrow> map_option (Ret (int fd)) (filedup f s))
     }
   })"

section \<open>Path operations\<close>

text \<open>Ending the transaction with a result.\<close>

definition finish :: "int \<Rightarrow> fs \<Rightarrow> (int \<times> fs) option" where
  "finish r x = map_option (Pair r) (fs_end_op x)"

definition put_finish :: "int \<Rightarrow> nat \<Rightarrow> fs \<Rightarrow> (int \<times> fs) option" where
  "put_finish pid ip x = do { x \<leftarrow> iunlockput pid ip x; finish (- 1) x }"

definition link_bad :: "int \<Rightarrow> nat \<Rightarrow> fs \<Rightarrow> (int \<times> fs) option" where
  "link_bad pid ip x = do {
     x \<leftarrow> ilock pid ip x;
     x \<leftarrow> iupdate ip (upd_inode ip (\<lambda>i. i\<lparr>i_nlink := i_nlink i - 1\<rparr>) x);
     put_finish pid ip x
   }"

definition do_link :: "int \<Rightarrow> u8 list \<Rightarrow> u8 list \<Rightarrow> nat \<Rightarrow> kmem \<Rightarrow> fs \<Rightarrow> (int \<times> fs) option" where
  "do_link pid old new cwd m x = do {
     x \<leftarrow> fs_begin_op x;
     (r, x) \<leftarrow> namei pid old cwd m x;
     (case r of
        None \<Rightarrow> finish (- 1) x
      | Some ip \<Rightarrow> do {
          x \<leftarrow> ilock pid ip x;
          if i_type (icache x ip) = T_DIR then put_finish pid ip x
          else do {
            x \<leftarrow> iupdate ip (upd_inode ip (\<lambda>i. i\<lparr>i_nlink := i_nlink i + 1\<rparr>) x);
            x \<leftarrow> iunlock pid ip x;
            (r, x) \<leftarrow> nameiparent pid new cwd m x;
            (case r of
               None \<Rightarrow> link_bad pid ip x
             | Some (dp, name) \<Rightarrow> do {
                 x \<leftarrow> ilock pid dp x;
                 (r, x) \<leftarrow> (if i_dev (icache x dp) \<noteq> i_dev (icache x ip) then Some (- 1, x)
                           else dirlink pid dp name (i_inum (icache x ip)) m x);
                 x \<leftarrow> iunlockput pid dp x;
                 if r < 0 then link_bad pid ip x
                 else do { x \<leftarrow> iput pid ip x; finish 0 x }
               })
          }
        })
   }"

function dir_empty_from :: "nat \<Rightarrow> nat \<Rightarrow> kmem \<Rightarrow> nat \<Rightarrow> fs \<Rightarrow> (bool \<times> fs) option" where
  "dir_empty_from dp off m sz x =
     (if off < sz then
        (case read_dirent dp off m x of
           None \<Rightarrow> None
         | Some (de, x) \<Rightarrow> if de_inum de \<noteq> 0 then Some (False, x) else dir_empty_from dp (off + 16) m sz x)
      else Some (True, x))"
  by pat_completeness auto
termination
  by (relation "measure (\<lambda>(dp, off, m, sz, x). sz - off)") auto

definition isdirempty :: "nat \<Rightarrow> kmem \<Rightarrow> fs \<Rightarrow> (bool \<times> fs) option" where
  "isdirempty dp m x = dir_empty_from dp 32 m (unat (i_size (icache x dp))) x"

definition do_unlink :: "int \<Rightarrow> u8 list \<Rightarrow> nat \<Rightarrow> kmem \<Rightarrow> fs \<Rightarrow> (int \<times> fs) option" where
  "do_unlink pid path cwd m x = do {
     x \<leftarrow> fs_begin_op x;
     (r, x) \<leftarrow> nameiparent pid path cwd m x;
     (case r of
        None \<Rightarrow> finish (- 1) x
      | Some (dp, name) \<Rightarrow> do {
          x \<leftarrow> ilock pid dp x;
          if namecmp name [46] = 0 \<or> namecmp name [46, 46] = 0 then put_finish pid dp x
          else do {
            (r, x) \<leftarrow> dirlookup dp name m x;
            (case r of
               None \<Rightarrow> put_finish pid dp x
             | Some (ip, off) \<Rightarrow> do {
                 x \<leftarrow> ilock pid ip x;
                 if sint (i_nlink (icache x ip)) < 1 then None
                 else do {
                   (e, x) \<leftarrow> (if i_type (icache x ip) = T_DIR then isdirempty ip m x else Some (True, x));
                   if \<not> e then do { x \<leftarrow> iunlockput pid ip x; put_finish pid dp x }
                   else do {
                     (r, x) \<leftarrow> writei dp (KernelBuf (replicate 16 0)) (of_nat off) 16 m x;
                     if r \<noteq> 16 then None
                     else do {
                       x \<leftarrow> (if i_type (icache x ip) = T_DIR
                             then iupdate dp (upd_inode dp (\<lambda>i. i\<lparr>i_nlink := i_nlink i - 1\<rparr>) x) else Some x);
                       x \<leftarrow> iunlockput pid dp x;
                       x \<leftarrow> iupdate ip (upd_inode ip (\<lambda>i. i\<lparr>i_nlink := i_nlink i - 1\<rparr>) x);
                       x \<leftarrow> iunlockput pid ip x;
                       finish 0 x
                     }
                   }
                 }
               })
          }
        })
   }"

text \<open>\<^verbatim>\<open>create\<close> returns the locked inode; \<open>None\<close> inside is its null pointer.\<close>

definition create_dots :: "int \<Rightarrow> nat \<Rightarrow> nat \<Rightarrow> kmem \<Rightarrow> fs \<Rightarrow> fs option" where
  "create_dots pid dp ip m x = do {
     x \<leftarrow> iupdate dp (upd_inode dp (\<lambda>i. i\<lparr>i_nlink := i_nlink i + 1\<rparr>) x);
     (r, x) \<leftarrow> dirlink pid ip [46] (i_inum (icache x ip)) m x;
     if r < 0 then None
     else do {
       (r, x) \<leftarrow> dirlink pid ip [46, 46] (i_inum (icache x dp)) m x;
       if r < 0 then None else Some x
     }
   }"

definition create :: "int \<Rightarrow> u8 list \<Rightarrow> u8 \<Rightarrow> u16 \<Rightarrow> u16 \<Rightarrow> nat \<Rightarrow> kmem \<Rightarrow> fs \<Rightarrow> (nat option \<times> fs) option" where
  "create pid path ty major minor cwd m x = do {
     (r, x) \<leftarrow> nameiparent pid path cwd m x;
     (case r of
        None \<Rightarrow> Some (None, x)
      | Some (dp, name) \<Rightarrow> do {
          x \<leftarrow> ilock pid dp x;
          (r, x) \<leftarrow> dirlookup dp name m x;
          (case r of
             Some (ip, off) \<Rightarrow> do {
               x \<leftarrow> iunlockput pid dp x;
               x \<leftarrow> ilock pid ip x;
               if ty = T_FILE \<and> (i_type (icache x ip) = T_FILE \<or> i_type (icache x ip) = T_DEVICE) then Some (Some ip, x)
               else do { x \<leftarrow> iunlockput pid ip x; Some (None, x) }
             }
           | None \<Rightarrow> do {
               (ip, x) \<leftarrow> ialloc (i_dev (icache x dp)) ty x;
               x \<leftarrow> ilock pid ip x;
               x \<leftarrow> iupdate ip (upd_inode ip (\<lambda>i. i\<lparr>i_major := major, i_minor := minor, i_nlink := 1, i_type := ty\<rparr>) x);
               x \<leftarrow> (if ty = T_DIR then create_dots pid dp ip m x else Some x);
               (r, x) \<leftarrow> dirlink pid dp name (i_inum (icache x ip)) m x;
               if r < 0 then None else do { x \<leftarrow> iunlockput pid dp x; Some (Some ip, x) }
             })
        })
   }"

text \<open>Following symbolic links, at most \<^verbatim>\<open>MAX_SYMLINK_DEPTH\<close> of them.\<close>

primrec follow_links :: "nat \<Rightarrow> int \<Rightarrow> nat \<Rightarrow> nat \<Rightarrow> kmem \<Rightarrow> fs \<Rightarrow> (nat option \<times> fs) option" where
  "follow_links 0 pid ip cwd m x = Some (Some ip, x)"
| "follow_links (Suc n) pid ip cwd m x = do {
     (r, q, m', x) \<leftarrow> readi ip (KernelBuf []) 0 (of_nat MAXPATH) m x;
     (case q of
        UserAddr a b \<Rightarrow> None
      | KernelBuf path \<Rightarrow>
          if r \<noteq> MAXPATH then do { x \<leftarrow> iunlockput pid ip x; Some (None, x) }
          else do {
            x \<leftarrow> iunlockput pid ip x;
            (r, x) \<leftarrow> namei pid path cwd m x;
            (case r of
               None \<Rightarrow> Some (None, x)
             | Some ip \<Rightarrow> do {
                 x \<leftarrow> ilock pid ip x;
                 if i_type (icache x ip) \<noteq> T_SYMLINK then Some (Some ip, x) else follow_links n pid ip cwd m x
               })
          })
   }"

text \<open>The inode that \<^verbatim>\<open>sys_open\<close> opens, locked; \<open>None\<close> inside if it fails before a file is allocated.\<close>

definition open_inode :: "int \<Rightarrow> u8 list \<Rightarrow> u32 \<Rightarrow> nat \<Rightarrow> kmem \<Rightarrow> fs \<Rightarrow> (nat option \<times> fs) option" where
  "open_inode pid path omode cwd m x = do {
     (r, x) \<leftarrow> (if omode AND O_CREATE \<noteq> 0 then create pid path T_FILE 0 0 cwd m x
                else do {
                  (r, x) \<leftarrow> namei pid path cwd m x;
                  (case r of
                     None \<Rightarrow> Some (None, x)
                   | Some ip \<Rightarrow> do {
                       x \<leftarrow> ilock pid ip x;
                       if i_type (icache x ip) = T_DIR \<and> omode \<noteq> O_RDONLY
                       then do { x \<leftarrow> iunlockput pid ip x; Some (None, x) }
                       else Some (Some ip, x)
                     })
                });
     (case r of
        None \<Rightarrow> Some (None, x)
      | Some ip \<Rightarrow>
          if i_type (icache x ip) = T_DEVICE \<and> \<not> dev_ok (sint (i_major (icache x ip)))
          then do { x \<leftarrow> iunlockput pid ip x; Some (None, x) }
          else if i_type (icache x ip) = T_SYMLINK \<and> omode AND O_NOFOLLOW = 0 then do {
            (r, x) \<leftarrow> follow_links MAX_SYMLINK_DEPTH pid ip cwd m x;
            (case r of
               None \<Rightarrow> Some (None, x)
             | Some ip \<Rightarrow>
                 if i_type (icache x ip) = T_SYMLINK then do { x \<leftarrow> iunlockput pid ip x; Some (None, x) }
                 else Some (Some ip, x))
          }
          else Some (Some ip, x))
   }"

section \<open>The calls\<close>

text \<open>Running a path operation of the calling process on the file system of the state.\<close>

definition fs_call :: "nat \<Rightarrow> (int \<Rightarrow> nat \<Rightarrow> kmem \<Rightarrow> fs \<Rightarrow> (int \<times> fs) option) \<Rightarrow> 'a kstate_scheme \<Rightarrow> 'a kstate_scheme kres option" where
  "fs_call p f s = do {
     cwd \<leftarrow> p_cwd (procs s p);
     (r, x) \<leftarrow> f (pid_of p s) cwd (k_mem s) (k_fs s);
     Some (Ret r (s\<lparr>k_fs := x\<rparr>))
   }"

definition sys_link :: "nat \<Rightarrow> 'a kstate_scheme \<Rightarrow> 'a kstate_scheme kres option" where
  "sys_link p s = arg (argstr 0 MAXPATH p s) (\<lambda>old s. arg (argstr 1 MAXPATH p s) (\<lambda>new s.
     fs_call p (\<lambda>pid. do_link pid old new) s))"

definition sys_unlink :: "nat \<Rightarrow> 'a kstate_scheme \<Rightarrow> 'a kstate_scheme kres option" where
  "sys_unlink p s = arg (argstr 0 MAXPATH p s) (\<lambda>path s. fs_call p (\<lambda>pid. do_unlink pid path) s)"

definition open_file :: "nat \<Rightarrow> u32 \<Rightarrow> inode \<Rightarrow> filest \<Rightarrow> filest" where
  "open_file ip omode i f =
     (if i_type i = T_DEVICE then f\<lparr>f_type := FD_DEVICE, f_major := sint (i_major i)\<rparr> else f\<lparr>f_type := FD_INODE, f_off := 0\<rparr>)
       \<lparr>f_ip := ip, f_readable := (omode AND O_WRONLY = 0),
        f_writable := (omode AND O_WRONLY \<noteq> 0 \<or> omode AND O_RDWR \<noteq> 0)\<rparr>"

definition sys_open :: "nat \<Rightarrow> 'a kstate_scheme \<Rightarrow> 'a kstate_scheme kres option" where
  "sys_open p s = arg (argstr 0 MAXPATH p s) (\<lambda>path s. do {
     om \<leftarrow> argint 1 p s;
     cwd \<leftarrow> p_cwd (procs s p);
     let omode = of_int om;
     let pid = pid_of p s;
     x \<leftarrow> fs_begin_op (k_fs s);
     (r, x) \<leftarrow> open_inode pid path omode cwd (k_mem s) x;
     (case r of
        None \<Rightarrow> do { x \<leftarrow> fs_end_op x; Some (Ret (- 1) (s\<lparr>k_fs := x\<rparr>)) }
      | Some ip \<Rightarrow>
          let s = s\<lparr>k_fs := x\<rparr>
          in (case filealloc s of
                (None, s) \<Rightarrow> do {
                  x \<leftarrow> iunlockput pid ip (k_fs s);
                  x \<leftarrow> fs_end_op x;
                  Some (Ret (- 1) (s\<lparr>k_fs := x\<rparr>))
                }
              | (Some f, s) \<Rightarrow>
                  (case fdalloc p f s of
                     (None, s) \<Rightarrow> do {
                       s \<leftarrow> fileclose p f s;
                       x \<leftarrow> iunlockput pid ip (k_fs s);
                       x \<leftarrow> fs_end_op x;
                       Some (Ret (- 1) (s\<lparr>k_fs := x\<rparr>))
                     }
                   | (Some fd, s) \<Rightarrow>
                       let s = upd_file f (open_file ip omode (icache (k_fs s) ip)) s; x = k_fs s
                       in do {
                         x \<leftarrow> (if omode AND O_TRUNC \<noteq> 0 \<and> i_type (icache x ip) = T_FILE then itrunc ip x else Some x);
                         x \<leftarrow> iunlock pid ip x;
                         x \<leftarrow> fs_end_op x;
                         Some (Ret (int fd) (s\<lparr>k_fs := x\<rparr>))
                       })))
   })"

text \<open>Creating a node and unlocking it; the transaction begins before the arguments are fetched.\<close>

definition make_node :: "u8 list \<Rightarrow> u8 \<Rightarrow> u16 \<Rightarrow> u16 \<Rightarrow> int \<Rightarrow> nat \<Rightarrow> kmem \<Rightarrow> fs \<Rightarrow> (int \<times> fs) option" where
  "make_node path ty major minor pid cwd m x = do {
     (r, x) \<leftarrow> create pid path ty major minor cwd m x;
     (case r of None \<Rightarrow> finish (- 1) x | Some ip \<Rightarrow> do { x \<leftarrow> iunlockput pid ip x; finish 0 x })
   }"

definition begin_k :: "'a kstate_scheme \<Rightarrow> 'a kstate_scheme option" where
  "begin_k s = on_fs fs_begin_op s"

definition end_k :: "int \<Rightarrow> 'a kstate_scheme \<Rightarrow> 'a kstate_scheme kres option" where
  "end_k r s = map_option (Ret r) (on_fs fs_end_op s)"

text \<open>An argument of a call that is inside a transaction: if it is refused the transaction ends.\<close>

definition arg_in_op :: "('b option \<times> 'a kstate_scheme) option \<Rightarrow>
    ('b \<Rightarrow> 'a kstate_scheme \<Rightarrow> 'a kstate_scheme kres option) \<Rightarrow> 'a kstate_scheme kres option" where
  "arg_in_op r k = (case r of None \<Rightarrow> None | Some (None, s) \<Rightarrow> end_k (- 1) s | Some (Some v, s) \<Rightarrow> k v s)"

definition sys_mkdir :: "nat \<Rightarrow> 'a kstate_scheme \<Rightarrow> 'a kstate_scheme kres option" where
  "sys_mkdir p s = do {
     s \<leftarrow> begin_k s;
     arg_in_op (argstr 0 MAXPATH p s) (\<lambda>path s. fs_call p (make_node path T_DIR 0 0) s)
   }"

definition sys_mknod :: "nat \<Rightarrow> 'a kstate_scheme \<Rightarrow> 'a kstate_scheme kres option" where
  "sys_mknod p s = do {
     s \<leftarrow> begin_k s;
     arg_in_op (argstr 0 MAXPATH p s) (\<lambda>path s. do {
       major \<leftarrow> argint 1 p s;
       minor \<leftarrow> argint 2 p s;
       fs_call p (make_node path T_DEVICE (of_int major) (of_int minor)) s
     })
   }"

definition sys_chdir :: "nat \<Rightarrow> 'a kstate_scheme \<Rightarrow> 'a kstate_scheme kres option" where
  "sys_chdir p s = do {
     s \<leftarrow> begin_k s;
     arg_in_op (argstr 0 MAXPATH p s) (\<lambda>path s. do {
       cwd \<leftarrow> p_cwd (procs s p);
       let pid = pid_of p s;
       (r, x) \<leftarrow> namei pid path cwd (k_mem s) (k_fs s);
       (case r of
          None \<Rightarrow> end_k (- 1) (s\<lparr>k_fs := x\<rparr>)
        | Some ip \<Rightarrow> do {
            x \<leftarrow> ilock pid ip x;
            if i_type (icache x ip) \<noteq> T_DIR then do { x \<leftarrow> iunlockput pid ip x; end_k (- 1) (s\<lparr>k_fs := x\<rparr>) }
            else do {
              x \<leftarrow> iunlock pid ip x;
              x \<leftarrow> iput pid cwd x;
              x \<leftarrow> fs_end_op x;
              Some (Ret 0 (upd_proc p (\<lambda>y. y\<lparr>p_cwd := Some ip\<rparr>) (s\<lparr>k_fs := x\<rparr>)))
            }
          })
     })
   }"

definition do_symlink :: "u8 list \<Rightarrow> u8 list \<Rightarrow> int \<Rightarrow> nat \<Rightarrow> kmem \<Rightarrow> fs \<Rightarrow> (int \<times> fs) option" where
  "do_symlink buf path pid cwd m x = do {
     x \<leftarrow> fs_begin_op x;
     (r, x) \<leftarrow> create pid path T_SYMLINK 0 0 cwd m x;
     (case r of
        None \<Rightarrow> finish (- 1) x
      | Some ip \<Rightarrow> do {
          (r, x) \<leftarrow> writei ip (KernelBuf buf) 0 (of_nat MAXPATH) m x;
          x \<leftarrow> iunlockput pid ip x;
          finish (if r < int MAXPATH then - 1 else 0) x
        })
   }"

text \<open>
  The target is written with the whole path buffer; the bytes behind its NUL are what the kernel
  stack holds, the parameter \<open>junk\<close>.
\<close>

definition path_buffer :: "u8 list \<Rightarrow> u8 list \<Rightarrow> u8 list" where
  "path_buffer junk str = take MAXPATH (str @ [0] @ drop (length str + 1) junk)"

definition sys_symlink :: "u8 list \<Rightarrow> nat \<Rightarrow> 'a kstate_scheme \<Rightarrow> 'a kstate_scheme kres option" where
  "sys_symlink junk p s = arg (argstr 0 MAXPATH p s) (\<lambda>target s. arg (argstr 1 MAXPATH p s) (\<lambda>path s.
     fs_call p (do_symlink (path_buffer junk target) path) s))"

text \<open>\<^verbatim>\<open>sys_mkf\<close> returns with the inode still locked and referenced.\<close>

definition sys_mkf :: "nat \<Rightarrow> 'a kstate_scheme \<Rightarrow> 'a kstate_scheme kres option" where
  "sys_mkf p s = arg (argstr 0 MAXPATH p s) (\<lambda>path s. fs_call p (\<lambda>pid cwd m x. do {
     x \<leftarrow> fs_begin_op x;
     (r, x) \<leftarrow> create pid path T_FILE 0 0 cwd m x;
     (case r of None \<Rightarrow> finish (- 1) x | Some ip \<Rightarrow> do { x \<leftarrow> fs_end_op x; Some (uint (i_inum (icache x ip)), x) })
   }) s)"

definition do_chmod :: "u8 list \<Rightarrow> u8 \<Rightarrow> int \<Rightarrow> nat \<Rightarrow> kmem \<Rightarrow> fs \<Rightarrow> (int \<times> fs) option" where
  "do_chmod path mode pid cwd m x = do {
     x \<leftarrow> fs_begin_op x;
     (r, x) \<leftarrow> namei pid path cwd m x;
     (case r of
        None \<Rightarrow> finish (- 1) x
      | Some ip \<Rightarrow> do {
          x \<leftarrow> ilock pid ip x;
          x \<leftarrow> iupdate ip (upd_inode ip (\<lambda>i. i\<lparr>i_mode := mode\<rparr>) x);
          x \<leftarrow> iunlock pid ip x;
          finish 0 x
        })
   }"

definition sys_chmod :: "nat \<Rightarrow> 'a kstate_scheme \<Rightarrow> 'a kstate_scheme kres option" where
  "sys_chmod p s = arg (argstr 0 MAXPATH p s) (\<lambda>path s. do {
     mode \<leftarrow> argint 1 p s;
     fs_call p (do_chmod path (of_int mode)) s
   })"

text \<open>\<^verbatim>\<open>sys_geti\<close> copies the 13 block addresses and the size of an inode to the user.\<close>

definition u32_bytes :: "u32 \<Rightarrow> u8 list" where
  "u32_bytes v = [ucast v, ucast (drop_bit 8 v), ucast (drop_bit 16 v), ucast (drop_bit 24 v)]"

definition sys_geti :: "nat \<Rightarrow> 'a kstate_scheme \<Rightarrow> 'a kstate_scheme kres option" where
  "sys_geti p s = arg (argstr 0 MAXPATH p s) (\<lambda>path s. arg (argaddr 1 p s) (\<lambda>addrsout s. do {
     cwd \<leftarrow> p_cwd (procs s p);
     let pid = pid_of p s;
     x \<leftarrow> fs_begin_op (k_fs s);
     (r, x) \<leftarrow> namei pid path cwd (k_mem s) x;
     (case r of
        None \<Rightarrow> end_k (- 1) (s\<lparr>k_fs := x\<rparr>)
      | Some ip \<Rightarrow> do {
          x \<leftarrow> ilock pid ip x;
          let bs = concat (map (\<lambda>i. u32_bytes (i_addrs (icache x ip) i)) [0..<13]) @ u32_bytes (i_size (icache x ip));
          x \<leftarrow> iunlock pid ip x;
          x \<leftarrow> fs_end_op x;
          (r, m) \<leftarrow> copyout (pagetable_of p s) addrsout bs (k_mem s);
          Some (Ret (if r < 0 then - 1 else 0) (s\<lparr>k_fs := x, k_mem := m\<rparr>))
        })
   }))"

definition sys_recoveri :: "nat \<Rightarrow> 'a kstate_scheme \<Rightarrow> 'a kstate_scheme kres option" where
  "sys_recoveri p s = do {
     blockno \<leftarrow> argint 0 p s;
     arg (argaddr 1 p s) (\<lambda>bufout s. do {
       (r, m) \<leftarrow> copyout (pagetable_of p s) bufout
         (get_bytes 0 BSIZE (bdata (unat (of_int blockno :: u32)) (k_fs s))) (k_mem s);
       Some (Ret (if r < 0 then - 1 else 0) (s\<lparr>k_mem := m\<rparr>))
     })
   }"

definition sys_getcwd :: "nat \<Rightarrow> 'a kstate_scheme \<Rightarrow> 'a kstate_scheme kres option" where
  "sys_getcwd p s = arg (argaddr 0 p s) (\<lambda>addr s. do {
     (r, m) \<leftarrow> copyout (pagetable_of p s) addr [47, 0] (k_mem s);
     Some (Ret (if r < 0 then - 1 else uint addr) (s\<lparr>k_mem := m\<rparr>))
   })"

section \<open>Pipes, sockets and mapped files\<close>

definition close_both :: "nat \<Rightarrow> nat \<Rightarrow> nat \<Rightarrow> 'a kstate_scheme \<Rightarrow> 'a kstate_scheme kres option" where
  "close_both p rfile wfile s = do { s \<leftarrow> fileclose p rfile s; s \<leftarrow> fileclose p wfile s; Some (Ret (- 1) s) }"

definition sys_pipe :: "nat \<Rightarrow> 'a kstate_scheme \<Rightarrow> 'a kstate_scheme kres option" where
  "sys_pipe p s = arg (argaddr 0 p s) (\<lambda>fdarray s. arg (pipealloc p s) (\<lambda>(rfile, wfile) s.
     (case fdalloc p rfile s of
        (None, s) \<Rightarrow> close_both p rfile wfile s
      | (Some fd0, s) \<Rightarrow>
          (case fdalloc p wfile s of
             (None, s) \<Rightarrow> close_both p rfile wfile (set_ofile p fd0 None s)
           | (Some fd1, s) \<Rightarrow> do {
               (r, m) \<leftarrow> copyout (pagetable_of p s) fdarray (u32_bytes (of_nat fd0)) (k_mem s);
               (r, m) \<leftarrow> (if r < 0 then Some (r, m) else copyout (pagetable_of p s) (fdarray + 4) (u32_bytes (of_nat fd1)) m);
               let s = s\<lparr>k_mem := m\<rparr>;
               if r < 0 then close_both p rfile wfile (set_ofile p fd1 None (set_ofile p fd0 None s))
               else Some (Ret 0 s)
             }))))"

definition sys_connect :: "nat \<Rightarrow> 'a kstate_scheme \<Rightarrow> 'a kstate_scheme kres option" where
  "sys_connect p s = do {
     raddr \<leftarrow> argint 0 p s;
     lport \<leftarrow> argint 1 p s;
     rport \<leftarrow> argint 2 p s;
     arg (sockalloc p (of_int raddr) (of_int lport) (of_int rport) s) (\<lambda>f s.
       (case fdalloc p f s of
          (None, s) \<Rightarrow> map_option (Ret (- 1)) (fileclose p f s)
        | (Some fd, s) \<Rightarrow> Some (Ret (int fd) s)))
   }"

definition set_vma :: "nat \<Rightarrow> nat \<Rightarrow> (vm_area \<Rightarrow> vm_area) \<Rightarrow> 'a runq_scheme \<Rightarrow> 'a runq_scheme" where
  "set_vma p i f s = upd_proc p (\<lambda>x. x\<lparr>p_vma := (p_vma x)(i := f (p_vma x i))\<rparr>) s"

definition sys_mmap :: "nat \<Rightarrow> 'a kstate_scheme \<Rightarrow> 'a kstate_scheme kres option" where
  "sys_mmap p s = arg (argaddr 0 p s) (\<lambda>addr s. do {
     len \<leftarrow> argint 1 p s;
     prot \<leftarrow> argint 2 p s;
     flags \<leftarrow> argint 3 p s;
     with_fd 4 p s (argfd 4 p s) (\<lambda>vfd vfile. do {
       offset \<leftarrow> argint 5 p s;
       if addr \<noteq> 0 \<or> offset \<noteq> 0 \<or> len < 0 then Some (Ret (- 1) s)
       else if \<not> f_writable (k_file s vfile) \<and> of_int prot AND PROT_WRITE \<noteq> 0 \<and> of_int flags = MAP_SHARED then Some (Ret (- 1) s)
       else if p_sz (procs s p) + of_int len > MAXVA then Some (Ret (- 1) s)
       else
         (case find (\<lambda>i. \<not> vma_used (p_vma (procs s p) i)) [0..<NVMA] of
            None \<Rightarrow> Some (Ret (- 1) s)
          | Some i \<Rightarrow>
              let sz = p_sz (procs s p);
                  s = set_vma p i (\<lambda>_. \<lparr>vma_used = True, vma_addr = sz, vma_len = len, vma_prot = of_int prot, vma_flags = of_int flags,
                        vma_vfd = int vfd, vma_vfile = Some vfile, vma_offset = offset\<rparr>) s
              in do {
                s \<leftarrow> filedup vfile s;
                Some (Ret (uint sz) (upd_proc p (\<lambda>x. x\<lparr>p_sz := sz + of_int len\<rparr>) s))
              })
     })
   })"

text \<open>The area that \<^verbatim>\<open>munmap\<close> cuts, and what is left of it; the range is at its start or its end.\<close>

definition vma_at_start :: "u64 \<Rightarrow> int \<Rightarrow> vm_area \<Rightarrow> bool" where
  "vma_at_start addr len v \<longleftrightarrow> vma_used v \<and> vma_len v \<ge> len \<and> vma_addr v = addr"

definition vma_at_end :: "u64 \<Rightarrow> int \<Rightarrow> vm_area \<Rightarrow> bool" where
  "vma_at_end addr len v \<longleftrightarrow> vma_used v \<and> vma_len v \<ge> len \<and> addr + of_int len = vma_addr v + of_int (vma_len v)"

definition vma_cut :: "u64 \<Rightarrow> int \<Rightarrow> vm_area \<Rightarrow> vm_area" where
  "vma_cut addr len v =
     (if vma_at_start addr len v then v\<lparr>vma_addr := vma_addr v + of_int len, vma_len := wrap32 (vma_len v - len)\<rparr>
      else v\<lparr>vma_len := wrap32 (vma_len v - len)\<rparr>)"

definition sys_munmap :: "'a kstate_scheme devsw \<Rightarrow> nat \<Rightarrow> 'a kstate_scheme \<Rightarrow> 'a kstate_scheme kres option" where
  "sys_munmap dev p s = arg (argaddr 0 p s) (\<lambda>addr s. do {
     len \<leftarrow> argint 1 p s;
     (case find (\<lambda>i. vma_at_start addr len (p_vma (procs s p) i) \<or> vma_at_end addr len (p_vma (procs s p) i)) [0..<NVMA] of
        None \<Rightarrow> Some (Ret (- 1) s)
      | Some i \<Rightarrow> do {
          let s = set_vma p i (vma_cut addr len) s;
          let v = p_vma (procs s p) i;
          vfile \<leftarrow> vma_vfile v;
          s \<leftarrow> (if vma_flags v = MAP_SHARED \<and> vma_prot v AND PROT_WRITE \<noteq> 0
                then (case filewrite dev p vfile addr len s of Some (Ret r s) \<Rightarrow> Some s | _ \<Rightarrow> None)
                else Some s);
          m \<leftarrow> uvmunmap (pagetable_of p s) addr (of_int (c_div len 4096)) True (k_mem s);
          let s = s\<lparr>k_mem := m\<rparr>;
          if vma_len v = 0 then do { s \<leftarrow> fileclose p vfile s; Some (Ret 0 (set_vma p i (\<lambda>v. v\<lparr>vma_used := False\<rparr>) s)) }
          else Some (Ret 0 s)
        })
   })"

end
