(* ===== verification/Ulib.thy ===== *)
theory Ulib
  imports Memory "HOL-Library.Char_ord"
begin

text \<open>
  The C library of the user programs, \<^verbatim>\<open>user/program/ulib.c\<close>. Routines that write are on the
  byte-addressed memory of theory \<open>Memory\<close>, with pointers as addresses; those that only read
  a string take the list of its characters up to, and without, the terminating NUL.
\<close>

section \<open>Strings that are read\<close>

definition chr :: "char \<Rightarrow> int" where
  "chr c = of_char c"

fun u_strcmp :: "string \<Rightarrow> string \<Rightarrow> int" where
  "u_strcmp (c # p) (d # q) = (if c = d then u_strcmp p q else chr c - chr d)"
| "u_strcmp [] [] = 0"
| "u_strcmp [] (d # q) = - chr d"
| "u_strcmp (c # p) [] = chr c"

definition u_strlen :: "string \<Rightarrow> int" where
  "u_strlen s = wrap32 (int (length s))"

text \<open>The offset that \<^verbatim>\<open>strchr\<close> returns as a pointer; the search stops before the NUL.\<close>

fun strchr :: "string \<Rightarrow> char \<Rightarrow> nat option" where
  "strchr [] c = None"
| "strchr (d # s) c = (if d = c then Some 0 else map_option Suc (strchr s c))"

fun atoi_from :: "int \<Rightarrow> string \<Rightarrow> int" where
  "atoi_from n [] = n"
| "atoi_from n (c # s) =
     (if chr CHR ''0'' \<le> chr c \<and> chr c \<le> chr CHR ''9''
      then atoi_from (wrap32 (n * 10 + chr c - chr CHR ''0'')) s
      else n)"

definition atoi :: "string \<Rightarrow> int" where
  "atoi s = atoi_from 0 s"

section \<open>Memory that is written\<close>

partial_function (option) u_strcpy :: "u64 \<Rightarrow> u64 \<Rightarrow> memory \<Rightarrow> memory option" where
  "u_strcpy s t m =
     (let m' = m(s := m t)
      in if m t \<noteq> 0 then u_strcpy (s + 1) (t + 1) m' else Some m')"

definition u_memset :: "u64 \<Rightarrow> u8 \<Rightarrow> u32 \<Rightarrow> memory \<Rightarrow> memory" where
  "u_memset dst c n m = memset dst c (unat n) m"

definition u_memmove :: "u64 \<Rightarrow> u64 \<Rightarrow> int \<Rightarrow> memory \<Rightarrow> memory" where
  "u_memmove dst src n m =
     (if src > dst then copy_up dst src (nat n) m
      else copy_down (dst + of_int n) (src + of_int n) (nat n) m)"

definition u_memcmp :: "bytes_view \<Rightarrow> bytes_view \<Rightarrow> u32 \<Rightarrow> int" where
  "u_memcmp s1 s2 n = memcmp s1 s2 (unat n)"

definition u_memcpy :: "u64 \<Rightarrow> u64 \<Rightarrow> u32 \<Rightarrow> memory \<Rightarrow> memory" where
  "u_memcpy dst src n m = u_memmove dst src (sint n) m"

text \<open>\<^verbatim>\<open>gets\<close> reads standard input, the list of the bytes still to come, one at a time.\<close>

fun gets_from :: "nat \<Rightarrow> u64 \<Rightarrow> u8 list \<Rightarrow> memory \<Rightarrow> u8 list \<times> memory" where
  "gets_from 0 s input m = (input, m(s := 0))"
| "gets_from (Suc k) s [] m = ([], m(s := 0))"
| "gets_from (Suc k) s (c # input) m =
     (if c = 10 \<or> c = 13 then (input, m(s := c, s + 1 := 0)) else gets_from k (s + 1) input (m(s := c)))"

definition gets :: "u64 \<Rightarrow> int \<Rightarrow> u8 list \<Rightarrow> memory \<Rightarrow> u8 list \<times> memory" where
  "gets buf mx input m = gets_from (nat (mx - 1)) buf input m"

section \<open>What they compute\<close>

lemma chr_inject [simp]: "chr c = chr d \<longleftrightarrow> c = d"
  by (simp add: chr_def)

lemma chr_0_iff: "chr c = 0 \<longleftrightarrow> c = CHR 0x00"
proof -
  have "chr CHR 0x00 = 0" by (simp add: chr_def)
  then show ?thesis by (metis chr_inject)
qed

text \<open>\<^verbatim>\<open>strcmp\<close> returns zero exactly on equal strings.\<close>

lemma u_strcmp_0_iff: "CHR 0x00 \<notin> set p \<Longrightarrow> CHR 0x00 \<notin> set q \<Longrightarrow> u_strcmp p q = 0 \<longleftrightarrow> p = q"
  by (induction p q rule: u_strcmp.induct) (auto simp: chr_0_iff)

lemma strchr_Some: "strchr s c = Some i \<longleftrightarrow> i < length s \<and> s ! i = c \<and> c \<notin> set (take i s)"
proof (induction s arbitrary: i)
  case (Cons d s)
  then show ?case by (cases i) auto
qed simp

lemma strchr_None: "strchr s c = None \<longleftrightarrow> c \<notin> set s"
  by (induction s) auto

text \<open>
  The user library's \<^verbatim>\<open>memmove\<close> decides by the order of the two pointers alone, the kernel's by
  whether the blocks overlap; both move the block as if through a temporary copy.
\<close>

lemma u_memmove_bytes:
  assumes "0 \<le> n" and "unat dst + nat n < 2 ^ 64" and "unat src + nat n < 2 ^ 64"
  shows "u_memmove dst src n m a = memmove dst src (nat n) m a"
proof -
  have n: "nat n < 2 ^ 64" using assms by simp
  have neg: "nat n \<le> unat (x - y)" if "x < y" "unat y + nat n < 2 ^ 64" for x y :: u64
  proof -
    have "unat (x - y) = 2 ^ 64 - (unat y - unat x)"
      using that(1) by (simp add: unat_sub_if_size word_le_nat_alt word_less_nat_alt word_size)
    with that show ?thesis by (simp add: word_less_nat_alt)
  qed
  have i: "of_int n = (of_nat (nat n) :: u64)" using assms(1) by simp
  show ?thesis unfolding memmove_bytes [OF assms(2,3)] u_memmove_def i
    using neg [of dst src] neg [of src dst] copy_up_apply [OF n, of dst src m a] copy_down_apply [OF n, of dst src m a] assms
    by (cases "dst = src") (auto simp: not_less)
qed

text \<open>Copying a string moves the bytes up to and including the NUL, when the blocks do not overlap.\<close>

lemma u_strcpy_copies:
  assumes "m (t + of_nat k) = 0" "\<And>i. i < k \<Longrightarrow> m (t + of_nat i) \<noteq> 0"
    and "k < 2 ^ 63" and "\<And>i j. i \<le> k \<Longrightarrow> j \<le> k \<Longrightarrow> s + of_nat i \<noteq> t + of_nat j"
  shows "u_strcpy s t m = Some (copy_up s t (Suc k) m)"
  using assms
proof (induction k arbitrary: s t m)
  case 0
  then show ?case by (subst u_strcpy.simps) simp
next
  case (Suc k)
  let ?m = "m(s := m t)"
  have ne: "t + of_nat j \<noteq> s" if "j \<le> Suc k" for j using Suc.prems(4) [of 0 j] that by auto
  have "u_strcpy (s + 1) (t + 1) ?m = Some (copy_up (s + 1) (t + 1) (Suc k) ?m)"
  proof (rule Suc.IH)
    show "?m (t + 1 + of_nat k) = 0" using Suc.prems(1) ne [of "Suc k"] by (simp add: ac_simps)
    show "?m (t + 1 + of_nat i) \<noteq> 0" if "i < k" for i
      using Suc.prems(2) [of "Suc i"] ne [of "Suc i"] that by (simp add: ac_simps)
    show "s + 1 + of_nat i \<noteq> t + 1 + of_nat j" if "i \<le> k" "j \<le> k" for i j
      using Suc.prems(4) [of "Suc i" "Suc j"] that by (simp add: ac_simps)
  qed (use Suc.prems in simp)
  then show ?case using Suc.prems(2) [of 0] by (subst u_strcpy.simps) simp
qed

text \<open>A line is read up to its end, the limit or the end of the input; nothing of the rest is lost.\<close>

fun line_of :: "nat \<Rightarrow> u8 list \<Rightarrow> u8 list" where
  "line_of 0 xs = []"
| "line_of (Suc k) [] = []"
| "line_of (Suc k) (c # xs) = (if c = 10 \<or> c = 13 then [c] else c # line_of k xs)"

lemma gets_reads_line: "fst (gets_from k s input m) = drop (length (line_of k input)) input"
  by (induction k s input m rule: gets_from.induct) (auto simp: fun_upd_def)

lemma gets_prefix: "take (length (line_of k input)) input = line_of k input \<and> length (line_of k input) \<le> k"
  by (induction k input rule: line_of.induct) auto

lemma gets_outside:
  "k < 2 ^ 64 - 1 \<Longrightarrow> \<not> unat (a - s) < Suc k \<Longrightarrow> snd (gets_from k s input m) a = m a"
proof (induction k s input m rule: gets_from.induct)
  case (3 k s c input m)
  then have "a \<noteq> s" "\<not> unat (a - (s + 1)) < Suc k" by (auto simp: unat_offset_Suc)
  moreover from this have "a \<noteq> s + 1" by auto
  ultimately show ?case using 3 by (auto simp: fun_upd_def)
qed auto

lemma gets_stores:
  "k < 2 ^ 63 \<Longrightarrow> i < length (line_of k input) \<Longrightarrow> snd (gets_from k s input m) (s + of_nat i) = line_of k input ! i"
proof (induction k s input m arbitrary: i rule: gets_from.induct)
  case (3 k s c input m)
  show ?case
  proof (cases i)
    case 0
    have "\<not> unat (s - (s + 1)) < Suc k" using 3(2) by (intro unat_minus_self_plus) simp
    then have "snd (gets_from k (s + 1) input (m(s := c))) s = c" using gets_outside 3(2) by simp
    then show ?thesis using 0 by auto
  next
    case (Suc j)
    then have c: "\<not> (c = 10 \<or> c = 13)" and j: "j < length (line_of k input)" using 3(3) by (auto split: if_splits)
    have "snd (gets_from k (s + 1) input (m(s := c))) (s + 1 + of_nat j) = line_of k input ! j"
      using 3(1) [OF c _ j] 3(2) by (simp add: fun_upd_def)
    moreover have "s + of_nat i = s + 1 + of_nat j" using Suc by simp
    ultimately show ?thesis using c Suc by (simp only: gets_from.simps line_of.simps if_False nth_Cons_Suc)
  qed
qed auto

lemma gets_terminates:
  "k < 2 ^ 63 \<Longrightarrow> snd (gets_from k s input m) (s + of_nat (length (line_of k input))) = 0"
  by (induction k s input m rule: gets_from.induct) (auto simp: ac_simps fun_upd_def)

end
