(* ===== verification/Printf.thy ===== *)
theory Printf
  imports Ulib
begin

text \<open>
  Formatted output: \<^verbatim>\<open>kernel/lib/printf.c\<close> and \<^verbatim>\<open>user/program/printf.c\<close>. The output is the
  list of the characters passed to \<^verbatim>\<open>consputc\<close> or \<^verbatim>\<open>putc\<close>. The variable arguments are a
  list of tagged values; \<open>None\<close> is a \<^verbatim>\<open>va_arg\<close> of a missing argument or one of another
  type, which C leaves undefined, a panic, or a loop that does not end.
\<close>

section \<open>Numbers\<close>

definition k_digits :: string where "k_digits = ''0123456789abcdef''"
definition u_digits :: string where "u_digits = ''0123456789ABCDEF''"

text \<open>The \<^verbatim>\<open>do\<close> loop that both files have: the digits, least significant first.\<close>

partial_function (option) print_digits :: "string \<Rightarrow> u32 \<Rightarrow> u32 \<Rightarrow> string option" where
  "print_digits ds base x =
     (if x div base \<noteq> 0
      then Option.bind (print_digits ds base (x div base)) (\<lambda>b. Some (ds ! unat (x mod base) # b))
      else Some [ds ! unat (x mod base)])"

definition k_printint :: "int \<Rightarrow> u32 \<Rightarrow> bool \<Rightarrow> string option" where
  "k_printint xx base sign = do {
     let sign = (sign \<and> xx < 0);
     let x = (if sign then - of_int xx else of_int xx);
     buf \<leftarrow> print_digits k_digits base x;
     Some (rev (if sign then buf @ ''-'' else buf))
   }"

definition u_printint :: "int \<Rightarrow> u32 \<Rightarrow> bool \<Rightarrow> string option" where
  "u_printint xx base sg = do {
     let neg = (sg \<and> xx < 0);
     let x = (if neg then - of_int xx else of_int xx);
     buf \<leftarrow> print_digits u_digits base x;
     Some (rev (if neg then buf @ ''-'' else buf))
   }"

primrec ptr_digits :: "string \<Rightarrow> nat \<Rightarrow> u64 \<Rightarrow> string" where
  "ptr_digits ds 0 x = []"
| "ptr_digits ds (Suc n) x = ds ! unat (drop_bit 60 x) # ptr_digits ds n (push_bit 4 x)"

definition k_printptr :: "u64 \<Rightarrow> string" where
  "k_printptr x = ''0x'' @ ptr_digits k_digits 16 x"

definition u_printptr :: "u64 \<Rightarrow> string" where
  "u_printptr x = ''0x'' @ ptr_digits u_digits 16 x"

section \<open>Formats\<close>

datatype varg = VInt int | VLong u64 | VStr "string option"

definition emit :: "string \<Rightarrow> string option \<Rightarrow> string option" where
  "emit s r = map_option (append s) r"

text \<open>The kernel's \<^verbatim>\<open>printf\<close>, which returns to the head of the loop after each conversion.\<close>

fun k_printf :: "string \<Rightarrow> varg list \<Rightarrow> string option" where
  "k_printf [] as = Some []"
| "k_printf (c # fmt) as =
     (if c \<noteq> CHR ''%'' then emit [c] (k_printf fmt as)
      else
        (case fmt of
           [] \<Rightarrow> Some []
         | d # fmt \<Rightarrow>
             if d = CHR ''d'' then
               (case as of VInt i # as \<Rightarrow> do { s \<leftarrow> k_printint i 10 True; emit s (k_printf fmt as) } | _ \<Rightarrow> None)
             else if d = CHR ''x'' then
               (case as of VInt i # as \<Rightarrow> do { s \<leftarrow> k_printint i 16 True; emit s (k_printf fmt as) } | _ \<Rightarrow> None)
             else if d = CHR ''p'' then
               (case as of VLong p # as \<Rightarrow> emit (k_printptr p) (k_printf fmt as) | _ \<Rightarrow> None)
             else if d = CHR ''s'' then
               (case as of
                  VStr s # as \<Rightarrow> emit (case s of None \<Rightarrow> ''(null)'' | Some s \<Rightarrow> s) (k_printf fmt as)
                | _ \<Rightarrow> None)
             else if d = CHR ''%'' then emit ''%'' (k_printf fmt as)
             else emit [CHR ''%'', d] (k_printf fmt as)))"

text \<open>What a panic prints before the machine stops; the message is itself used as a format.\<close>

definition panic_output :: "string \<Rightarrow> string option" where
  "panic_output s = do {
     a \<leftarrow> k_printf ''panic: '' [];
     b \<leftarrow> k_printf s [];
     c \<leftarrow> k_printf [CHR 0x0A] [];
     Some (a @ b @ c)
   }"

text \<open>The user library's \<^verbatim>\<open>vprintf\<close> is a state machine: \<open>pct\<close> is \<^verbatim>\<open>state == '%'\<close>.\<close>

fun vprintf :: "bool \<Rightarrow> string \<Rightarrow> varg list \<Rightarrow> string option" where
  "vprintf pct [] as = Some []"
| "vprintf False (c # fmt) as = (if c = CHR ''%'' then vprintf True fmt as else emit [c] (vprintf False fmt as))"
| "vprintf True (c # fmt) as =
     (if c = CHR ''d'' then
        (case as of VInt i # as \<Rightarrow> do { s \<leftarrow> u_printint i 10 True; emit s (vprintf False fmt as) } | _ \<Rightarrow> None)
      else if c = CHR ''l'' then
        (case as of VLong i # as \<Rightarrow> do { s \<leftarrow> u_printint (sint (ucast i :: u32)) 10 False; emit s (vprintf False fmt as) } | _ \<Rightarrow> None)
      else if c = CHR ''x'' then
        (case as of VInt i # as \<Rightarrow> do { s \<leftarrow> u_printint i 16 False; emit s (vprintf False fmt as) } | _ \<Rightarrow> None)
      else if c = CHR ''p'' then
        (case as of VLong p # as \<Rightarrow> emit (u_printptr p) (vprintf False fmt as) | _ \<Rightarrow> None)
      else if c = CHR ''s'' then
        (case as of
           VStr s # as \<Rightarrow> emit (case s of None \<Rightarrow> ''(null)'' | Some s \<Rightarrow> s) (vprintf False fmt as)
         | _ \<Rightarrow> None)
      else if c = CHR ''c'' then
        (case as of VInt i # as \<Rightarrow> emit [char_of (nat (i mod 256))] (vprintf False fmt as) | _ \<Rightarrow> None)
      else if c = CHR ''%'' then emit [c] (vprintf False fmt as)
      else emit [CHR ''%'', c] (vprintf False fmt as))"

definition u_printf :: "string \<Rightarrow> varg list \<Rightarrow> string option" where
  "u_printf fmt as = vprintf False fmt as"

section \<open>The number that is printed\<close>

text \<open>The value of a digit string, most significant digit first, and of one with a sign.\<close>

definition digit_val :: "string \<Rightarrow> char \<Rightarrow> nat" where
  "digit_val ds c = the (strchr ds c)"

definition num_val :: "string \<Rightarrow> nat \<Rightarrow> string \<Rightarrow> nat" where
  "num_val ds b s = foldl (\<lambda>n c. b * n + digit_val ds c) 0 s"

definition signed_val :: "string \<Rightarrow> nat \<Rightarrow> string \<Rightarrow> int" where
  "signed_val ds b s = (if s \<noteq> [] \<and> hd s = CHR ''-'' then - int (num_val ds b (tl s)) else int (num_val ds b s))"

definition digit_table :: "string \<Rightarrow> bool" where
  "digit_table ds \<longleftrightarrow> length ds = 16 \<and> distinct ds \<and> CHR ''-'' \<notin> set ds"

lemma digit_tables: "digit_table k_digits" "digit_table u_digits"
  by (simp_all add: digit_table_def k_digits_def u_digits_def)

lemma digit_val_nth: "digit_table ds \<Longrightarrow> i < 16 \<Longrightarrow> digit_val ds (ds ! i) = i"
proof -
  assume "digit_table ds" "i < 16"
  then have "strchr ds (ds ! i) = Some i" by (auto simp: strchr_Some digit_table_def in_set_conv_nth nth_eq_iff_index_eq)
  then show ?thesis by (simp add: digit_val_def)
qed

lemma num_val_snoc: "num_val ds b (s @ [c]) = b * num_val ds b s + digit_val ds c"
  by (simp add: num_val_def)

lemma print_digits_val:
  assumes "digit_table ds" and b: "2 \<le> unat base" "unat base \<le> 16" and k: "unat x < unat base ^ Suc k"
  shows "\<exists>s. print_digits ds base x = Some s \<and> num_val ds (unat base) (rev s) = unat x \<and> s \<noteq> [] \<and>
    length s \<le> Suc k \<and> set s \<subseteq> set (take (unat base) ds)"
  using k
proof (induction k arbitrary: x)
  case 0
  let ?i = "unat x mod unat base"
  have i: "?i < unat base" "ds ! ?i \<in> set (take (unat base) ds)"
    using b assms(1) by (auto simp: in_set_conv_nth digit_table_def intro!: exI [of _ ?i])
  have "x div base = 0" using 0 by (simp add: word_unat_eq_iff unat_div)
  then have "print_digits ds base x = Some [ds ! ?i]" by (subst print_digits.simps) (simp add: unat_mod)
  moreover have "?i = unat x" using 0 by simp
  ultimately show ?case using digit_val_nth [OF assms(1), of ?i] i b by (auto simp: num_val_def)
next
  case (Suc k)
  let ?i = "unat x mod unat base"
  have i: "?i < unat base" "ds ! ?i \<in> set (take (unat base) ds)"
    using b assms(1) by (auto simp: in_set_conv_nth digit_table_def intro!: exI [of _ ?i])
  have dv: "digit_val ds (ds ! ?i) = ?i" using digit_val_nth [OF assms(1), of ?i] i b by simp
  show ?case
  proof (cases "x div base = 0")
    case True
    then have "print_digits ds base x = Some [ds ! ?i]" by (subst print_digits.simps) (simp add: unat_mod)
    moreover have "?i = unat x"
      using True b by (simp add: word_unat_eq_iff unat_div div_eq_0_iff)
    ultimately show ?thesis using dv i by (auto simp: num_val_def)
  next
    case False
    have "unat (x div base) < unat base ^ Suc k"
      using Suc.prems b by (simp add: unat_div less_mult_imp_div_less ac_simps)
    from Suc.IH [OF this] obtain s where s: "print_digits ds base (x div base) = Some s"
      "num_val ds (unat base) (rev s) = unat (x div base)" "length s \<le> Suc k" "set s \<subseteq> set (take (unat base) ds)" by blast
    then have "print_digits ds base x = Some (ds ! ?i # s)" using False by (subst print_digits.simps) (simp add: unat_mod)
    moreover have "num_val ds (unat base) (rev (ds ! ?i # s)) = unat x"
      using s(2) dv by (simp add: num_val_snoc unat_div)
    ultimately show ?thesis using s i by auto
  qed
qed

lemma printint_ok:
  assumes ds: "digit_table ds" and xx: "is_int32 xx" and b: "base = 10 \<or> base = 16"
    and neg: "neg \<longleftrightarrow> sg \<and> xx < 0" and x: "x = (if neg then - of_int xx else of_int xx :: u32)"
  shows "\<exists>s. print_digits ds base x = Some s \<and> length s + of_bool neg \<le> 11 \<and> set s \<subseteq> set (take (unat base) ds) \<and>
    signed_val ds (unat base) (rev (if neg then s @ ''-'' else s)) = (if sg then xx else xx mod 2 ^ 32)"
proof -
  have ub: "2 \<le> unat base" "unat base \<le> 16" using b by auto
  have "(10 :: nat) ^ Suc 9 \<le> unat base ^ Suc 9" using b by auto
  then have "unat x < unat base ^ Suc 9" using unat_u32_less [of x] by simp
  from print_digits_val [OF ds ub this] obtain s where s: "print_digits ds base x = Some s"
    "num_val ds (unat base) (rev s) = unat x" "s \<noteq> []" "length s \<le> Suc 9" "set s \<subseteq> set (take (unat base) ds)" by blast
  have ux: "int (unat x) = (if neg then - xx else xx mod 2 ^ 32)"
  proof (cases neg)
    case True
    then have "x = of_int (- xx)" using x by simp
    then have "uint x = take_bit 32 (- xx)" by (simp only: uint_word_of_int_eq) simp
    moreover have "0 \<le> - xx" "- xx < 2 ^ 32" using xx neg True by (auto simp: is_int32_def)
    ultimately show ?thesis using True by (simp add: take_bit_int_eq_self)
  next
    case False
    then show ?thesis using x by (simp add: take_bit_eq_mod uint_word_of_int_eq)
  qed
  have "hd (rev s) \<in> set s" using s(3) by (metis hd_in_set rev_is_Nil_conv set_rev)
  then have "hd (rev s) \<noteq> CHR ''-''" using s(5) ds set_take_subset [of "unat base" ds] by (auto simp: digit_table_def)
  then have "signed_val ds (unat base) (rev (if neg then s @ ''-'' else s)) = (if neg then - int (unat x) else int (unat x))"
    using s(2) by (simp add: signed_val_def)
  also have "\<dots> = (if sg then xx else xx mod 2 ^ 32)"
    using ux neg xx by (auto simp: is_int32_def)
  finally show ?thesis using s by auto
qed

text \<open>
  C36. Numbers are printed right: for every \<^verbatim>\<open>int\<close>, in base 10 and 16, the kernel's and the
  user library's \<^verbatim>\<open>printint\<close> end, never use more than 11 of the 16 bytes of their buffer, and
  print a numeral whose value is the number, or the number modulo \<open>2^32\<close> when it is printed
  unsigned.
\<close>

theorem printint_value:
  assumes "is_int32 xx" and "base = 10 \<or> base = 16"
  shows "(\<exists>s. k_printint xx base sg = Some s \<and> length s \<le> 11 \<and>
      signed_val k_digits (unat base) s = (if sg then xx else xx mod 2 ^ 32)) \<and>
    (\<exists>s. u_printint xx base sg = Some s \<and> length s \<le> 11 \<and>
      signed_val u_digits (unat base) s = (if sg then xx else xx mod 2 ^ 32))"
  using printint_ok [OF digit_tables(1) assms refl refl, of sg] printint_ok [OF digit_tables(2) assms refl refl, of sg]
  by (auto simp: k_printint_def u_printint_def Let_def)

theorem printint_value_witness:
  "(\<exists>s. k_printint (- 2147483648) 10 True = Some s \<and> length s \<le> 11 \<and> signed_val k_digits 10 s = - 2147483648) \<and>
    (\<exists>s. u_printint (- 2147483648) 10 True = Some s \<and> length s \<le> 11 \<and> signed_val u_digits 10 s = - 2147483648)"
  using printint_value [of "- 2147483648" 10 True] by (simp add: is_int32_def)

text \<open>\<^verbatim>\<open>atoi\<close> reads back what \<^verbatim>\<open>printf("%d")\<close> printed, for a number that is not negative.\<close>

lemma chr_digits: "\<forall>c \<in> set (take 10 u_digits). chr CHR ''0'' \<le> chr c \<and> chr c \<le> chr CHR ''9'' \<and>
    int (digit_val u_digits c) = chr c - chr CHR ''0''"
  by code_simp

lemma num_val_fold_mono: "n \<le> foldl (\<lambda>n c. 10 * n + digit_val ds c) n s"
proof (induction s arbitrary: n)
  case (Cons c s)
  show ?case using Cons [of "10 * n + digit_val ds c"] by simp
qed simp

lemma atoi_from_val:
  assumes "set s \<subseteq> set (take 10 u_digits)" and "foldl (\<lambda>n c. 10 * n + digit_val u_digits c) n s < 2 ^ 31"
  shows "atoi_from (int n) s = int (foldl (\<lambda>n c. 10 * n + digit_val u_digits c) n s)"
  using assms
proof (induction s arbitrary: n)
  case (Cons c s)
  let ?n = "10 * n + digit_val u_digits c"
  have c: "chr CHR ''0'' \<le> chr c \<and> chr c \<le> chr CHR ''9'' \<and> int (digit_val u_digits c) = chr c - chr CHR ''0''"
    using Cons.prems(1) by (intro bspec [OF chr_digits]) auto
  have "?n < 2 ^ 31" using Cons.prems(2) num_val_fold_mono [of ?n u_digits s] by simp
  then have "wrap32 (int n * 10 + chr c - chr CHR ''0'') = int ?n"
    using c by (subst wrap32_id) (auto simp: is_int32_def)
  then show ?case using Cons.IH [of ?n] Cons.prems c by simp
qed simp

lemma atoi_printint:
  assumes "0 \<le> xx" and "xx < 2 ^ 31"
  shows "\<exists>s. u_printint xx 10 True = Some s \<and> atoi s = xx"
proof -
  have xx: "is_int32 xx" using assms by (simp add: is_int32_def)
  obtain s where s: "print_digits u_digits 10 (of_int xx) = Some s" "set s \<subseteq> set (take 10 u_digits)"
    "signed_val u_digits 10 (rev s) = xx"
    using printint_ok [OF digit_tables(2) xx _ refl refl, of 10 True] assms by auto
  have "hd (rev s) \<noteq> CHR ''-''" if "s \<noteq> []"
  proof -
    have "hd (rev s) \<in> set (take 10 u_digits)" using that s(2) by (metis hd_in_set rev_is_Nil_conv set_rev subsetD)
    then show ?thesis by (auto simp: u_digits_def)
  qed
  then have v: "int (num_val u_digits 10 (rev s)) = xx" using s(3) by (auto simp: signed_val_def split: if_splits)
  then have "int (num_val u_digits 10 (rev s)) < int (2 ^ 31)" using assms by simp
  then have "num_val u_digits 10 (rev s) < 2 ^ 31" by (simp only: of_nat_less_iff)
  then have "atoi (rev s) = xx"
    using v s(2) atoi_from_val [of "rev s" 0] by (simp add: atoi_def num_val_def)
  then show ?thesis using s(1) assms by (simp add: u_printint_def Let_def)
qed

text \<open>A pointer is printed as its 16 hexadecimal digits.\<close>

lemma ptr_digits_val:
  assumes "digit_table ds" and "n \<le> 16"
  shows "foldl (\<lambda>a c. 16 * a + digit_val ds c) v (ptr_digits ds n x) = 16 ^ n * v + unat x div 16 ^ (16 - n)"
  using assms(2)
proof (induction n arbitrary: x v)
  case (Suc n)
  define d r q where "d = unat x div 2 ^ 60" "r = unat x mod 2 ^ 60" "q = (16 :: nat) ^ (15 - n)"
  have x: "unat x = d * 2 ^ 60 + r" and r: "r < 2 ^ 60" by (simp_all add: d_r_q_def)
  have "d < 16" using unat_u64_less [of x] by (simp add: d_r_q_def less_mult_imp_div_less)
  moreover have "unat (drop_bit 60 x) = d"
    using unat_u64_less [of x] by (simp only: d_r_q_def unsigned_drop_bit_eq) (simp add: drop_bit_eq_div take_bit_nat_eq_self)
  ultimately have dv: "digit_val ds (ds ! unat (drop_bit 60 x)) = d" using digit_val_nth [OF assms(1)] by simp
  have "unat (push_bit 4 x) = (16 * unat x) mod 2 ^ 64"
    by (simp add: push_bit_eq_mult unat_word_ariths take_bit_eq_mod mult.commute)
  also have "16 * unat x = 16 * r + d * 2 ^ 64" using x by simp
  also have "(16 * r + d * 2 ^ 64) mod 2 ^ 64 = 16 * r" using r by (simp only: mod_mult_self1) simp
  finally have sh: "unat (push_bit 4 x) = 16 * r" .
  have e: "16 - n = Suc (15 - n)" using Suc.prems by simp
  have p60: "(2 :: nat) ^ 60 = 16 ^ n * q"
  proof -
    have "16 ^ n * q = (16 :: nat) ^ (n + (15 - n))" by (simp only: d_r_q_def power_add)
    also have "n + (15 - n) = 15" using Suc.prems by simp
    finally show ?thesis by simp
  qed
  have "unat x div q = 16 ^ n * d + r div q"
  proof -
    have "unat x = r + (16 ^ n * d) * q" unfolding x p60 by (simp add: ac_simps)
    moreover have "q \<noteq> 0" by (simp add: d_r_q_def)
    ultimately show ?thesis by (simp add: div_mult_self1)
  qed
  moreover have "16 * r div 16 ^ (16 - n) = r div q" by (simp add: e d_r_q_def)
  ultimately show ?case
    using Suc.IH [of "16 * v + d" "push_bit 4 x"] Suc.prems dv sh by (simp add: d_r_q_def(3) algebra_simps)
next
  case 0
  show ?case using unat_u64_less [of x] by simp
qed

lemma length_ptr_digits: "length (ptr_digits ds n x) = n"
  by (induction n arbitrary: x) simp_all

lemma printptr_value:
  "num_val k_digits 16 (drop 2 (k_printptr x)) = unat x" "num_val u_digits 16 (drop 2 (u_printptr x)) = unat x"
  using ptr_digits_val [OF digit_tables(1), of 16 0 x] ptr_digits_val [OF digit_tables(2), of 16 0 x]
  by (simp_all add: k_printptr_def u_printptr_def num_val_def)

section \<open>Formats\<close>

text \<open>A format without a percent sign is printed as it is, by both; so is the message of a panic.\<close>

lemma printf_plain:
  "CHR ''%'' \<notin> set fmt \<Longrightarrow> k_printf fmt as = Some fmt" "CHR ''%'' \<notin> set fmt \<Longrightarrow> u_printf fmt as = Some fmt"
proof -
  show "k_printf fmt as = Some fmt" if "CHR ''%'' \<notin> set fmt" using that by (induction fmt) (auto simp: emit_def)
  have "vprintf False fmt as = Some fmt" if "CHR ''%'' \<notin> set fmt" using that by (induction fmt) (auto simp: emit_def)
  then show "u_printf fmt as = Some fmt" if "CHR ''%'' \<notin> set fmt" using that by (simp add: u_printf_def)
qed

lemma panic_prints: "CHR ''%'' \<notin> set s \<Longrightarrow> panic_output s = Some (''panic: '' @ s @ [CHR 0x0A])"
  by (simp add: panic_output_def printf_plain emit_def)

end
