(* ===== verification/Kernel.thy ===== *)
theory Kernel
  imports Messagequeue Sysfile Printf
begin

text \<open>
  Creation and destruction of processes, the part of \<^verbatim>\<open>kernel/proc/proc.c\<close> that needs memory,
  files, shared memory and message queues; the operations on the process table alone are in theory
  \<open>Proc\<close>. \<open>p\<close> is the calling process and \<open>c\<close> its CPU. A process lock that is
  taken and released inside an operation is left out, except in \<^verbatim>\<open>exit\<close> and \<^verbatim>\<open>wait\<close>,
  where locks are held across the switch to the scheduler. \<open>tramp\<close> is the address of
  \<^verbatim>\<open>trampoline.S\<close>.
\<close>

section \<open>The process table and page tables\<close>

definition procinit :: "u64 \<Rightarrow> 'a kstate_scheme \<Rightarrow> 'a kstate_scheme option" where
  "procinit kernel_pagetable s =
     ofold (\<lambda>p s.
       let (pa, m) = kalloc (k_mem s)
       in if pa = 0 then None
          else do {
            m \<leftarrow> kvmmap kernel_pagetable (KSTACK p) pa PGSIZE (PTE_R OR PTE_W) m;
            Some (upd_proc p (\<lambda>x. x\<lparr>p_kstack := KSTACK p\<rparr>) (s\<lparr>k_mem := m\<rparr>))
          }) [0..<NPROC] (runq_init s)"

definition proc_pagetable :: "u64 \<Rightarrow> u64 \<Rightarrow> kmem \<Rightarrow> (u64 \<times> kmem) option" where
  "proc_pagetable tramp trapframe m =
     (let (pagetable, m) = uvmcreate m
      in if pagetable = 0 then Some (0, m)
         else do {
           (r, m) \<leftarrow> mappages pagetable TRAMPOLINE PGSIZE tramp (PTE_R OR PTE_X) m;
           if r < 0 then do { m \<leftarrow> uvmfree pagetable 0 m; Some (0, m) }
           else do {
             (r, m) \<leftarrow> mappages pagetable TRAPFRAME PGSIZE trapframe (PTE_R OR PTE_W) m;
             if r < 0 then do {
               m \<leftarrow> uvmunmap pagetable TRAMPOLINE 1 False m;
               m \<leftarrow> uvmfree pagetable 0 m;
               Some (0, m)
             }
             else Some (pagetable, m)
           }
         })"

definition proc_freepagetable :: "u64 \<Rightarrow> u64 \<Rightarrow> kmem \<Rightarrow> kmem option" where
  "proc_freepagetable pagetable sz m = do {
     m \<leftarrow> uvmunmap pagetable TRAMPOLINE 1 False m;
     m \<leftarrow> uvmunmap pagetable TRAPFRAME 1 False m;
     uvmfree pagetable sz m
   }"

text \<open>\<^verbatim>\<open>kfree\<close> of a pointer that may be null.\<close>

definition kfree_ptr :: "u64 \<Rightarrow> kmem \<Rightarrow> kmem option" where
  "kfree_ptr pa m = (if pa \<noteq> 0 then kfree pa m else Some m)"

definition freeproc :: "nat \<Rightarrow> 'a shmst_scheme \<Rightarrow> 'a shmst_scheme option" where
  "freeproc p s =
     (let x = procs s p
      in do {
        m \<leftarrow> kfree_ptr (p_trapframe x) (k_mem s);
        m \<leftarrow> (if p_pagetable x \<noteq> 0 then proc_freepagetable (p_pagetable x) (p_sz x) m else Some m);
        m \<leftarrow> kfree_ptr (p_alarm_trapframe x) m;
        let s = upd_proc p (\<lambda>x. x\<lparr>p_trapframe := 0, p_alarm_trapframe := 0, p_pagetable := 0, p_sz := 0, p_pid := 0,
                  p_parent := None, p_name := [], p_chan := NoChan, p_killed := False, p_xstate := 0,
                  p_alarm_interval := 0, p_alarm_handler := 0, p_alarm_ticks := 0, p_alarm_goingoff := False\<rparr>)
                (s\<lparr>k_mem := m\<rparr>);
        let s = (if p_on_runq (procs s p) then runq_remove p s else s);
        let s = upd_proc p (\<lambda>x. x\<lparr>p_state := UNUSED\<rparr>) s;
        s \<leftarrow> shmrelease (p_pagetable (procs s p)) (ucast (p_shm (procs s p))) (ucast (p_shmkeymask (procs s p))) s;
        Some (upd_proc p (\<lambda>x. x\<lparr>p_shm := ucast KERNBASE, p_shmkeymask := 0\<rparr>) s)
      })"

text \<open>The fields that \<^verbatim>\<open>allocproc\<close> sets before it asks for memory.\<close>

definition fresh_proc :: "int \<Rightarrow> proc \<Rightarrow> proc" where
  "fresh_proc pid x = x\<lparr>p_pid := pid, p_mqmask := 0, p_priority := 10, p_cpu_time := 0, p_wait_time := 0,
     p_dyn_priority := 10, p_trace_mask := 0, p_shm := ucast KERNBASE, p_shmkeymask := 0\<rparr>"

definition allocproc :: "u64 \<Rightarrow> 'a shmst_scheme \<Rightarrow> (nat option \<times> 'a shmst_scheme) option" where
  "allocproc tramp s =
     (case find (\<lambda>p. p_state (procs s p) = UNUSED) [0..<NPROC] of
        None \<Rightarrow> Some (None, s)
      | Some p \<Rightarrow>
          let (pid, s) = allocpid s;
              s = upd_proc p (fresh_proc pid) s;
              (tf, m) = kalloc (k_mem s);
              s = upd_proc p (\<lambda>x. x\<lparr>p_trapframe := tf\<rparr>) (s\<lparr>k_mem := m\<rparr>)
          in if tf = 0 then Some (None, s)
             else
               let (atf, m) = kalloc (k_mem s);
                   s = upd_proc p (\<lambda>x. x\<lparr>p_alarm_trapframe := atf\<rparr>) (s\<lparr>k_mem := m\<rparr>)
               in if atf = 0 then Some (None, s)
                  else do {
                    let s = upd_proc p (\<lambda>x. x\<lparr>p_alarm_interval := 0, p_alarm_handler := 0, p_alarm_ticks := 0, p_alarm_goingoff := False\<rparr>) s;
                    (pt, m) \<leftarrow> proc_pagetable tramp tf (k_mem s);
                    let s = upd_proc p (\<lambda>x. x\<lparr>p_pagetable := pt\<rparr>) (s\<lparr>k_mem := m\<rparr>);
                    if pt = 0 then do { s \<leftarrow> freeproc p s; Some (None, s) }
                    else Some (Some p, upd_proc p (\<lambda>x. x\<lparr>p_vma := (\<lambda>_. zero_vma)\<rparr>) s)
                  })"

section \<open>The first process and its growth\<close>

definition initcode :: "u8 list" where
  "initcode =
     [0x17, 0x05, 0x00, 0x00, 0x13, 0x05, 0x45, 0x02,
      0x97, 0x05, 0x00, 0x00, 0x93, 0x85, 0x35, 0x02,
      0x93, 0x08, 0x70, 0x00, 0x73, 0x00, 0x00, 0x00,
      0x93, 0x08, 0x20, 0x00, 0x73, 0x00, 0x00, 0x00,
      0xef, 0xf0, 0x9f, 0xff, 0x2f, 0x69, 0x6e, 0x69,
      0x74, 0x00, 0x00, 0x24, 0x00, 0x00, 0x00, 0x00,
      0x00, 0x00, 0x00, 0x00]"

definition userinit :: "u64 \<Rightarrow> 'a shmst_scheme \<Rightarrow> 'a shmst_scheme option" where
  "userinit tramp s = do {
     (r, s) \<leftarrow> allocproc tramp s;
     p \<leftarrow> r;
     let s = s\<lparr>initproc := p\<rparr>;
     m \<leftarrow> uvminit (pagetable_of p s) initcode (k_mem s);
     let s = upd_proc p (\<lambda>x. x\<lparr>p_sz := PGSIZE\<rparr>) (s\<lparr>k_mem := m\<rparr>);
     let s = tf_set tf_off_sp PGSIZE p (tf_set tf_off_epc 0 p s);
     (ip, x) \<leftarrow> namei (pid_of p s) [0x2F] 0 (k_mem s) (k_fs s);
     let s = upd_proc p (\<lambda>x. x\<lparr>p_name := ''initcode'', p_cwd := ip\<rparr>) (s\<lparr>k_fs := x\<rparr>);
     Some (make_runnable p s)
   }"

text \<open>\<^verbatim>\<open>growproc\<close> keeps the size in an unsigned 32-bit variable.\<close>

definition growproc :: "int \<Rightarrow> nat \<Rightarrow> 'a kstate_scheme \<Rightarrow> (int \<times> 'a kstate_scheme) option" where
  "growproc n p s =
     (let sz = (ucast (p_sz (procs s p)) :: u32); new = ucast (sz + of_int n)
      in if n > 0 then do {
           (r, m) \<leftarrow> uvmalloc (pagetable_of p s) (ucast sz) new (k_mem s);
           let s = s\<lparr>k_mem := m\<rparr>;
           let sz = (ucast r :: u32);
           Some (if sz = 0 then (- 1, s) else (0, upd_proc p (\<lambda>x. x\<lparr>p_sz := ucast sz\<rparr>) s))
         }
         else if n < 0 then do {
           (r, m) \<leftarrow> uvmdealloc (pagetable_of p s) (ucast sz) new (k_mem s);
           Some (0, upd_proc p (\<lambda>x. x\<lparr>p_sz := ucast (ucast r :: u32)\<rparr>) (s\<lparr>k_mem := m\<rparr>))
         }
         else Some (0, upd_proc p (\<lambda>x. x\<lparr>p_sz := ucast sz\<rparr>) s))"

section \<open>fork and clone\<close>

text \<open>\<^verbatim>\<open>*(np->trapframe) = *(p->trapframe)\<close>: 36 registers of 8 bytes.\<close>

definition copy_trapframe :: "nat \<Rightarrow> nat \<Rightarrow> 'a kstate_scheme \<Rightarrow> 'a kstate_scheme" where
  "copy_trapframe p np s = set_mem (memmove (p_trapframe (procs s np)) (p_trapframe (procs s p)) 288 (memof s)) s"

definition dup_ofiles :: "nat \<Rightarrow> nat \<Rightarrow> 'a kstate_scheme \<Rightarrow> 'a kstate_scheme option" where
  "dup_ofiles p np s =
     ofold (\<lambda>i s. (case p_ofile (procs s p) i of
                     None \<Rightarrow> Some s
                   | Some f \<Rightarrow> map_option (set_ofile np i (Some f)) (filedup f s))) [0..<NOFILE] s"

definition dup_vmas :: "nat \<Rightarrow> nat \<Rightarrow> 'a kstate_scheme \<Rightarrow> 'a kstate_scheme option" where
  "dup_vmas p np s =
     ofold (\<lambda>i s.
       let v = p_vma (procs s p) i
       in if vma_used v then do { f \<leftarrow> vma_vfile v; filedup f (set_vma np i (\<lambda>_. v) s) } else Some s) [0..<NVMA] s"

definition dup_cwd :: "nat \<Rightarrow> nat \<Rightarrow> 'a kstate_scheme \<Rightarrow> 'a kstate_scheme option" where
  "dup_cwd p np s = do {
     ip \<leftarrow> p_cwd (procs s p);
     Some (upd_proc np (\<lambda>x. x\<lparr>p_cwd := Some ip\<rparr>) (s\<lparr>k_fs := idup ip (k_fs s)\<rparr>))
   }"

text \<open>The shared-memory fields come from entry 0 of the table, as in the source.\<close>

definition copy_shm :: "nat \<Rightarrow> 'a shmst_scheme \<Rightarrow> 'a shmst_scheme" where
  "copy_shm np s =
     (let q = procs s 0
      in shmaddcount (ucast (p_shmkeymask q))
           (upd_proc np (\<lambda>x. x\<lparr>p_shm := p_shm q, p_shmkeymask := p_shmkeymask q,
              p_shmva := (\<lambda>i. if i < 8 \<and> shmkeyused (of_nat i) (ucast (p_shmkeymask q)) then p_shmva q i else p_shmva x i)\<rparr>) s))"

definition fork :: "u64 \<Rightarrow> nat \<Rightarrow> 'a mqst_scheme \<Rightarrow> (int \<times> 'a mqst_scheme) option" where
  "fork tramp p s = do {
     (r, s) \<leftarrow> allocproc tramp s;
     (case r of
        None \<Rightarrow> Some (- 1, s)
      | Some np \<Rightarrow> do {
          (e, m) \<leftarrow> uvmcopy (pagetable_of p s) (pagetable_of np s) (p_sz (procs s p)) (k_mem s);
          let s = s\<lparr>k_mem := m\<rparr>;
          if e < 0 then do { s \<leftarrow> freeproc np s; Some (- 1, s) }
          else do {
            let s = copy_shm np s;
            let s = addmqcount (p_mqmask (procs s p)) s;
            let s = upd_proc np (\<lambda>x. x\<lparr>p_mqmask := p_mqmask (procs s p), p_sz := p_sz (procs s p), p_parent := Some p\<rparr>) s;
            let s = tf_set tf_off_a0 0 np (copy_trapframe p np s);
            s \<leftarrow> dup_ofiles p np s;
            s \<leftarrow> dup_cwd p np s;
            s \<leftarrow> dup_vmas p np s;
            let s = upd_proc np (\<lambda>x. x\<lparr>p_name := take 15 (p_name (procs s p)), p_trace_mask := p_trace_mask (procs s p)\<rparr>) s;
            Some (p_pid (procs s np), make_runnable np s)
          }
        })
   }"

definition clone :: "u64 \<Rightarrow> u64 \<Rightarrow> u64 \<Rightarrow> u64 \<Rightarrow> nat \<Rightarrow> 'a shmst_scheme \<Rightarrow> (int \<times> 'a shmst_scheme) option" where
  "clone tramp fcn ag stack p s = do {
     (r, s) \<leftarrow> allocproc tramp s;
     (case r of
        None \<Rightarrow> Some (- 1, s)
      | Some np \<Rightarrow> do {
          let s = upd_proc np (\<lambda>x. x\<lparr>p_pagetable := pagetable_of p s, p_sz := p_sz (procs s p), p_pthread := Some p,
                    p_ustack := stack, p_parent := None\<rparr>) s;
          let s = copy_trapframe p np s;
          let (stackin, m) = kalloc (k_mem s);
          let s = s\<lparr>k_mem := m\<rparr>;
          if stackin = 0 then None
          else do {
            let sp = stackin + 4096 - 16;
            let s = tf_set tf_off_epc fcn np s;
            let s = tf_set tf_off_sp (stack + 4096 - 16) np s;
            let s = tf_set tf_off_s0 (stack + 4096 - 16) np s;
            let s = tf_set tf_off_a0 0 np s;
            let s = set_mem (store64 sp (- 1) (store64 (sp + 8) ag (memof s))) s;
            (e, m) \<leftarrow> copyout (pagetable_of p s) stack (read_bytes (memof s) stackin 4096) (k_mem s);
            s \<leftarrow> dup_ofiles p np (s\<lparr>k_mem := m\<rparr>);
            s \<leftarrow> dup_cwd p np s;
            let s = upd_proc np (\<lambda>x. x\<lparr>p_name := take 15 (p_name (procs s p))\<rparr>) s;
            Some (p_pid (procs s np), make_runnable np s)
          }
        })
   }"

section \<open>exit, wait and join\<close>

definition exit_files :: "nat \<Rightarrow> 'a kstate_scheme \<Rightarrow> 'a kstate_scheme option" where
  "exit_files p s =
     ofold (\<lambda>fd s. (case p_ofile (procs s p) fd of
                      None \<Rightarrow> Some s
                    | Some f \<Rightarrow> map_option (set_ofile p fd None) (fileclose p f s))) [0..<NOFILE] s"

text \<open>A write to a mapped file that blocks is \<open>None\<close>, as in \<^verbatim>\<open>sys_munmap\<close>.\<close>

definition exit_vmas :: "'a kstate_scheme devsw \<Rightarrow> nat \<Rightarrow> 'a kstate_scheme \<Rightarrow> 'a kstate_scheme option" where
  "exit_vmas dev p s =
     ofold (\<lambda>i s.
       let v = p_vma (procs s p) i
       in if vma_used v then do {
            f \<leftarrow> vma_vfile v;
            s \<leftarrow> (if vma_flags v = MAP_SHARED \<and> vma_prot v AND PROT_WRITE \<noteq> 0
                  then (case filewrite dev p f (vma_addr v) (vma_len v) s of Some (Ret r s) \<Rightarrow> Some s | _ \<Rightarrow> None)
                  else Some s);
            s \<leftarrow> fileclose p f s;
            m \<leftarrow> uvmunmap (pagetable_of p s) (vma_addr v) (of_int (c_div (vma_len v) 4096)) True (k_mem s);
            Some (set_vma p i (\<lambda>v. v\<lparr>vma_used := False\<rparr>) (s\<lparr>k_mem := m\<rparr>))
          }
          else Some s) [0..<NVMA] s"

definition exit_cwd :: "nat \<Rightarrow> 'a kstate_scheme \<Rightarrow> 'a kstate_scheme option" where
  "exit_cwd p s = do {
     ip \<leftarrow> p_cwd (procs s p);
     s \<leftarrow> on_fs (\<lambda>x. do { x \<leftarrow> fs_begin_op x; x \<leftarrow> iput (pid_of p s) ip x; fs_end_op x }) s;
     Some (upd_proc p (\<lambda>x. x\<lparr>p_cwd := None\<rparr>) s)
   }"

text \<open>The result is the state in which the CPU has left the process for its scheduler.\<close>

definition exit :: "'a kstate_scheme devsw \<Rightarrow> nat \<Rightarrow> int \<Rightarrow> nat \<Rightarrow> 'a kstate_scheme \<Rightarrow> 'a kstate_scheme option" where
  "exit dev c status p s =
     (if p = initproc s then None
      else do {
        s \<leftarrow> exit_files p s;
        s \<leftarrow> exit_vmas dev p s;
        s \<leftarrow> exit_cwd p s;
        s \<leftarrow> acquire_proc c (initproc s) s;
        s \<leftarrow> wakeup1 c (initproc s) s;
        let s = lock_proc (initproc s) None s;
        q \<leftarrow> original_parent (procs s p);
        exit_finish c status q p s
      })"

definition wait :: "nat \<Rightarrow> u64 \<Rightarrow> nat \<Rightarrow> 'a mqst_scheme \<Rightarrow> 'a mqst_scheme kres option" where
  "wait c addr p s = do {
     s \<leftarrow> acquire_proc c p s;
     (case zombie_child p s of
        Some np \<Rightarrow> do {
          s \<leftarrow> acquire_proc c np s;
          let pid = p_pid (procs s np);
          s \<leftarrow> releasemq2 (p_mqmask (procs s p)) s;
          let s = upd_proc p (\<lambda>x. x\<lparr>p_mqmask := 0\<rparr>) s;
          (r, m) \<leftarrow> (if addr \<noteq> 0 then copyout (pagetable_of p s) addr (u32_bytes (of_int (p_xstate (procs s np)))) (k_mem s)
                     else Some (0, k_mem s));
          let s = s\<lparr>k_mem := m\<rparr>;
          if r < 0 then Some (Ret (- 1) (lock_proc p None (lock_proc np None s)))
          else do { s \<leftarrow> freeproc np s; Some (Ret pid (lock_proc p None (lock_proc np None s))) }
        }
      | None \<Rightarrow>
          if \<not> havekids p s \<or> p_killed (procs s p) then Some (Ret (- 1) (lock_proc p None s))
          else map_option Blk (sleep c (ChanProc p) True 1 p s))
   }"

definition havethreads :: "nat \<Rightarrow> 'a runq_scheme \<Rightarrow> bool" where
  "havethreads p s \<longleftrightarrow> (\<exists>np \<in> set [0..<NPROC]. p_pthread (procs s np) = Some p)"

definition zombie_thread :: "nat \<Rightarrow> 'a runq_scheme \<Rightarrow> nat option" where
  "zombie_thread p s = find (\<lambda>np. p_pthread (procs s np) = Some p \<and> p_state (procs s np) = ZOMBIE) [0..<NPROC]"

definition join :: "nat \<Rightarrow> u64 \<Rightarrow> nat \<Rightarrow> 'a kstate_scheme \<Rightarrow> 'a kstate_scheme kres option" where
  "join c stackaddrout p s = do {
     s \<leftarrow> acquire_proc c p s;
     (case zombie_thread p s of
        Some np \<Rightarrow> do {
          s \<leftarrow> acquire_proc c np s;
          let x = procs s np;
          m \<leftarrow> kfree (p_kstack x) (k_mem s);
          let s = upd_proc np (\<lambda>x. x\<lparr>p_kstack := 0, p_state := UNUSED, p_pid := 0, p_parent := None, p_pthread := None,
                    p_name := [], p_killed := False\<rparr>) (s\<lparr>k_mem := m\<rparr>);
          (r, m) \<leftarrow> copyout (pagetable_of np s) stackaddrout (read_bytes (store64 0 (p_ustack x) (\<lambda>_. 0)) 0 8) (k_mem s);
          Some (Ret (p_pid x) (lock_proc p None (lock_proc np None (s\<lparr>k_mem := m\<rparr>))))
        }
      | None \<Rightarrow>
          if \<not> havethreads p s \<or> p_killed (procs s p) then Some (Ret (- 1) (lock_proc p None s))
          else map_option Blk (sleep c (ChanProc p) True 1 p s))
   }"

section \<open>Listings\<close>

definition state_name :: "procstate \<Rightarrow> string" where
  "state_name st = (case st of UNUSED \<Rightarrow> ''unused'' | SLEEPING \<Rightarrow> ''sleep '' | RUNNABLE \<Rightarrow> ''runble'' | RUNNING \<Rightarrow> ''run   '' | ZOMBIE \<Rightarrow> ''zombie'')"

definition procdump :: "'a runq_scheme \<Rightarrow> string option" where
  "procdump s =
     ofold (\<lambda>p out.
       if p_state (procs s p) = UNUSED then Some out
       else do {
         a \<leftarrow> k_printf ''%d %s %s'' [VInt (p_pid (procs s p)), VStr (Some (state_name (p_state (procs s p)))), VStr (Some (p_name (procs s p)))];
         Some (out @ a @ [CHR 0x0A])
       }) [0..<NPROC] [CHR 0x0A]"

definition cps_state :: "procstate \<Rightarrow> string option" where
  "cps_state st = (case st of SLEEPING \<Rightarrow> Some ''SLEEPING'' | RUNNING \<Rightarrow> Some ''RUNNING'' | RUNNABLE \<Rightarrow> Some ''RUNNABLE'' | _ \<Rightarrow> None)"

definition tab :: char where "tab = CHR 0x09"

definition cps :: "'a runq_scheme \<Rightarrow> (int \<times> string) option" where
  "cps s =
     map_option (Pair 22)
       (ofold (\<lambda>p out.
          (case cps_state (p_state (procs s p)) of
             None \<Rightarrow> Some out
           | Some st \<Rightarrow> do {
               a \<leftarrow> k_printf (''%s '' @ [tab] @ '' %d '' @ [tab, CHR '' ''] @ st @ '' '' @ [tab] @ '' %d'' @ [tab, CHR '' '', tab] @ ''%d'' @ [CHR 0x0A])
                      [VStr (Some (p_name (procs s p))), VInt (p_pid (procs s p)), VInt (p_priority (procs s p)), VInt (p_dyn_priority (procs s p))];
               Some (out @ a)
             })) [0..<NPROC]
          (''name '' @ [tab] @ '' pid '' @ [tab] @ '' state '' @ [tab, CHR '' '', tab] @ '' priority '' @ [tab] @ ''dyn_priority'' @ [CHR 0x0A]))"

section \<open>Defects\<close>

text \<open>
  \<^verbatim>\<open>join\<close> gives \<^verbatim>\<open>kfree\<close> the virtual address of the kernel stack, which lies above physical
  memory: it panics as soon as there is an exited thread.
\<close>

lemma join_panics:
  fixes s :: "'a kstate_scheme"
  assumes "zombie_thread p s = Some np" "p_kstack (procs s np) = KSTACK np" "np < NPROC"
  shows "join c addr p s = None"
proof -
  have "PHYSTOP \<le> KSTACK np" using KSTACK_high [OF assms(3)] by (simp add: layout word_le_nat_alt)
  then have k: "kfree (KSTACK np) m = None" for m by (simp add: kfree_def page_ok_def not_less)
  have z: "zombie_thread p (lock_proc q ow t) = zombie_thread p t" "procs (lock_proc q ow t) = procs t" for q ow and t :: "'a kstate_scheme"
    by (simp_all add: zombie_thread_def lock_proc_def)
  show ?thesis using assms(1,2) k by (auto simp: join_def acquire_proc_def z Let_def split: option.splits)
qed

text \<open>
  A process that has shared memory cannot be freed: \<^verbatim>\<open>freeproc\<close> clears the page table first.
\<close>

lemma freeproc_shared_faults:
  assumes "ucast (p_shm (procs s p)) \<le> KERNBASE - PGSIZE" "\<not> p_on_runq (procs s p)"
  shows "freeproc p s = None"
  using assms by (auto simp: freeproc_def Let_def upd_proc_def shmrelease_cleared_faults split: option.splits)

end
