(* ===== verification/Exec.thy ===== *)
theory Exec
  imports Kernel
begin

text \<open>
  Running a program, \<^verbatim>\<open>kernel/proc/exec.c\<close>, with the calls \<^verbatim>\<open>sys_exec\<close> of
  \<^verbatim>\<open>kernel/sysfile.c\<close> and \<^verbatim>\<open>sys_execve\<close> of \<^verbatim>\<open>kernel/sysproc.c\<close> that fetch its
  arguments. Headers are read into byte lists and taken apart at the offsets of
  \<^verbatim>\<open>struct elfhdr\<close> and \<^verbatim>\<open>struct proghdr\<close>.
\<close>

section \<open>ELF headers\<close>

definition MAXARG :: nat where "MAXARG = 32"
definition ELF_MAGIC :: u64 where "ELF_MAGIC = 0x464C457F"
definition ELF_PROG_LOAD :: u64 where "ELF_PROG_LOAD = 1"

text \<open>The little-endian number of \<open>n\<close> bytes at offset \<open>o\<close>.\<close>

definition le_at :: "nat \<Rightarrow> nat \<Rightarrow> u8 list \<Rightarrow> u64" where
  "le_at off n bs = le_u64 (take n (drop off bs))"

record elfhdr =
  e_magic :: u64
  e_entry :: u64
  e_phoff :: u64
  e_phnum :: u64

definition elf_of :: "u8 list \<Rightarrow> elfhdr" where
  "elf_of bs = \<lparr>e_magic = le_at 0 4 bs, e_entry = le_at 24 8 bs, e_phoff = le_at 32 8 bs, e_phnum = le_at 56 2 bs\<rparr>"

record proghdr =
  ph_type :: u64
  ph_off :: u64
  ph_vaddr :: u64
  ph_filesz :: u64
  ph_memsz :: u64

definition ph_of :: "u8 list \<Rightarrow> proghdr" where
  "ph_of bs = \<lparr>ph_type = le_at 0 4 bs, ph_off = le_at 8 8 bs, ph_vaddr = le_at 16 8 bs,
     ph_filesz = le_at 32 8 bs, ph_memsz = le_at 40 8 bs\<rparr>"

text \<open>\<^verbatim>\<open>readi\<close> into a kernel variable of \<open>n\<close> bytes: the bytes, or \<open>None\<close> when fewer came.\<close>

definition read_exact :: "nat \<Rightarrow> u32 \<Rightarrow> nat \<Rightarrow> kmem \<Rightarrow> fs \<Rightarrow> (u8 list option \<times> kmem \<times> fs) option" where
  "read_exact ip off n m x = do {
     (r, q, m, x) \<leftarrow> readi ip (KernelBuf (replicate n 0)) off (of_nat n) m x;
     Some (if r \<noteq> n then None else (case q of KernelBuf bs \<Rightarrow> Some bs | UserAddr _ _ \<Rightarrow> None), m, x)
   }"

text \<open>\<^verbatim>\<open>readi\<close> into physical memory at \<open>pa\<close>.\<close>

definition read_phys :: "nat \<Rightarrow> u64 \<Rightarrow> u32 \<Rightarrow> nat \<Rightarrow> kmem \<Rightarrow> fs \<Rightarrow> (nat \<times> kmem \<times> fs) option" where
  "read_phys ip pa off n m x = do {
     (r, q, m, x) \<leftarrow> readi ip (KernelBuf (read_bytes (mem m) pa n)) off (of_nat n) m x;
     Some (r, (case q of KernelBuf bs \<Rightarrow> m\<lparr>mem := write_bytes pa bs (mem m)\<rparr> | UserAddr _ _ \<Rightarrow> m), x)
   }"

section \<open>Loading\<close>

partial_function (option) loadseg_from :: "u64 \<Rightarrow> u64 \<Rightarrow> nat \<Rightarrow> u32 \<Rightarrow> u32 \<Rightarrow> u32 \<Rightarrow> kmem \<Rightarrow> fs \<Rightarrow> (int \<times> kmem \<times> fs) option" where
  "loadseg_from pagetable va ip offset sz i m x =
     (if i < sz then
        let pa = walkaddr pagetable (va + ucast i) m; n = (if sz - i < 4096 then unat (sz - i) else 4096)
        in if pa = 0 then None
           else do {
             (r, m, x) \<leftarrow> read_phys ip pa (offset + i) n m x;
             if r \<noteq> n then Some (- 1, m, x) else loadseg_from pagetable va ip offset sz (i + 4096) m x
           }
      else Some (0, m, x))"

definition loadseg :: "u64 \<Rightarrow> u64 \<Rightarrow> nat \<Rightarrow> u32 \<Rightarrow> u32 \<Rightarrow> kmem \<Rightarrow> fs \<Rightarrow> (int \<times> kmem \<times> fs) option" where
  "loadseg pagetable va ip offset sz m x =
     (if va mod PGSIZE \<noteq> 0 then None else loadseg_from pagetable va ip offset sz 0 m x)"

text \<open>
  The loop over the program headers, \<open>n\<close> of them left; the flag says that all were loaded, and the
  size is that of the image built so far.
\<close>

primrec load_phs :: "nat \<Rightarrow> u64 \<Rightarrow> nat \<Rightarrow> u32 \<Rightarrow> u64 \<Rightarrow> kmem \<Rightarrow> fs \<Rightarrow> (bool \<times> u64 \<times> kmem \<times> fs) option" where
  "load_phs 0 pagetable ip off sz m x = Some (True, sz, m, x)"
| "load_phs (Suc n) pagetable ip off sz m x = do {
     (r, m, x) \<leftarrow> read_exact ip off 56 m x;
     (case r of
        None \<Rightarrow> Some (False, sz, m, x)
      | Some bs \<Rightarrow>
          let ph = ph_of bs
          in if ph_type ph \<noteq> ELF_PROG_LOAD then load_phs n pagetable ip (off + 56) sz m x
             else if ph_memsz ph < ph_filesz ph then Some (False, sz, m, x)
             else if ph_vaddr ph + ph_memsz ph < ph_vaddr ph then Some (False, sz, m, x)
             else do {
               (sz1, m) \<leftarrow> uvmalloc pagetable sz (ph_vaddr ph + ph_memsz ph) m;
               if sz1 = 0 then Some (False, sz, m, x)
               else if ph_vaddr ph mod PGSIZE \<noteq> 0 then Some (False, sz1, m, x)
               else do {
                 (e, m, x) \<leftarrow> loadseg pagetable (ph_vaddr ph) ip (ucast (ph_off ph)) (ucast (ph_filesz ph)) m x;
                 if e < 0 then Some (False, sz1, m, x)
                 else load_phs n pagetable ip (off + 56) sz1 m x
               }
             })
   }"

section \<open>The user stack\<close>

text \<open>Pushing the argument strings: the stack pointer and the addresses of the strings, or \<open>Inl\<close> on failure.\<close>

fun push_args :: "u64 \<Rightarrow> u64 \<Rightarrow> nat \<Rightarrow> u8 list list \<Rightarrow> u64 \<Rightarrow> u64 list \<Rightarrow> kmem \<Rightarrow> ((kmem + u64 \<times> u64 list \<times> kmem)) option" where
  "push_args pagetable stackbase argc [] sp us m = Some (Inr (sp, us, m))"
| "push_args pagetable stackbase argc (a # as) sp us m =
     (if argc \<ge> MAXARG then Some (Inl m)
      else
        let sp = sp - (of_nat (length a) + 1); sp = sp - sp mod 16
        in if sp < stackbase then Some (Inl m)
           else do {
             (r, m) \<leftarrow> copyout pagetable sp (a @ [0]) m;
             if r < 0 then Some (Inl m) else push_args pagetable stackbase (argc + 1) as sp (us @ [sp]) m
           })"

definition u64_bytes :: "u64 \<Rightarrow> u8 list" where
  "u64_bytes v = map (\<lambda>i. ucast (drop_bit (8 * i) v)) [0..<8]"

definition push_argv :: "u64 \<Rightarrow> u64 \<Rightarrow> u8 list list \<Rightarrow> u64 \<Rightarrow> kmem \<Rightarrow> (kmem + u64 \<times> kmem) option" where
  "push_argv pagetable stackbase argv sp m = do {
     r \<leftarrow> push_args pagetable stackbase 0 argv sp [] m;
     (case r of
        Inl m \<Rightarrow> Some (Inl m)
      | Inr (sp, us, m) \<Rightarrow>
          let sp = sp - (of_nat (length argv) + 1) * 8; sp = sp - sp mod 16
          in if sp < stackbase then Some (Inl m)
             else do {
               (e, m) \<leftarrow> copyout pagetable sp (concat (map u64_bytes (us @ [0]))) m;
               Some (if e < 0 then Inl m else Inr (sp, m))
             })
   }"

text \<open>The program name: what follows the last slash of the path.\<close>

definition last_elem :: "u8 list \<Rightarrow> u8 list" where
  "last_elem path = rev (takeWhile (\<lambda>c. c \<noteq> 0x2F) (rev path))"

section \<open>exec\<close>

definition exec_bad :: "u64 \<Rightarrow> u64 \<Rightarrow> 'a kstate_scheme \<Rightarrow> (int \<times> 'a kstate_scheme) option" where
  "exec_bad pagetable sz s =
     map_option (\<lambda>m. (- 1, s\<lparr>k_mem := m\<rparr>)) (if pagetable \<noteq> 0 then proc_freepagetable pagetable sz (k_mem s) else Some (k_mem s))"

definition exec_bad_ip :: "nat \<Rightarrow> nat \<Rightarrow> u64 \<Rightarrow> u64 \<Rightarrow> 'a kstate_scheme \<Rightarrow> (int \<times> 'a kstate_scheme) option" where
  "exec_bad_ip p ip pagetable sz s = do {
     (r, s) \<leftarrow> exec_bad pagetable sz s;
     x \<leftarrow> iunlockput (pid_of p s) ip (k_fs s);
     x \<leftarrow> fs_end_op x;
     Some (r, s\<lparr>k_fs := x\<rparr>)
   }"

text \<open>From the point where the new image is complete: the old one is given up.\<close>

definition exec_commit :: "u8 list \<Rightarrow> u64 \<Rightarrow> u64 \<Rightarrow> u64 \<Rightarrow> u64 \<Rightarrow> nat \<Rightarrow> 'a mqst_scheme \<Rightarrow> 'a mqst_scheme option" where
  "exec_commit path pagetable sz sp entry p s = do {
     let oldpagetable = pagetable_of p s;
     let oldsz = p_sz (procs s p);
     let s = tf_set tf_off_a1 sp p s;
     let s = upd_proc p (\<lambda>x. x\<lparr>p_name := map (\<lambda>b. char_of (unat b)) (take 15 (last_elem path)), p_pagetable := pagetable, p_sz := sz\<rparr>) s;
     let s = tf_set tf_off_sp sp p (tf_set tf_off_epc entry p s);
     s \<leftarrow> shmrelease oldpagetable (ucast (p_shm (procs s 0))) (ucast (p_shmkeymask (procs s 0))) s;
     m \<leftarrow> proc_freepagetable oldpagetable oldsz (k_mem s);
     let s = upd_proc 0 (\<lambda>x. x\<lparr>p_shm := ucast KERNBASE, p_shmkeymask := 0\<rparr>) (s\<lparr>k_mem := m\<rparr>);
     s \<leftarrow> releasemq (p_mqmask (procs s p)) s;
     Some (upd_proc p (\<lambda>x. x\<lparr>p_mqmask := 0\<rparr>) s)
   }"

definition exec :: "u64 \<Rightarrow> u8 list \<Rightarrow> u8 list list \<Rightarrow> nat \<Rightarrow> 'a mqst_scheme \<Rightarrow> (int \<times> 'a mqst_scheme) option" where
  "exec tramp path argv p s = do {
     cwd \<leftarrow> p_cwd (procs s p);
     x \<leftarrow> fs_begin_op (k_fs s);
     (r, x) \<leftarrow> namei (pid_of p s) path cwd (k_mem s) x;
     (case r of
        None \<Rightarrow> do { x \<leftarrow> fs_end_op x; Some (- 1, s\<lparr>k_fs := x\<rparr>) }
      | Some ip \<Rightarrow> do {
          x \<leftarrow> ilock (pid_of p s) ip x;
          (h, m, x) \<leftarrow> read_exact ip 0 64 (k_mem s) x;
          let s = s\<lparr>k_mem := m, k_fs := x\<rparr>;
          (case h of
             None \<Rightarrow> exec_bad_ip p ip 0 0 s
           | Some bs \<Rightarrow>
               if e_magic (elf_of bs) \<noteq> ELF_MAGIC then exec_bad_ip p ip 0 0 s
               else do {
                 (pagetable, m) \<leftarrow> proc_pagetable tramp (p_trapframe (procs s p)) (k_mem s);
                 let s = s\<lparr>k_mem := m\<rparr>;
                 if pagetable = 0 then exec_bad_ip p ip 0 0 s
                 else do {
                   (ok, sz, m, x) \<leftarrow> load_phs (unat (e_phnum (elf_of bs))) pagetable ip (ucast (e_phoff (elf_of bs))) 0 (k_mem s) (k_fs s);
                   let s = s\<lparr>k_mem := m, k_fs := x\<rparr>;
                   if \<not> ok then exec_bad_ip p ip pagetable sz s
                   else do {
                     x \<leftarrow> iunlockput (pid_of p s) ip (k_fs s);
                     x \<leftarrow> fs_end_op x;
                     let s = s\<lparr>k_fs := x\<rparr>;
                     let sz = PGROUNDUP sz;
                     (sz1, m) \<leftarrow> uvmalloc pagetable sz (sz + 2 * PGSIZE) (k_mem s);
                     let s = s\<lparr>k_mem := m\<rparr>;
                     if sz1 = 0 then exec_bad pagetable sz s
                     else do {
                       m \<leftarrow> uvmclear pagetable (sz1 - 2 * PGSIZE) (k_mem s);
                       u \<leftarrow> push_argv pagetable (sz1 - PGSIZE) argv sz1 m;
                       (case u of
                          Inl m \<Rightarrow> exec_bad pagetable sz1 (s\<lparr>k_mem := m\<rparr>)
                        | Inr (sp, m) \<Rightarrow> do {
                            s \<leftarrow> exec_commit path pagetable sz1 sp (e_entry (elf_of bs)) p (s\<lparr>k_mem := m\<rparr>);
                            Some (int (length argv), s)
                          })
                     }
                   }
                 }
               })
        })
   }"

section \<open>The system calls\<close>

text \<open>
  The argument strings are fetched into one page each. The result has the pages allocated so far
  and, unless something failed, the strings. \<open>n\<close> is the number of slots left in \<^verbatim>\<open>argv\<close>.
\<close>

primrec fetch_args :: "nat \<Rightarrow> u64 \<Rightarrow> nat \<Rightarrow> u64 list \<Rightarrow> u8 list list \<Rightarrow> 'a kstate_scheme \<Rightarrow> (u64 list \<times> u8 list list option \<times> 'a kstate_scheme) option" where
  "fetch_args 0 uargv p pages as s = Some (pages, None, s)"
| "fetch_args (Suc n) uargv p pages as s = do {
     a \<leftarrow> fetchaddr p uargv s;
     (case a of
        None \<Rightarrow> Some (pages, None, s)
      | Some uarg \<Rightarrow>
          if uarg = 0 then Some (pages, Some as, s)
          else
            let (pa, m) = kalloc (k_mem s); s = s\<lparr>k_mem := m\<rparr>
            in if pa = 0 then Some (pages, None, s)
               else do {
                 b \<leftarrow> fetchstr p uarg 4096 s;
                 (case b of
                    None \<Rightarrow> Some (pages @ [pa], None, s)
                  | Some bs \<Rightarrow>
                      fetch_args n (uargv + 8) p (pages @ [pa]) (as @ [bs]) (set_mem (write_bytes pa (bs @ [0]) (memof s)) s))
               })
   }"

definition free_pages :: "u64 list \<Rightarrow> 'a kstate_scheme \<Rightarrow> 'a kstate_scheme option" where
  "free_pages pages s = map_option (\<lambda>m. s\<lparr>k_mem := m\<rparr>) (ofold kfree pages (k_mem s))"

definition sys_exec :: "u64 \<Rightarrow> nat \<Rightarrow> 'a mqst_scheme \<Rightarrow> 'a mqst_scheme kres option" where
  "sys_exec tramp p s = arg (argstr 0 MAXPATH p s) (\<lambda>path s. arg (argaddr 1 p s) (\<lambda>uargv s. do {
     (pages, r, s) \<leftarrow> fetch_args MAXARG uargv p [] [] s;
     (case r of
        None \<Rightarrow> do { s \<leftarrow> free_pages pages s; Some (Ret (- 1) s) }
      | Some argv \<Rightarrow> do {
          (ret, s) \<leftarrow> exec tramp path argv p s;
          s \<leftarrow> free_pages pages s;
          Some (Ret ret s)
        })
   }))"

text \<open>
  \<^verbatim>\<open>sys_execve\<close> puts its own buffer for the path, at address \<open>buf\<close> of the kernel stack,
  first in \<^verbatim>\<open>argv\<close>, and frees it with the rest when something fails.
\<close>

definition sys_execve :: "u64 \<Rightarrow> u64 \<Rightarrow> nat \<Rightarrow> 'a mqst_scheme \<Rightarrow> 'a mqst_scheme kres option" where
  "sys_execve tramp buf p s = arg (argstr 0 260 p s) (\<lambda>path s. arg (argaddr 1 p s) (\<lambda>uargv s. do {
     (pages, r, s) \<leftarrow> fetch_args (MAXARG - 1) uargv p [] [path] s;
     (case r of
        None \<Rightarrow> do { s \<leftarrow> free_pages (buf # pages) s; Some (Ret (- 1) s) }
      | Some argv \<Rightarrow> do {
          (ret, s) \<leftarrow> exec tramp path argv p s;
          s \<leftarrow> free_pages pages s;
          Some (Ret ret s)
        })
   }))"

section \<open>The arguments on the new stack\<close>

text \<open>
  The strings lie on the stack one below the other: every address is a multiple of 16 in the stack
  page, and between two of them there is room for the string.
\<close>

fun stacked :: "u64 \<Rightarrow> u64 \<Rightarrow> u8 list list \<Rightarrow> u64 list \<Rightarrow> bool" where
  "stacked base tp [] [] \<longleftrightarrow> True"
| "stacked base tp (a # as) (u # us) \<longleftrightarrow>
     base \<le> u \<and> u mod 16 = 0 \<and> unat u + length a + 1 \<le> unat tp \<and> stacked base u as us"
| "stacked base tp as us \<longleftrightarrow> False"

text \<open>The slot for \<open>n + 1\<close> bytes below a stack pointer, aligned down.\<close>

lemma push_slot:
  fixes sp :: u64
  assumes "n + 1 \<le> unat sp"
  defines "q \<equiv> sp - (of_nat n + 1)"
  shows "unat (q - q mod 16) + n + 1 \<le> unat sp" "unat sp \<le> unat (q - q mod 16) + n + 16" "(q - q mod 16) mod 16 = 0"
proof -
  have e: "of_nat n + 1 = (of_nat (n + 1) :: u64)" by simp
  have u: "unat (of_nat (n + 1) :: u64) = n + 1"
    using assms(1) unat_u64_less [of sp] by (intro unat_of_nat_u64) simp
  have q: "unat q = unat sp - (n + 1)"
    unfolding q_def e using assms(1) u by (subst unat_sub) (simp_all add: word_le_nat_alt)
  have m: "unat (q mod 16) = unat q mod 16" by (simp add: unat_mod)
  then have s: "unat (q - q mod 16) = unat q - unat q mod 16"
    by (subst unat_sub) (simp_all add: word_le_nat_alt)
  have "unat ((q - q mod 16) mod 16) = 0" by (simp add: unat_mod s)
  then show "(q - q mod 16) mod 16 = 0" by (simp add: unat_eq_0)
  have "unat q mod 16 \<le> 15" by simp
  then show "unat (q - q mod 16) + n + 1 \<le> unat sp" "unat sp \<le> unat (q - q mod 16) + n + 16"
    unfolding s q using assms(1) by linarith+
qed

text \<open>What it costs to push strings: their bytes, a terminator each, and alignment.\<close>

definition args_size :: "u8 list list \<Rightarrow> nat" where
  "args_size as = sum_list (map (\<lambda>a. length a + 16) as)"

definition holds :: "kmem \<Rightarrow> u64 \<Rightarrow> u64 \<Rightarrow> u8 list \<Rightarrow> bool" where
  "holds m root va bs \<longleftrightarrow> (\<forall>j < length bs. user_byte m root (va + of_nat j) = Some (bs ! j))"

text \<open>A range of user memory that can be written, in a page table of one's own.\<close>

definition own_range :: "kmem \<Rightarrow> u64 \<Rightarrow> u64 \<Rightarrow> u64 \<Rightarrow> bool" where
  "own_range m root base tp \<longleftrightarrow> kvalid m \<and> pt_wf m root \<and> user_private m root \<and>
     (\<forall>va. base \<le> va \<and> va < tp \<longrightarrow> user_mapped m root va \<and> leaf m root va AND PTE_F = 0)"

lemma unat_in_range: "unat a + n \<le> unat b \<Longrightarrow> i < n \<Longrightarrow> unat (a + of_nat i) = unat a + i" for a b :: u64
  using unat_u64_less [of b] by (simp add: unat_word_ariths)

lemma copyout_in_range:
  assumes "own_range m root base tp" and "base \<le> va" and "unat va + length bs \<le> unat tp"
  shows "\<exists>m'. copyout root va bs m = Some (0, m') \<and> own_range m' root base tp \<and> holds m' root va bs \<and>
    (\<forall>x. unat x < unat va \<or> unat va + length bs \<le> unat x \<longrightarrow> user_byte m' root x = user_byte m root x)"
proof -
  have pos: "unat (va + of_nat i) = unat va + i" if "i < length bs" for i
    using unat_in_range [OF assms(3) that] .
  have "user_mapped m root (va + of_nat i) \<and> leaf m root (va + of_nat i) AND PTE_F = 0" if "i < length bs" for i
    using assms pos [OF that] that by (auto simp: own_range_def word_le_nat_alt word_less_nat_alt)
  moreover have "unat va + length bs < 2 ^ 64" using assms(3) unat_u64_less [of tp] by simp
  ultimately obtain m' where m': "copyout root va bs m = Some (0, m')" "kvalid m'" "pt_wf m' root" "user_private m' root"
    "\<forall>x. leaf m' root x = leaf m root x"
    "\<forall>x. user_byte m' root x = (if unat (x - va) < length bs then Some (bs ! unat (x - va)) else user_byte m root x)"
    using copyout_ok [of m root va bs] assms(1) by (auto simp: own_range_def)
  have "own_range m' root base tp" using m' assms(1) by (simp add: own_range_def user_mapped_def)
  moreover have "holds m' root va bs"
  proof -
    have "unat (va + of_nat j - va) = j" if "j < length bs" for j
      using that assms(3) unat_u64_less [of tp] by simp
    then show ?thesis unfolding holds_def using m'(6) by simp
  qed
  moreover have "\<not> unat (x - va) < length bs" if "unat x < unat va \<or> unat va + length bs \<le> unat x" for x
    using that assms(3) unat_u64_less [of tp] by (intro unat_sub_outside) simp_all
  ultimately show ?thesis using m'(1,6) by auto
qed


lemma holds_keep:
  fixes tp :: u64
  assumes "holds m root va bs" "unat va + length bs \<le> unat tp"
    and "\<And>x. unat va \<le> unat x \<Longrightarrow> unat x < unat va + length bs \<Longrightarrow> user_byte m' root x = user_byte m root x"
  shows "holds m' root va bs"
  using assms unat_in_range [OF assms(2)] by (simp add: holds_def)

lemma push_args_ok:
  assumes "own_range m root base tp" "unat base + args_size as \<le> unat sp" "unat sp \<le> unat tp" "k + length as \<le> MAXARG"
  shows "\<exists>ws m'. push_args root base k as sp us m = Some (Inr (last (sp # ws), us @ ws, m')) \<and>
    own_range m' root base tp \<and> length ws = length as \<and> stacked base sp as ws \<and>
    unat sp \<le> unat (last (sp # ws)) + args_size as \<and> unat (last (sp # ws)) \<le> unat sp \<and>
    (\<forall>i < length as. holds m' root (ws ! i) (as ! i @ [0])) \<and>
    (\<forall>x. unat x < unat (last (sp # ws)) \<or> unat sp \<le> unat x \<longrightarrow> user_byte m' root x = user_byte m root x)"
  using assms
proof (induction as arbitrary: k sp us m)
  case Nil
  then show ?case by (auto simp: args_size_def)
next
  case (Cons a as)
  define q where "q = sp - (of_nat (length a) + 1)"
  define r where "r = q - q mod 16"
  have sz: "args_size (a # as) = length a + 16 + args_size as" by (simp add: args_size_def)
  have fit: "length a + 16 \<le> unat sp" using Cons.prems(2) sz by linarith
  have hi: "unat r + length a + 1 \<le> unat sp" "r mod 16 = 0" and lo: "unat sp \<le> unat r + length a + 16"
    using push_slot [of "length a" sp] fit by (simp_all add: r_def q_def)
  have br: "base \<le> r" using lo Cons.prems(2) sz by (simp add: word_le_nat_alt)
  obtain m1 where m1: "copyout root r (a @ [0]) m = Some (0, m1)" "own_range m1 root base tp" "holds m1 root r (a @ [0])"
    "\<forall>x. unat x < unat r \<or> unat r + length (a @ [0]) \<le> unat x \<longrightarrow> user_byte m1 root x = user_byte m root x"
    using copyout_in_range [OF Cons.prems(1) br, of "a @ [0]"] hi Cons.prems(3) by auto
  obtain ws m' where r: "push_args root base (k + 1) as r (us @ [r]) m1 = Some (Inr (last (r # ws), (us @ [r]) @ ws, m'))"
    "own_range m' root base tp" "length ws = length as" "stacked base r as ws"
    "unat r \<le> unat (last (r # ws)) + args_size as" "unat (last (r # ws)) \<le> unat r"
    "\<forall>i < length as. holds m' root (ws ! i) (as ! i @ [0])"
    "\<forall>x. unat x < unat (last (r # ws)) \<or> unat r \<le> unat x \<longrightarrow> user_byte m' root x = user_byte m1 root x"
    using Cons.IH [of m1 r "k + 1" "us @ [r]"] m1(2) lo hi Cons.prems sz by auto
  have "push_args root base k (a # as) sp us m = Some (Inr (last (sp # r # ws), us @ r # ws, m'))"
    using m1(1) br r(1) Cons.prems(4)
    by (simp add: Let_def q_def [symmetric] r_def [symmetric] not_le not_less)
  moreover have "holds m' root r (a @ [0])"
    by (rule holds_keep [OF m1(3), of sp]) (use hi r(8) in auto)
  then have "\<forall>i < length (a # as). holds m' root ((r # ws) ! i) ((a # as) ! i @ [0])"
    using r(7) by (auto simp: less_Suc_eq_0_disj)
  moreover have "user_byte m' root x = user_byte m root x"
    if "unat x < unat (last (sp # r # ws)) \<or> unat sp \<le> unat x" for x
    using that r(6,8) m1(4) hi(1) by auto
  ultimately show ?case using r(2-6) hi lo br sz by (intro exI [of _ "r # ws"] exI [of _ m']) auto
qed

lemma length_u64_bytes [simp]: "length (u64_bytes v) = 8"
  by (simp add: u64_bytes_def)

lemma stacked_bounds:
  "stacked base tp as us \<Longrightarrow> unat (last (tp # us)) \<le> unat tp \<and>
    (\<forall>i < length as. unat (last (tp # us)) \<le> unat (us ! i) \<and> unat (us ! i) + length (as ! i) + 1 \<le> unat tp)"
proof (induction base tp as us rule: stacked.induct)
  case (2 base tp a as u us)
  then have "unat (last (u # us)) \<le> unat u" "unat u + length a + 1 \<le> unat tp"
    "\<forall>i < length as. unat (last (u # us)) \<le> unat (us ! i) \<and> unat (us ! i) + length (as ! i) + 1 \<le> unat u"
    by simp_all
  then show ?case by (auto simp: less_Suc_eq_0_disj)
qed simp_all




section \<open>A defect\<close>

text \<open>
  When \<^verbatim>\<open>sys_execve\<close> fails it frees its own buffer on the kernel stack, which lies above physical
  memory: \<^verbatim>\<open>kfree\<close> panics.
\<close>

lemma freeing_the_stack_buffer:
  assumes "PHYSTOP \<le> buf"
  shows "free_pages (buf # pages) s = None"
  using assms by (simp add: free_pages_def kfree_def page_ok_def not_less)

end
