(* ===== verification/Sysproc.thy ===== *)
theory Sysproc
  imports Exec
begin

text \<open>
  The system calls of \<^verbatim>\<open>kernel/sysproc.c\<close> and the semaphores declared in
  \<^verbatim>\<open>kernel/lock/spinlock.c\<close>. The state adds the clock, the semaphores and the shared
  variable of the semaphore demonstration. \<open>c\<close> is the CPU the caller runs on, and \<open>dev\<close> the
  driver table. Alarms, which \<^verbatim>\<open>sys_sigalarm\<close> sets, are defined here too although their code is in
  \<^verbatim>\<open>kernel/interrupt/trap.c\<close>.
\<close>

section \<open>State\<close>

definition SEM_MAX_NUM :: nat where "SEM_MAX_NUM = 128"

record sem =
  resource_count :: int
  sem_allocated :: int

record sysst = mqst +
  ticks :: u32
  sems :: "nat \<Rightarrow> sem"
  sem_used_count :: int
  sh_var :: int

definition upd_sem :: "nat \<Rightarrow> (sem \<Rightarrow> sem) \<Rightarrow> 'a sysst_scheme \<Rightarrow> 'a sysst_scheme" where
  "upd_sem i f s = s\<lparr>sems := (sems s)(i := f (sems s i))\<rparr>"

definition initsem :: "'a sysst_scheme \<Rightarrow> 'a sysst_scheme" where
  "initsem s = fold (\<lambda>i. upd_sem i (\<lambda>x. x\<lparr>sem_allocated := 0, resource_count := 0\<rparr>)) [0..<SEM_MAX_NUM] s"

section \<open>Processes\<close>

definition sys_setPriority :: "nat \<Rightarrow> 'a kstate_scheme \<Rightarrow> 'a kstate_scheme kres option" where
  "sys_setPriority p s = do {
     pid \<leftarrow> argint 0 p s;
     priority \<leftarrow> argint 1 p s;
     let (r, s) = setPriority pid priority s;
     Some (Ret r s)
   }"

text \<open>\<^verbatim>\<open>exit\<close> does not return: what is left is the state without the process.\<close>

definition sys_exit :: "'a kstate_scheme devsw \<Rightarrow> nat \<Rightarrow> nat \<Rightarrow> 'a kstate_scheme \<Rightarrow> 'a kstate_scheme kres option" where
  "sys_exit dev c p s = do { n \<leftarrow> argint 0 p s; s \<leftarrow> exit dev c n p s; Some (Blk s) }"

definition sys_getpid :: "nat \<Rightarrow> 'a runq_scheme \<Rightarrow> 'a runq_scheme kres option" where
  "sys_getpid p s = Some (Ret (p_pid (procs s p)) s)"

definition sys_fork :: "u64 \<Rightarrow> nat \<Rightarrow> 'a mqst_scheme \<Rightarrow> 'a mqst_scheme kres option" where
  "sys_fork tramp p s = map_option (\<lambda>(r, s). Ret r s) (fork tramp p s)"

definition sys_wait :: "nat \<Rightarrow> nat \<Rightarrow> 'a mqst_scheme \<Rightarrow> 'a mqst_scheme kres option" where
  "sys_wait c p s = arg (argaddr 0 p s) (\<lambda>a s. wait c a p s)"

text \<open>
  Growing only raises the size: the pages come with the first access. The result is an
  \<^verbatim>\<open>int\<close>, and \<^verbatim>\<open>sz + n > 0\<close> compares unsigned numbers.
\<close>

definition sys_sbrk :: "nat \<Rightarrow> 'a kstate_scheme \<Rightarrow> 'a kstate_scheme kres option" where
  "sys_sbrk p s = do {
     n \<leftarrow> argint 0 p s;
     let sz = p_sz (procs s p);
     let addr = sint (ucast sz :: u32);
     if n > 0 then Some (Ret addr (upd_proc p (\<lambda>x. x\<lparr>p_sz := sz + of_int n\<rparr>) s))
     else if sz + of_int n > 0 then do {
       (r, m) \<leftarrow> uvmdealloc (pagetable_of p s) sz (sz + of_int n) (k_mem s);
       Some (Ret addr (upd_proc p (\<lambda>x. x\<lparr>p_sz := r\<rparr>) (s\<lparr>k_mem := m\<rparr>)))
     }
     else Some (Ret (- 1) s)
   }"

text \<open>
  \<^verbatim>\<open>sys_sleep\<close> and each return from its \<^verbatim>\<open>sleep\<close>: \<open>ticks0\<close> is the time it was called.
  The comparison converts \<open>n\<close> to unsigned.
\<close>

definition sleep_until :: "nat \<Rightarrow> u32 \<Rightarrow> int \<Rightarrow> nat \<Rightarrow> 'a sysst_scheme \<Rightarrow> 'a sysst_scheme kres option" where
  "sleep_until c ticks0 n p s =
     (if ticks s - ticks0 < of_int n then
        if p_killed (procs s p) then Some (Ret (- 1) s) else map_option Blk (sleep c ChanTicks False 1 p s)
      else Some (Ret 0 s))"

definition sys_sleep :: "nat \<Rightarrow> nat \<Rightarrow> 'a sysst_scheme \<Rightarrow> 'a sysst_scheme kres option" where
  "sys_sleep c p s = do { n \<leftarrow> argint 0 p s; sleep_until c (ticks s) n p s }"

definition sys_kill :: "nat \<Rightarrow> 'a kstate_scheme \<Rightarrow> 'a kstate_scheme kres option" where
  "sys_kill p s = do { pid \<leftarrow> argint 0 p s; let (r, s) = kill pid s; Some (Ret r s) }"

definition sys_uptime :: "'a sysst_scheme \<Rightarrow> 'a sysst_scheme kres option" where
  "sys_uptime s = Some (Ret (uint (ticks s)) s)"

definition sys_cps :: "'a runq_scheme \<Rightarrow> 'a runq_scheme kres option" where
  "sys_cps s = map_option (\<lambda>(r, out). Ret r s) (cps s)"

definition sys_trace :: "nat \<Rightarrow> 'a kstate_scheme \<Rightarrow> 'a kstate_scheme kres option" where
  "sys_trace p s = do { n \<leftarrow> argint 0 p s; Some (Ret 0 (upd_proc p (\<lambda>x. x\<lparr>p_trace_mask := of_int n\<rparr>) s)) }"

text \<open>The result of \<^verbatim>\<open>argaddr\<close> is not looked at: the address is what the register holds.\<close>

definition raw_addr :: "nat \<Rightarrow> nat \<Rightarrow> 'a kstate_scheme \<Rightarrow> (u64 \<times> 'a kstate_scheme) option" where
  "raw_addr n p s = do { v \<leftarrow> argraw n p s; (r, s) \<leftarrow> argaddr n p s; Some (v, s) }"

definition sys_sysinfo :: "nat \<Rightarrow> 'a kstate_scheme \<Rightarrow> 'a kstate_scheme kres option" where
  "sys_sysinfo p s = do {
     free \<leftarrow> freebytes (k_mem s);
     let n = procnum s;
     (dst, s) \<leftarrow> raw_addr 0 p s;
     (r, m) \<leftarrow> copyout (pagetable_of p s) dst (u64_bytes free @ u64_bytes n) (k_mem s);
     Some (Ret (if r < 0 then - 1 else 0) (s\<lparr>k_mem := m\<rparr>))
   }"

definition sys_getparentpid :: "nat \<Rightarrow> 'a runq_scheme \<Rightarrow> 'a runq_scheme kres option" where
  "sys_getparentpid p s = map_option (\<lambda>q. Ret (p_pid (procs s q)) s) (p_parent (procs s p))"

definition sys_clone :: "u64 \<Rightarrow> nat \<Rightarrow> 'a shmst_scheme \<Rightarrow> 'a shmst_scheme kres option" where
  "sys_clone tramp p s = do {
     (fcn, s) \<leftarrow> raw_addr 0 p s;
     (ag, s) \<leftarrow> raw_addr 1 p s;
     (stack, s) \<leftarrow> raw_addr 2 p s;
     (r, s) \<leftarrow> clone tramp fcn ag stack p s;
     Some (Ret r s)
   }"

definition sys_join :: "nat \<Rightarrow> nat \<Rightarrow> 'a kstate_scheme \<Rightarrow> 'a kstate_scheme kres option" where
  "sys_join c p s = do { (a, s) \<leftarrow> raw_addr 0 p s; join c a p s }"

section \<open>Semaphores\<close>

definition sys_sh_var_read :: "'a sysst_scheme \<Rightarrow> 'a sysst_scheme kres option" where
  "sys_sh_var_read s = Some (Ret (sh_var s) s)"

definition sys_sh_var_write :: "nat \<Rightarrow> 'a sysst_scheme \<Rightarrow> 'a sysst_scheme kres option" where
  "sys_sh_var_write p s = do { n \<leftarrow> argint 0 p s; Some (Ret n (s\<lparr>sh_var := n\<rparr>)) }"

definition sem_create :: "int \<Rightarrow> 'a sysst_scheme \<Rightarrow> int \<times> 'a sysst_scheme" where
  "sem_create n_sem s =
     (if n_sem \<le> 0 then (- 1, s)
      else (case find (\<lambda>i. sem_allocated (sems s i) = 0) [0..<SEM_MAX_NUM] of
              None \<Rightarrow> (- 1, s)
            | Some i \<Rightarrow> (int i, (upd_sem i (\<lambda>x. x\<lparr>sem_allocated := 1, resource_count := n_sem\<rparr>) s)\<lparr>sem_used_count := sem_used_count s + 1\<rparr>)))"

definition sys_sem_create :: "nat \<Rightarrow> 'a sysst_scheme \<Rightarrow> 'a sysst_scheme kres option" where
  "sys_sem_create p s = do { n \<leftarrow> argint 0 p s; let (r, s) = sem_create n s; Some (Ret r s) }"

definition sem_arg :: "nat \<Rightarrow> 'a sysst_scheme \<Rightarrow> nat option option" where
  "sem_arg p s = do { i \<leftarrow> argint 0 p s; Some (if i < 0 \<or> i \<ge> int SEM_MAX_NUM then None else Some (nat i)) }"

definition sys_sem_free :: "nat \<Rightarrow> 'a sysst_scheme \<Rightarrow> 'a sysst_scheme kres option" where
  "sys_sem_free p s = do {
     a \<leftarrow> sem_arg p s;
     Some (case a of
       None \<Rightarrow> Ret (- 1) s
     | Some i \<Rightarrow> Ret 0 (if sem_allocated (sems s i) = 1
         then (upd_sem i (\<lambda>x. x\<lparr>sem_allocated := 0, resource_count := 0\<rparr>) s)\<lparr>sem_used_count := sem_used_count s - 1\<rparr> else s))
   }"

text \<open>
  The P operation of process \<open>p\<close> on CPU \<open>c\<close>. A process that has to wait sleeps with its own lock
  held; once woken it returns without looking at the count again.
\<close>

definition sem_p :: "nat \<Rightarrow> nat \<Rightarrow> nat \<Rightarrow> 'a sysst_scheme \<Rightarrow> 'a sysst_scheme kres option" where
  "sem_p c i p s = do {
     s \<leftarrow> acquire_proc c p s;
     let s = upd_sem i (\<lambda>x. x\<lparr>resource_count := resource_count x - 1\<rparr>) s;
     if resource_count (sems s i) < 0 then map_option Blk (sleep c (ChanSem i) True 1 p s)
     else Some (Ret 0 (lock_proc p None s))
   }"

definition sem_p_woken :: "nat \<Rightarrow> nat \<Rightarrow> 'a ptable_scheme \<Rightarrow> 'a ptable_scheme kres" where
  "sem_p_woken c p s = Ret 0 (resume c True p s)"

definition sys_sem_p :: "nat \<Rightarrow> nat \<Rightarrow> 'a sysst_scheme \<Rightarrow> 'a sysst_scheme kres option" where
  "sys_sem_p c p s = do {
     a \<leftarrow> sem_arg p s;
     (case a of None \<Rightarrow> Some (Ret (- 1) s) | Some i \<Rightarrow> sem_p c i p s)
   }"

definition sem_v :: "nat \<Rightarrow> 'a sysst_scheme \<Rightarrow> 'a sysst_scheme" where
  "sem_v i s =
     (let s = upd_sem i (\<lambda>x. x\<lparr>resource_count := resource_count x + 1\<rparr>) s
      in if resource_count (sems s i) \<le> 0 then wakeup (ChanSem i) s else s)"

definition sys_sem_v :: "nat \<Rightarrow> 'a sysst_scheme \<Rightarrow> 'a sysst_scheme kres option" where
  "sys_sem_v p s = do {
     a \<leftarrow> sem_arg p s;
     Some (case a of None \<Rightarrow> Ret (- 1) s | Some i \<Rightarrow> Ret 0 (sem_v i s))
   }"

section \<open>Shared memory and alarms\<close>

definition sys_shmgetat :: "nat \<Rightarrow> 'a shmst_scheme \<Rightarrow> 'a shmst_scheme kres option" where
  "sys_shmgetat p s = do {
     key \<leftarrow> argint 0 p s;
     num \<leftarrow> argint 1 p s;
     (r, s) \<leftarrow> shmgetat (of_int key) (of_int num) s;
     Some (Ret (sint r) s)
   }"

definition sys_shmrefcount :: "nat \<Rightarrow> 'a shmst_scheme \<Rightarrow> 'a shmst_scheme kres option" where
  "sys_shmrefcount p s = do { key \<leftarrow> argint 0 p s; Some (Ret (shmrefcount (of_int key) s) s) }"

definition sigalarm :: "int \<Rightarrow> u64 \<Rightarrow> nat \<Rightarrow> 'a runq_scheme \<Rightarrow> 'a runq_scheme" where
  "sigalarm n handler p s = upd_proc p (\<lambda>x. x\<lparr>p_alarm_interval := n, p_alarm_handler := handler, p_alarm_ticks := n\<rparr>) s"

definition sigreturn :: "nat \<Rightarrow> 'a kstate_scheme \<Rightarrow> 'a kstate_scheme" where
  "sigreturn p s =
     upd_proc p (\<lambda>x. x\<lparr>p_alarm_goingoff := False\<rparr>)
       (set_mem (memmove (p_trapframe (procs s p)) (p_alarm_trapframe (procs s p)) 288 (memof s)) s)"

definition sys_sigalarm :: "nat \<Rightarrow> 'a kstate_scheme \<Rightarrow> 'a kstate_scheme kres option" where
  "sys_sigalarm p s = do {
     n \<leftarrow> argint 0 p s;
     arg (argaddr 1 p s) (\<lambda>fn s. Some (Ret 0 (sigalarm n fn p s)))
   }"

definition sys_sigreturn :: "nat \<Rightarrow> 'a kstate_scheme \<Rightarrow> 'a kstate_scheme kres option" where
  "sys_sigreturn p s = Some (Ret 0 (sigreturn p s))"

end
