(* ===== verification/Trap.thy ===== *)
theory Trap
  imports Sysproc
begin

text \<open>
  Traps, \<^verbatim>\<open>kernel/interrupt/trap.c\<close>: system calls, page faults with copy-on-write, mapped files
  and lazy allocation, device interrupts and the clock, alarms, and the return to user space. The
  control and status registers that the code reads are arguments; the drivers of the devices are
  given as state transformers.
\<close>

section \<open>Device interrupts and the clock\<close>

text \<open>\<open>cur\<close> is \<^verbatim>\<open>mycpu()->proc\<close>.\<close>

definition clockintr :: "nat option \<Rightarrow> 'a sysst_scheme \<Rightarrow> 'a sysst_scheme option" where
  "clockintr cur s = sched_tick cur (wakeup ChanTicks (s\<lparr>ticks := ticks s + 1\<rparr>))"

definition UART0_IRQ :: int where "UART0_IRQ = 10"
definition VIRTIO0_IRQ :: int where "VIRTIO0_IRQ = 1"
definition E1000_IRQ :: int where "E1000_IRQ = 33"

record 's drivers =
  drv_uart :: "'s \<Rightarrow> 's option"
  drv_virtio :: "'s \<Rightarrow> 's option"
  drv_e1000 :: "'s \<Rightarrow> 's option"

text \<open>\<open>irq\<close> is what \<^verbatim>\<open>plic_claim\<close> returns, \<open>cpu\<close> the number of the CPU.\<close>

definition devintr :: "'a sysst_scheme drivers \<Rightarrow> u64 \<Rightarrow> int \<Rightarrow> nat \<Rightarrow> nat option \<Rightarrow> 'a sysst_scheme \<Rightarrow> (int \<times> 'a sysst_scheme) option" where
  "devintr D scause irq cpu cur s =
     (if scause AND 0x8000000000000000 \<noteq> 0 \<and> scause AND 0xff = 9 then
        map_option (Pair 1)
          (if irq = UART0_IRQ then drv_uart D s
           else if irq = VIRTIO0_IRQ then drv_virtio D s
           else if irq = E1000_IRQ then drv_e1000 D s
           else Some s)
      else if scause = 0x8000000000000001 then map_option (Pair 2) (if cpu = 0 then clockintr cur s else Some s)
      else Some (0, s))"

section \<open>Page faults\<close>

definition set_killed :: "nat \<Rightarrow> 'a runq_scheme \<Rightarrow> 'a runq_scheme" where
  "set_killed p s = upd_proc p (\<lambda>x. x\<lparr>p_killed := True\<rparr>) s"

text \<open>
  The faulting address reaches \<^verbatim>\<open>mmap_handler\<close> as an \<^verbatim>\<open>int\<close>, and is extended with its
  sign when it is compared with the addresses of the areas.
\<close>

definition in_vma :: "u64 \<Rightarrow> vm_area \<Rightarrow> bool" where
  "in_vma va v \<longleftrightarrow> vma_used v \<and> vma_addr v \<le> va \<and> va \<le> vma_addr v + of_int (vma_len v) - 1"

definition vma_pte_flags :: "vm_area \<Rightarrow> u64" where
  "vma_pte_flags v = PTE_U OR (if vma_prot v AND PROT_READ \<noteq> 0 then PTE_R else 0)
     OR (if vma_prot v AND PROT_WRITE \<noteq> 0 then PTE_W else 0) OR (if vma_prot v AND PROT_EXEC \<noteq> 0 then PTE_X else 0)"

definition mmap_handler :: "u64 \<Rightarrow> u64 \<Rightarrow> nat \<Rightarrow> 'a kstate_scheme \<Rightarrow> (int \<times> 'a kstate_scheme) option" where
  "mmap_handler stval cause p s =
     (let va = via_int stval
      in case find (\<lambda>i. in_vma va (p_vma (procs s p) i)) [0..<NVMA] of
           None \<Rightarrow> Some (- 1, s)
         | Some i \<Rightarrow> do {
             let v = p_vma (procs s p) i;
             f \<leftarrow> vma_vfile v;
             let vf = k_file s f;
             if cause = 13 \<and> \<not> f_readable vf then Some (- 1, s)
             else if cause = 15 \<and> \<not> f_writable vf then Some (- 1, s)
             else do {
               let (pa, m) = kalloc (k_mem s);
               let s = s\<lparr>k_mem := m\<rparr>;
               if pa = 0 then Some (- 1, s)
               else do {
                 x \<leftarrow> ilock (pid_of p s) (f_ip vf) (k_fs s);
                 let offset = ucast (of_int (vma_offset v) + PGROUNDDOWN (va - vma_addr v));
                 (r, m, x) \<leftarrow> read_phys (f_ip vf) pa offset 4096 (zero_page pa (k_mem s)) x;
                 x \<leftarrow> iunlock (pid_of p s) (f_ip vf) x;
                 let s = s\<lparr>k_mem := m, k_fs := x\<rparr>;
                 if r = 0 then do { m \<leftarrow> kfree pa (k_mem s); Some (- 1, s\<lparr>k_mem := m\<rparr>) }
                 else do {
                   (e, m) \<leftarrow> mappages (pagetable_of p s) (PGROUNDDOWN va) PGSIZE pa (vma_pte_flags v) (k_mem s);
                   if e \<noteq> 0 then do { m \<leftarrow> kfree pa m; Some (- 1, s\<lparr>k_mem := m\<rparr>) }
                   else Some (0, s\<lparr>k_mem := m\<rparr>)
                 }
               }
             }
           })"

text \<open>Lazy allocation below \<^verbatim>\<open>sz\<close>, and failing that below \<^verbatim>\<open>shm\<close>; no page means the end of the process.\<close>

definition kalloc_if :: "bool \<Rightarrow> 'a kstate_scheme \<Rightarrow> u64 \<times> 'a kstate_scheme" where
  "kalloc_if b s = (if b then let (pa, m) = kalloc (k_mem s) in (pa, s\<lparr>k_mem := m\<rparr>) else (0, s))"

definition lazy_fault :: "u64 \<Rightarrow> nat \<Rightarrow> 'a kstate_scheme \<Rightarrow> 'a kstate_scheme option" where
  "lazy_fault va p s =
     (let (pa, s) = kalloc_if (above_stack va p s \<and> va < p_sz (procs s p)) s;
          (pa, s) = (if pa \<noteq> 0 then (pa, s) else kalloc_if (above_stack va p s \<and> va < ucast (p_shm (procs s p))) s)
      in if pa = 0 then Some (set_killed p s)
         else do {
           (r, m) \<leftarrow> mappages (pagetable_of p s) (PGROUNDDOWN va) PGSIZE pa (PTE_R OR PTE_W OR PTE_X OR PTE_U) (zero_page pa (k_mem s));
           if r \<noteq> 0 then do { m \<leftarrow> kfree pa m; Some (set_killed p (s\<lparr>k_mem := m\<rparr>)) }
           else Some (s\<lparr>k_mem := m\<rparr>)
         })"

definition page_fault :: "u64 \<Rightarrow> u64 \<Rightarrow> nat \<Rightarrow> 'a kstate_scheme \<Rightarrow> 'a kstate_scheme option" where
  "page_fault cause va p s =
     (if cowpage (pagetable_of p s) va (k_mem s) = 0 then
        if va \<ge> p_sz (procs s p) then Some (set_killed p s)
        else do {
          (pa, m) \<leftarrow> cowalloc (pagetable_of p s) (PGROUNDDOWN va) (k_mem s);
          Some (if pa = 0 then set_killed p (s\<lparr>k_mem := m\<rparr>) else s\<lparr>k_mem := m\<rparr>)
        }
      else if above_stack va p s \<and> va < p_sz (procs s p) then do {
        (r, s) \<leftarrow> mmap_handler va cause p s;
        if r = 0 then Some s else lazy_fault va p s
      }
      else lazy_fault va p s)"

section \<open>Alarms\<close>

definition alarm_tick :: "nat \<Rightarrow> 'a kstate_scheme \<Rightarrow> 'a kstate_scheme" where
  "alarm_tick p s =
     (if p_alarm_interval (procs s p) = 0 then s
      else
        let s = upd_proc p (\<lambda>x. x\<lparr>p_alarm_ticks := wrap32 (p_alarm_ticks x - 1)\<rparr>) s; x = procs s p
        in if p_alarm_ticks x \<le> 0 \<and> \<not> p_alarm_goingoff x then
             let s = upd_proc p (\<lambda>x. x\<lparr>p_alarm_ticks := p_alarm_interval x\<rparr>) s;
                 s = set_mem (memmove (p_alarm_trapframe x) (p_trapframe x) 288 (memof s)) s;
                 s = tf_set tf_off_epc (p_alarm_handler x) p s
             in upd_proc p (\<lambda>x. x\<lparr>p_alarm_goingoff := True\<rparr>) s
           else s)"

section \<open>Entering and leaving the kernel\<close>

text \<open>
  Where a trap leads: back to user space, to a sleep in a system call, or to the scheduler, with the
  process gone or ready to run again.
\<close>

datatype 's trap_out = ToUser 's | Asleep 's | Gone 's | Yielded 's

definition exit_now :: "'a kstate_scheme devsw \<Rightarrow> nat \<Rightarrow> nat \<Rightarrow> 'a kstate_scheme \<Rightarrow> 'a kstate_scheme trap_out option" where
  "exit_now dev c p s = map_option Gone (exit dev c (- 1) p s)"

definition usertrap_end :: "'a kstate_scheme devsw \<Rightarrow> nat \<Rightarrow> int \<Rightarrow> nat \<Rightarrow> 'a kstate_scheme \<Rightarrow> 'a kstate_scheme trap_out option" where
  "usertrap_end dev c which_dev p s =
     (if p_killed (procs s p) then exit_now dev c p s
      else if which_dev = 2 then map_option Yielded (yield c p (alarm_tick p s))
      else Some (ToUser s))"

definition usertrap ::
  "'a sysst_scheme devsw \<Rightarrow> 'a sysst_scheme drivers \<Rightarrow> (int \<Rightarrow> (nat \<Rightarrow> 'a sysst_scheme \<Rightarrow> 'a sysst_scheme kres option) option) \<Rightarrow>
    bool \<Rightarrow> u64 \<Rightarrow> u64 \<Rightarrow> u64 \<Rightarrow> int \<Rightarrow> nat \<Rightarrow> nat \<Rightarrow> 'a sysst_scheme \<Rightarrow> 'a sysst_scheme trap_out option" where
  "usertrap dev D handlers spp sepc scause stval irq c p s =
     (if spp then None
      else
        let s = tf_set tf_off_epc sepc p s
        in if scause = 8 then
             if p_killed (procs s p) then exit_now dev c p s
             else (case syscall handlers p (tf_set tf_off_epc (tf_get tf_off_epc p s + 4) p s) of
                     None \<Rightarrow> None
                   | Some (Blk s) \<Rightarrow> Some (Asleep s)
                   | Some (Ret r s) \<Rightarrow> usertrap_end dev c 0 p s)
           else do {
             (which_dev, s) \<leftarrow> devintr D scause irq c (Some p) s;
             if which_dev \<noteq> 0 then usertrap_end dev c which_dev p s
             else if scause = 13 \<or> scause = 15 then do { s \<leftarrow> page_fault scause stval p s; usertrap_end dev c 0 p s }
             else usertrap_end dev c 0 p (set_killed p s)
           })"

text \<open>
  \<^verbatim>\<open>usertrapret\<close> fills the kernel's fields of the trap frame and sets the registers for
  \<^verbatim>\<open>sret\<close>: the status, the program counter and the page table to switch to.
\<close>

definition SSTATUS_SPP :: u64 where "SSTATUS_SPP = 0x100"
definition SSTATUS_SPIE :: u64 where "SSTATUS_SPIE = 0x20"

definition MAKE_SATP :: "u64 \<Rightarrow> u64" where
  "MAKE_SATP pagetable = push_bit 60 8 OR drop_bit 12 pagetable"

record user_regs =
  ur_sstatus :: u64
  ur_sepc :: u64
  ur_satp :: u64

definition usertrapret :: "u64 \<Rightarrow> u64 \<Rightarrow> u64 \<Rightarrow> u64 \<Rightarrow> nat \<Rightarrow> 'a kstate_scheme \<Rightarrow> user_regs \<times> 'a kstate_scheme" where
  "usertrapret satp usertrap_addr tp sstatus p s =
     (let s = tf_set 0 satp p s;
          s = tf_set 8 (p_kstack (procs s p) + PGSIZE) p s;
          s = tf_set 16 usertrap_addr p s;
          s = tf_set 32 tp p s
      in (\<lparr>ur_sstatus = (sstatus AND NOT SSTATUS_SPP) OR SSTATUS_SPIE, ur_sepc = tf_get tf_off_epc p s,
           ur_satp = MAKE_SATP (pagetable_of p s)\<rparr>, s))"

text \<open>A trap in the kernel: only interrupts are expected. \<open>cur\<close> is the process of the CPU, if any.\<close>

definition kerneltrap ::
  "'a sysst_scheme drivers \<Rightarrow> bool \<Rightarrow> bool \<Rightarrow> u64 \<Rightarrow> int \<Rightarrow> nat \<Rightarrow> nat option \<Rightarrow> 'a sysst_scheme \<Rightarrow> 'a sysst_scheme option" where
  "kerneltrap D spp intr scause irq c cur s =
     (if \<not> spp then None
      else if intr then None
      else do {
        (which_dev, s) \<leftarrow> devintr D scause irq c cur s;
        if which_dev = 0 then None
        else (case cur of
                Some p \<Rightarrow> if which_dev = 2 \<and> p_state (procs s p) = RUNNING then yield c p s else Some s
              | None \<Rightarrow> Some s)
      })"

section \<open>A page of zeroes on demand\<close>

definition lazy_perm :: u64 where
  "lazy_perm = PTE_R OR PTE_W OR PTE_X OR PTE_U"

lemma lazy_pte:
  assumes "page_ok m pa"
  shows "PTE2PA (PA2PTE pa OR lazy_perm OR PTE_V) = pa"
    and "(PA2PTE pa OR lazy_perm OR PTE_V) AND PTE_V \<noteq> 0" "(PA2PTE pa OR lazy_perm OR PTE_V) AND PTE_U \<noteq> 0"
proof -
  have "lazy_perm OR PTE_V < 0x400" by (simp add: lazy_perm_def layout)
  then have "PTE2PA (PA2PTE pa OR (lazy_perm OR PTE_V)) = PGROUNDDOWN pa"
    by (intro PTE2PA_PA2PTE page_ok_below [OF assms])
  then show "PTE2PA (PA2PTE pa OR lazy_perm OR PTE_V) = pa"
    using PGROUNDDOWN_aligned [OF page_ok_aligned [OF assms]] by (simp add: or.assoc)
  have "bit ((PA2PTE pa OR lazy_perm OR PTE_V) AND PTE_V) 0" "bit ((PA2PTE pa OR lazy_perm OR PTE_V) AND PTE_U) 4"
    by (simp_all add: lazy_perm_def layout bit_simps)
  then show "(PA2PTE pa OR lazy_perm OR PTE_V) AND PTE_V \<noteq> 0" "(PA2PTE pa OR lazy_perm OR PTE_V) AND PTE_U \<noteq> 0"
    by auto
qed

text \<open>The user's view is unchanged by whatever leaves the leaves and the pages in use alone.\<close>

lemma user_byte_kept:
  assumes "kvalid m" "pt_wf m root" "user_private m root" "kvalid m'" "pt_wf m' root"
    and "leaf m' root x = leaf m root x"
    and "\<And>q b. in_use m q \<Longrightarrow> \<not> is_table m root q \<Longrightarrow> in_page q b \<Longrightarrow> mem m' b = mem m b"
  shows "user_byte m' root x = user_byte m root x"
proof -
  have "mem m' (PTE2PA (leaf m root x) + (x - PGROUNDDOWN x)) = mem m (PTE2PA (leaf m root x) + (x - PGROUNDDOWN x))"
    if "user_mapped m root x"
  proof (rule assms(7))
    show "in_use m (PTE2PA (leaf m root x))" "\<not> is_table m root (PTE2PA (leaf m root x))"
      using assms(3) that by (simp_all add: user_private_def)
    show "in_page (PTE2PA (leaf m root x)) (PTE2PA (leaf m root x) + (x - PGROUNDDOWN x))"
      using page_off_less [of x] by (simp add: in_page_def off_word)
  qed
  then show ?thesis
    using walkaddr_round [OF assms(1,2), of x] walkaddr_round [OF assms(4,5), of x] assms(6)
    by (auto simp: user_byte_def Let_def user_mapped_def)
qed

lemma map_fresh_page:
  assumes v: "kvalid m" and wf: "pt_wf m root" and up: "user_private m root" and va: "va < MAXVA"
    and inv: "leaf m root va AND PTE_V = 0" and a: "kalloc m = (pa, m1)" "pa \<noteq> 0"
  obtains (nomem) m2 m3 where
      "mappages root (PGROUNDDOWN va) PGSIZE pa lazy_perm (zero_page pa m1) = Some (- 1, m2)" "kfree pa m2 = Some m3"
  | (mapped) m2 where
      "mappages root (PGROUNDDOWN va) PGSIZE pa lazy_perm (zero_page pa m1) = Some (0, m2)"
      "kvalid m2" "pt_wf m2 root"
      "\<And>x. x < MAXVA \<Longrightarrow> user_byte m2 root x = (if PGROUNDDOWN x = PGROUNDDOWN va then Some 0 else user_byte m root x)"
proof -
  let ?z = "zero_page pa m1"
  note fp = fresh_page [OF v wf a]
  have va': "page_aligned (PGROUNDDOWN va)" "PGROUNDDOWN va < MAXVA" using va by (simp_all add: MAXVA_round)
  have pu: "in_use ?z pa" by (simp add: fp(7))
  from fp(1) fp(11) va' show thesis
  proof (cases rule: mappages_one [where pa = pa and perm = lazy_perm])
    case remap
    then show thesis using inv by (simp add: fp(10))
  next
    case (nomem m2)
    have "in_use m2 pa" using nomem(2) evolves_in_use pu by (auto simp: extends_def)
    moreover have "kvalid m2" using nomem(2) by (simp add: extends_def evolves_def)
    ultimately obtain m3 where "kfree pa m2 = Some m3" unfolding in_use_def by (metis kfree_page)
    then show thesis using that(1) nomem(1) by blast
  next
    case (mapped m2)
    have e: "kvalid m2" "pt_wf m2 root" using mapped(2) by (simp_all add: evolves_def)
    have nt: "\<not> is_table ?z root pa" using fp(4,9) by (auto simp: is_table_def)
    have "user_byte m2 root x = (if PGROUNDDOWN x = PGROUNDDOWN va then Some 0 else user_byte m root x)" if x: "x < MAXVA" for x
    proof (cases "PGROUNDDOWN x = PGROUNDDOWN va")
      case True
      then have "leaf m2 root x = PA2PTE pa OR lazy_perm OR PTE_V"
        using mapped(4) [of x] same_path_page [OF va'(2), of x] x va' by (simp add: PGROUNDDOWN_aligned)
      then have "user_mapped m2 root x" "PTE2PA (leaf m2 root x) = pa"
        using lazy_pte [OF fp(2)] x by (simp_all add: user_mapped_def)
      then have w: "walkaddr root (PGROUNDDOWN x) m2 = pa" by (simp add: walkaddr_round [OF e])
      have b: "in_page pa (pa + (x - PGROUNDDOWN x))"
        using page_off_less [of x] by (simp add: in_page_def off_word)
      then have "mem m2 (pa + (x - PGROUNDDOWN x)) = mem ?z (pa + (x - PGROUNDDOWN x))"
        using mapped(2) pu nt by (simp add: evolves_def del: zero_page_sel)
      also have "\<dots> = 0" using b by simp
      finally show ?thesis using True w a(2) by (simp add: user_byte_def)
    next
      case False
      then have "leaf m2 root x = leaf m root x"
        using mapped(4) [of x] same_path_page [OF va'(2), of x] x va' fp(10) by (simp add: PGROUNDDOWN_aligned)
      moreover have "mem m2 b = mem m b" if "in_use m q" "\<not> is_table m root q" "in_page q b" for q b
      proof -
        have "\<not> is_table ?z root q" using that(2) fp(9) by (auto simp: is_table_def)
        then have "mem m2 b = mem ?z b" using mapped(2) fp(7) that by (simp add: evolves_def)
        then show ?thesis using fp(8) that by simp
      qed
      ultimately show ?thesis using user_byte_kept [OF v wf up e] False by simp
    qed
    then show thesis using that(2) mapped(1) e by blast
  qed
qed

text \<open>Where all tables of a walk exist, nothing is allocated.\<close>

lemma walk_level_there:
  assumes "k + l = 2" and "tbl s root k va = Some p" and "tbl s root 2 va = Some q"
  shows "walk_level l p va alloc s = (pte_addr q 0 va, s)"
  using assms
proof (induction l arbitrary: k p)
  case (Suc l)
  have lev: "2 - k = Suc l" and k: "Suc k + l = 2" "k < 2" using Suc.prems(1) by auto
  have "tbl s root (Suc k) va \<noteq> None" using tbl_None_mono [of s root "Suc k" va 2] k Suc.prems(3) by auto
  then have v: "pte_at s (pte_addr p (2 - k) va) AND PTE_V \<noteq> 0" using Suc.prems(2) by auto
  then have "tbl s root (Suc k) va = Some (PTE2PA (pte_at s (pte_addr p (2 - k) va)))" using Suc.prems(2) by simp
  then show ?case using Suc.IH [OF k(1) _ Suc.prems(3)] v lev by (simp add: Let_def)
qed simp

lemma mappages_there:
  assumes "kvalid s" and "pt_wf s root" and "page_aligned va" and "va < MAXVA" and "tbl s root 2 va = Some q"
  shows "mappages root va PGSIZE pa perm s \<noteq> Some (- 1, s')"
proof -
  have w: "walk root va True s = Some (pte_addr q 0 va, s)"
    using walk_level_there [of 0 2 s root va root q True] assms(4,5) by (simp add: walk_def)
  moreover have "pte_addr q 0 va \<noteq> 0" using pte_addr_nz assms(1) pt_wfD(1) [OF assms(2) order_refl assms(5)] by blast
  ultimately show ?thesis
    unfolding mappages_def PGROUNDDOWN_aligned [OF assms(3)] PGROUNDDOWN_page_end [OF assms(3)]
    by (subst mappages_from.simps) simp
qed


text \<open>
  A process with one mapped page and a size of two, a stack pointer in the first page, and one free
  page of memory.
\<close>

definition spare :: u64 where "spare = 0x87FFB000"

definition fault_mem :: kmem where
  "fault_mem = demo\<lparr>mem := store64 48 1 (mem demo), kernel_end := spare, freelist := (\<lambda>_. 0)(0 := spare),
     refcnt := (\<lambda>_. 1)(page_idx spare := 0)\<rparr>"

definition fault_state :: kstate where
  "fault_state = demo_kernel\<lparr>k_mem := fault_mem, procs := (\<lambda>_. zero_proc\<lparr>p_pagetable := demo_root, p_sz := 0x2000\<rparr>)\<rparr>"

lemma fault_page_ok: "page_ok fault_mem p \<longleftrightarrow> p = spare \<or> page_ok demo p"
proof -
  have d: "kernel_end demo = demo_root" by (simp add: demo_def demo_empty_def)
  have "page_ok fault_mem p \<Longrightarrow> p = spare \<or> page_ok demo p"
  proof -
    assume ok: "page_ok fault_mem p"
    then obtain j where j: "unat p = 4096 * j" by (auto simp: page_ok_def)
    have "0x87FFB000 \<le> unat p"
      using ok by (simp add: page_ok_def fault_mem_def spare_def word_less_nat_alt word_le_nat_alt)
    then have "j = 0x87FFB \<or> 0x87FFC \<le> j" using j by auto
    then show ?thesis
      using j ok by (auto simp: page_ok_def d demo_root_def spare_def word_less_nat_alt word_le_nat_alt word_unat_eq_iff)
  qed
  moreover have "page_ok demo p \<Longrightarrow> page_ok fault_mem p"
    by (auto simp: page_ok_def d demo_root_def fault_mem_def spare_def word_less_nat_alt)
  moreover have "page_ok fault_mem spare" by (simp add: page_ok_def fault_mem_def spare_def layout)
  ultimately show ?thesis by blast
qed

lemma fault_refcnt: "page_ok demo p \<Longrightarrow> refcnt fault_mem (page_idx p) = 1"
  by (auto simp: demo_page_ok fault_mem_def page_idx_def demo_pages spare_def)

lemma fault_in_use: "in_use fault_mem p \<longleftrightarrow> in_use demo p"
proof -
  have "\<not> in_use fault_mem spare" by (simp add: in_use_def fault_mem_def)
  moreover have "\<not> page_ok demo spare" by (simp add: page_ok_def demo_def demo_empty_def demo_root_def spare_def)
  ultimately show ?thesis
    using fault_page_ok fault_refcnt [of p] by (auto simp: in_use_def demo_def demo_empty_def)
qed

lemma fault_mem_same: "0x87FFB000 \<le> unat a \<Longrightarrow> mem fault_mem a = mem demo a"
  unfolding fault_mem_def using store_le_outside [of 8 a 48] unat_sub_outside [of a 48 8] by simp

lemma fault_tables: "k \<le> 2 \<Longrightarrow> tbl fault_mem demo_root k va = tbl demo demo_root k va"
    "leaf fault_mem demo_root va = leaf demo demo_root va"
proof -
  have "mem fault_mem a = mem demo a" if "is_table demo demo_root p" "in_page p a" for p a
  proof -
    have "page_ok demo p" using that(1) pt_wfD(1) [OF demo_pt_wf] unfolding is_table_def in_use_def by blast
    then have "unat p \<in> {0x87FFC000, 0x87FFD000, 0x87FFE000, 0x87FFF000}" by (auto simp: demo_page_ok demo_pages)
    moreover have "\<not> unat a < unat p" using that(2) unat_sub_outside [of a p 4096] calculation by (auto simp: in_page_def)
    ultimately show ?thesis by (intro fault_mem_same) auto
  qed
  then show "k \<le> 2 \<Longrightarrow> tbl fault_mem demo_root k va = tbl demo demo_root k va"
    "leaf fault_mem demo_root va = leaf demo demo_root va"
    using tables_frame [of demo demo_root fault_mem] by blast+
qed

lemma fault_pt_wf: "pt_wf fault_mem demo_root"
  using pt_wf_frame [OF demo_pt_wf fault_tables(1)] fault_in_use by blast

lemma fault_private: "user_private fault_mem demo_root"
proof -
  have "is_table fault_mem demo_root p = is_table demo demo_root p" for p
    unfolding is_table_def by (metis fault_tables(1))
  then show ?thesis
    using demo_private unfolding user_private_def user_mapped_def fault_tables(2) fault_in_use by blast
qed

lemma demo_zero:
  assumes "unat a < 0x87FFC000"
  shows "mem demo a = 0"
proof -
  have "\<not> in_page q a" if "q \<in> {demo_root, demo_l1, demo_l0}" for q
    using that assms unfolding in_page_def by (intro unat_sub_outside) (auto simp: demo_pages)
  then show ?thesis by (simp add: demo_def set_pte_outside del: set_pte_sel) (simp add: demo_empty_def)
qed

lemma fault_kvalid: "kvalid fault_mem"
proof -
  have "mem fault_mem (spare + of_nat i) = 0" if "i < 8" for i
  proof -
    have u: "unat (spare + of_nat i) = 0x87FFB000 + i" using that by (simp add: spare_def unat_word_ariths)
    then have "mem demo (spare + of_nat i) = 0" using that by (intro demo_zero) simp
    then show ?thesis using u by (simp add: fault_mem_same)
  qed
  then have "load64 (mem fault_mem) spare = load64 (\<lambda>_. 0) spare" by (rule load_le_cong)
  then have l: "load64 (mem fault_mem) spare = 0" by (simp add: load64_zero)
  let ?F = "(\<lambda>_. [])(0 := [spare]) :: nat \<Rightarrow> u64 list"
  have nd: "p \<noteq> spare" if "page_ok demo p" for p
    using that by (auto simp: page_ok_def demo_def demo_empty_def demo_root_def spare_def)
  have r: "(refcnt fault_mem (page_idx p) = 0) = (\<exists>i. p \<in> set (?F i)) \<and> 0 \<le> refcnt fault_mem (page_idx p) \<and>
      is_int32 (refcnt fault_mem (page_idx p))" if "page_ok fault_mem p" for p
  proof (cases "p = spare")
    case True
    then show ?thesis by (auto simp: fault_mem_def is_int32_def)
  next
    case False
    then show ?thesis using fault_refcnt that fault_page_ok by (auto simp: is_int32_def)
  qed
  have f: "freelist fault_mem i = (if i = 0 then spare else 0)" "hartid fault_mem = 0" "kernel_end fault_mem = spare" for i
    by (simp_all add: fault_mem_def demo_def demo_empty_def)
  have "kmem_inv fault_mem ?F"
    unfolding kmem_inv_def using r l fault_page_ok by (simp add: f NCPU_def spare_def)
  then show ?thesis using kvalid_def by blast
qed

lemma fault_kalloc: "fst (kalloc fault_mem) = spare"
  by (simp add: kalloc_def fault_mem_def demo_def demo_empty_def spare_def Let_def)


section \<open>Alarms return to where they struck\<close>

definition alarm_due :: "proc \<Rightarrow> bool" where
  "alarm_due x \<longleftrightarrow> p_alarm_interval x \<noteq> 0 \<and> wrap32 (p_alarm_ticks x - 1) \<le> 0 \<and> \<not> p_alarm_goingoff x"

text \<open>The two trap frames lie in different pages.\<close>

definition frames_apart :: "proc \<Rightarrow> bool" where
  "frames_apart x \<longleftrightarrow> page_aligned (p_trapframe x) \<and> page_aligned (p_alarm_trapframe x) \<and>
     p_trapframe x \<noteq> p_alarm_trapframe x \<and> p_trapframe x < PHYSTOP \<and> p_alarm_trapframe x < PHYSTOP"

lemma frame_byte:
  fixes a b :: u64
  assumes "page_aligned a" "page_aligned b" "a \<noteq> b" "i < 4096" "k + n \<le> 4096"
  shows "\<not> unat (b + of_nat i - (a + of_nat k)) < n"
proof
  assume l: "unat (b + of_nat i - (a + of_nat k)) < n"
  have "unat (b + of_nat i - a) = unat ((b + of_nat i - (a + of_nat k)) + of_nat k)" by (simp add: algebra_simps)
  also have "\<dots> = unat (b + of_nat i - (a + of_nat k)) + k"
    using l assms(5) by (intro unat_plus_no_wrap) simp
  finally have "in_page a (b + of_nat i)" using l assms(5) by (simp add: in_page_def)
  moreover have "in_page b (b + of_nat i)" using assms(4) by (simp add: in_page_def)
  ultimately show False using in_page_unique [OF assms(1,2)] assms(3) by blast
qed

lemma alarm_tick_due:
  assumes "alarm_due (procs s p)"
  shows "alarm_tick p s =
    upd_proc p (\<lambda>x. x\<lparr>p_alarm_goingoff := True\<rparr>)
      (tf_set tf_off_epc (p_alarm_handler (procs s p)) p
        (set_mem (memmove (p_alarm_trapframe (procs s p)) (p_trapframe (procs s p)) 288 (memof s))
          (upd_proc p (\<lambda>x. x\<lparr>p_alarm_ticks := p_alarm_interval x\<rparr>) s)))"
  using assms by (simp add: alarm_due_def alarm_tick_def Let_def upd_proc_def set_mem_def tf_set_def)


definition alarm_state :: kstate where
  "alarm_state = demo_kernel\<lparr>procs := (\<lambda>_. zero_proc\<lparr>p_trapframe := 0x80000000, p_alarm_trapframe := 0x80001000,
     p_alarm_interval := 1, p_alarm_ticks := 1, p_alarm_handler := 0x30\<rparr>)\<rparr>"


text \<open>
  The system call that ends the handler puts its own result, 0, over the register \<^verbatim>\<open>a0\<close> that
  \<^verbatim>\<open>sigreturn\<close> has restored.
\<close>

lemma sigreturn_loses_a0:
  assumes "sint (ucast (tf_get tf_off_a7 p s) :: u32) = n" "0 < n" "handlers n = Some sys_sigreturn"
  shows "\<exists>t. syscall handlers p s = Some (Ret 0 t) \<and> tf_get tf_off_a0 p t = 0"
  using assms by (simp add: syscall_def sys_sigreturn_def tf_get_def tf_set_def del: load_le.simps store_le.simps)

end
