(* ===== verification/Syscalls.thy ===== *)
theory Syscalls
  imports Trap
begin

text \<open>
  The table of system calls of \<^verbatim>\<open>kernel/syscall.c\<close>, which puts the calls of the other theories
  together, and the listing of a page table, \<^verbatim>\<open>vmprint\<close> of \<^verbatim>\<open>kernel/mm/vm.c\<close>, which one of
  them prints.
\<close>

section \<open>Printing a page table\<close>

definition vm_indent :: "nat \<Rightarrow> string" where
  "vm_indent d = (if d = 1 then ''..'' else if d = 2 then ''.. ..'' else if d = 3 then ''.. .. ..'' else [])"

function vmprint_helper :: "u64 \<Rightarrow> nat \<Rightarrow> kmem \<Rightarrow> string option" where
  "vmprint_helper pagetable d m =
     (if d = 0 \<or> d \<ge> 4 then None
      else ofold (\<lambda>i out.
        let pte = pte_at m (pagetable + 8 * of_nat i)
        in if pte AND PTE_V \<noteq> 0 then do {
             a \<leftarrow> k_printf (''%s%d: pte %p pa %p'' @ [CHR 0x0A])
                    [VStr (Some (vm_indent d)), VInt (int i), VLong pte, VLong (PTE2PA pte)];
             b \<leftarrow> (if pte AND (PTE_R OR PTE_W OR PTE_X) = 0 then vmprint_helper (PTE2PA pte) (d + 1) m else Some []);
             Some (out @ a @ b)
           }
           else Some out) [0..<512] [])"
  by pat_completeness auto
termination by (relation "measure (\<lambda>(pagetable, d, m). 4 - d)") auto

definition vmprint :: "u64 \<Rightarrow> kmem \<Rightarrow> string option" where
  "vmprint pagetable m = do {
     a \<leftarrow> k_printf (''page table %p'' @ [CHR 0x0A]) [VLong pagetable];
     b \<leftarrow> vmprint_helper pagetable 1 m;
     Some (a @ b)
   }"

definition sys_print_pgtable :: "nat \<Rightarrow> 'a kstate_scheme \<Rightarrow> 'a kstate_scheme kres option" where
  "sys_print_pgtable p s = map_option (\<lambda>out. Ret 0 s) (vmprint (pagetable_of p s) (k_mem s))"

section \<open>The table\<close>

text \<open>
  What the calls need besides the state: the address of the trampoline, the driver table, the CPU,
  two buffers on the kernel stack that the source uses without initialising them or by address, and
  the values in the argument registers at the calls whose C functions have parameters.
\<close>

record 's call_env =
  env_tramp :: u64
  env_dev :: "'s devsw"
  env_cpu :: nat
  env_path_buf :: "u8 list"
  env_stack_buf :: u64
  env_a0 :: u32
  env_a1 :: u64
  env_a2 :: int

definition syscalls :: "'a sysst_scheme call_env \<Rightarrow> int \<Rightarrow> (nat \<Rightarrow> 'a sysst_scheme \<Rightarrow> 'a sysst_scheme kres option) option" where
  "syscalls e = map_of
     [(1, sys_fork (env_tramp e)), (2, sys_exit (env_dev e) (env_cpu e)), (3, sys_wait (env_cpu e)), (4, sys_pipe),
      (5, sys_read (env_dev e)), (6, sys_kill), (7, sys_exec (env_tramp e)), (8, sys_fstat), (9, sys_chdir), (10, sys_dup),
      (11, sys_getpid), (12, sys_sbrk), (13, sys_sleep (env_cpu e)), (14, \<lambda>p. sys_uptime), (15, sys_open),
      (16, sys_write (env_dev e)), (17, sys_mknod), (18, sys_unlink), (19, sys_link), (20, sys_mkdir), (21, sys_close),
      (22, \<lambda>p. sys_cps), (23, sys_trace), (24, sys_sysinfo), (25, sys_setPriority),
      (26, sys_execve (env_tramp e) (env_stack_buf e)), (27, sys_getparentpid), (28, sys_print_pgtable), (29, sys_mmap),
      (30, sys_munmap (env_dev e)), (31, \<lambda>p. sys_sh_var_read), (32, sys_sh_var_write), (33, sys_sem_create),
      (34, sys_sem_free), (35, sys_sem_p (env_cpu e)), (36, sys_sem_v), (37, sys_symlink (env_path_buf e)), (38, sys_mkf),
      (39, sys_shmgetat), (40, sys_shmrefcount), (41, sys_getcwd), (42, sys_dup_new), (43, sys_sigalarm),
      (44, sys_sigreturn), (45, sys_connect), (46, \<lambda>p s. let (r, s) = sys_mqget (env_a0 e) s in Some (Ret r s)),
      (47, \<lambda>p. sys_msgsnd (env_a0 e) (env_a1 e) (env_a2 e)), (48, \<lambda>p. sys_msgrcv (env_a0 e) (env_a1 e) (env_a2 e)),
      (49, sys_chmod), (50, sys_geti), (51, sys_recoveri), (52, sys_clone (env_tramp e)), (53, sys_join (env_cpu e))]"

end
