(* ===== verification/Grep.thy ===== *)
theory Grep
  imports Ulib
begin

text \<open>
  \<^verbatim>\<open>user/program/grep.c\<close>: the regular expression matcher and the loop that reads a file
  through a buffer of 1024 bytes. Pattern and text are character lists without the NUL that
  ends them in C. A \<^verbatim>\<open>read\<close> returns some of what is left, at most the space in the buffer; how
  much is up to the file, and a parameter: \<open>rd i\<close> bounds the \<open>i\<close>th read.
\<close>

section \<open>The matcher\<close>

function matchhere :: "string \<Rightarrow> string \<Rightarrow> bool" and matchstar :: "char \<Rightarrow> string \<Rightarrow> string \<Rightarrow> bool" where
  "matchhere re text =
     (if re = [] then True
      else if tl re \<noteq> [] \<and> hd (tl re) = CHR ''*'' then matchstar (hd re) (tl (tl re)) text
      else if hd re = CHR ''$'' \<and> tl re = [] then text = []
      else if text \<noteq> [] \<and> (hd re = CHR ''.'' \<or> hd re = hd text) then matchhere (tl re) (tl text)
      else False)"
| "matchstar c re text =
     (if matchhere re text then True
      else if text \<noteq> [] \<and> (hd text = c \<or> c = CHR ''.'') then matchstar c re (tl text)
      else False)"
  by pat_completeness auto
termination
  by (relation "measure (\<lambda>x. case x of Inl (re, t) \<Rightarrow> 2 * length re + length t | Inr (c, re, t) \<Rightarrow> 2 * length re + length t + 1)")
    (auto simp: neq_Nil_conv)

declare matchhere.simps [simp del] matchstar.simps [simp del]

fun match_from :: "string \<Rightarrow> string \<Rightarrow> bool" where
  "match_from re text = (matchhere re text \<or> (case text of [] \<Rightarrow> False | c # text \<Rightarrow> match_from re text))"

declare match_from.simps [simp del]

definition match :: "string \<Rightarrow> string \<Rightarrow> bool" where
  "match re text = (if re \<noteq> [] \<and> hd re = CHR ''^'' then matchhere (tl re) text else match_from re text)"

section \<open>The read loop\<close>

text \<open>\<^verbatim>\<open>strchr(p, '\n')\<close> on a buffer that may hold a NUL: the search ends there.\<close>

definition find_newline :: "string \<Rightarrow> nat option" where
  "find_newline p = strchr (takeWhile (\<lambda>c. c \<noteq> CHR 0x00) p) CHR 0x0A"

text \<open>One pass over the buffer: what is written and what is left behind the last newline.\<close>

lemma find_newline_Some:
  assumes "find_newline p = Some q"
  shows "q < length p \<and> p ! q = CHR 0x0A \<and> CHR 0x0A \<notin> set (take q p)"
proof -
  obtain t r where t: "t = takeWhile (\<lambda>c. c \<noteq> CHR 0x00) p" "p = t @ r" by (metis takeWhile_dropWhile_id)
  then show ?thesis using assms by (auto simp: find_newline_def strchr_Some nth_append simp flip: t(1))
qed

function grep_scan :: "string \<Rightarrow> string \<Rightarrow> string \<times> string" where
  "grep_scan pattern p =
     (case find_newline p of
        None \<Rightarrow> ([], p)
      | Some q \<Rightarrow>
          let (out, rest) = grep_scan pattern (drop (q + 1) p)
          in ((if match pattern (take q p) then take (q + 1) p else []) @ out, rest))"
  by pat_completeness auto
termination
  by (relation "measure (\<lambda>(pattern, p). length p)") (auto dest!: find_newline_Some)

declare grep_scan.simps [simp del]

definition read_count :: "(nat \<Rightarrow> nat) \<Rightarrow> nat \<Rightarrow> nat \<Rightarrow> string \<Rightarrow> nat" where
  "read_count rd i space input = min (max 1 (rd i)) (min space (length input))"

function grep_loop :: "(nat \<Rightarrow> nat) \<Rightarrow> nat \<Rightarrow> string \<Rightarrow> string \<Rightarrow> string \<Rightarrow> string" where
  "grep_loop rd i pattern buf input =
     (let n = read_count rd i (1024 - length buf - 1) input
      in if n = 0 then []
         else
           let (out, rest) = grep_scan pattern (buf @ take n input)
           in out @ grep_loop rd (i + 1) pattern rest (drop n input))"
  by pat_completeness auto
termination
  by (relation "measure (\<lambda>(rd, i, pattern, buf, input). length input)") (auto simp: read_count_def)

declare grep_loop.simps [simp del]

definition grep :: "(nat \<Rightarrow> nat) \<Rightarrow> string \<Rightarrow> string \<Rightarrow> string" where
  "grep rd pattern input = grep_loop rd 0 pattern [] input"

section \<open>Meaning of a pattern\<close>

datatype item = One char | Star char

definition fits :: "char \<Rightarrow> char \<Rightarrow> bool" where
  "fits c x \<longleftrightarrow> c = CHR ''.'' \<or> c = x"

text \<open>The items of a pattern, and whether it ends in a dollar sign that anchors it.\<close>

fun items :: "string \<Rightarrow> item list \<times> bool" where
  "items [] = ([], False)"
| "items [c] = (if c = CHR ''$'' then ([], True) else ([One c], False))"
| "items (c # d # re) =
     (if d = CHR ''*'' then (let (is, e) = items re in (Star c # is, e))
      else (let (is, e) = items (d # re) in (One c # is, e)))"

text \<open>The words that a sequence of items denotes.\<close>

inductive denotes :: "item list \<Rightarrow> string \<Rightarrow> bool" where
  empty: "denotes [] []"
| one: "fits c x \<Longrightarrow> denotes is w \<Longrightarrow> denotes (One c # is) (x # w)"
| star: "(\<forall>x \<in> set v. fits c x) \<Longrightarrow> denotes is w \<Longrightarrow> denotes (Star c # is) (v @ w)"

inductive_cases denotes_NilE: "denotes [] w"
inductive_cases denotes_OneE: "denotes (One c # is) w"
inductive_cases denotes_StarE: "denotes (Star c # is) w"

definition begins :: "item list \<times> bool \<Rightarrow> string \<Rightarrow> bool" where
  "begins p text \<longleftrightarrow> (\<exists>w post. text = w @ post \<and> denotes (fst p) w \<and> (snd p \<longrightarrow> post = []))"

lemma begins_Nil: "begins ([], e) text \<longleftrightarrow> (e \<longrightarrow> text = [])"
  by (auto simp: begins_def intro: denotes.empty elim: denotes_NilE)

lemma begins_One: "begins (One c # is, e) text \<longleftrightarrow> (\<exists>x t. text = x # t \<and> fits c x \<and> begins (is, e) t)"
proof
  assume "begins (One c # is, e) text"
  then obtain u post where u: "text = u @ post" "denotes (One c # is) u" "e \<longrightarrow> post = []" by (auto simp: begins_def)
  from u(2) obtain x w where "u = x # w" "fits c x" "denotes is w" by (elim denotes_OneE)
  with u have "text = x # w @ post" "fits c x" "denotes is w" "e \<longrightarrow> post = []" by auto
  then show "\<exists>x t. text = x # t \<and> fits c x \<and> begins (is, e) t"
    by (intro exI [of _ x] exI [of _ "w @ post"]) (auto simp: begins_def)
next
  assume "\<exists>x t. text = x # t \<and> fits c x \<and> begins (is, e) t"
  then obtain x w post where "text = x # w @ post" "fits c x" "denotes is w" "e \<longrightarrow> post = []"
    by (auto simp: begins_def)
  then show "begins (One c # is, e) text"
    unfolding begins_def by (intro exI [of _ "x # w"] exI [of _ post]) (auto intro: denotes.one)
qed

lemma begins_Star: "begins (Star c # is, e) text \<longleftrightarrow> begins (is, e) text \<or> (\<exists>x t. text = x # t \<and> fits c x \<and> begins (Star c # is, e) t)"
proof
  assume "begins (Star c # is, e) text"
  then obtain u post where u: "text = u @ post" "denotes (Star c # is) u" "e \<longrightarrow> post = []" by (auto simp: begins_def)
  from u(2) obtain v w where "u = v @ w" "\<forall>x \<in> set v. fits c x" "denotes is w" by (elim denotes_StarE)
  with u have t: "text = v @ w @ post" "\<forall>x \<in> set v. fits c x" "denotes is w" "e \<longrightarrow> post = []" by auto
  then show "begins (is, e) text \<or> (\<exists>x t. text = x # t \<and> fits c x \<and> begins (Star c # is, e) t)"
  proof (cases v)
    case (Cons x v')
    then have "begins (Star c # is, e) (v' @ w @ post)"
      using t unfolding begins_def by (intro exI [of _ "v' @ w"] exI [of _ post]) (auto intro: denotes.star)
    then show ?thesis using Cons t by auto
  qed (auto simp: begins_def)
next
  assume "begins (is, e) text \<or> (\<exists>x t. text = x # t \<and> fits c x \<and> begins (Star c # is, e) t)"
  then show "begins (Star c # is, e) text"
  proof (elim disjE exE conjE)
    assume "begins (is, e) text"
    then obtain w post where "text = w @ post" "denotes is w" "e \<longrightarrow> post = []" by (auto simp: begins_def)
    then show ?thesis unfolding begins_def using denotes.star [of "[]" c "is" w]
      by (intro exI [of _ w] exI [of _ post]) simp
  next
    fix x t assume "text = x # t" "fits c x" "begins (Star c # is, e) t"
    then obtain u post where u: "t = u @ post" "denotes (Star c # is) u" "e \<longrightarrow> post = []" by (auto simp: begins_def)
    from u(2) obtain v w where "u = v @ w" "\<forall>x \<in> set v. fits c x" "denotes is w" by (elim denotes_StarE)
    with u \<open>text = x # t\<close> \<open>fits c x\<close> show ?thesis
      unfolding begins_def using denotes.star [of "x # v" c "is" w]
      by (intro exI [of _ "(x # v) @ w"] exI [of _ post]) simp
  qed
qed


section \<open>The matcher decides the meaning\<close>

lemma matchhere_begins: "matchhere re text \<longleftrightarrow> begins (items re) text"
  and matchstar_begins: "matchstar c re text \<longleftrightarrow> begins (Star c # fst (items re), snd (items re)) text"
proof (induction re "text" and c re "text" rule: matchhere_matchstar.induct)
  case (1 re "text")
  consider "re = []" | c r where "re = c # CHR ''*'' # r" | "re = ''$''" | c r where "re = c # r" "re \<noteq> ''$''" "r = [] \<or> hd r \<noteq> CHR ''*''"
    by (metis list.sel(1) neq_Nil_conv)
  then show ?case
  proof cases
    case 1
    then show ?thesis by (subst matchhere.simps) (simp add: begins_Nil)
  next
    case (2 c r)
    then show ?thesis using "1.IH"(1) by (subst matchhere.simps) (simp add: split_beta)
  next
    case 3
    then show ?thesis by (subst matchhere.simps) (simp add: begins_Nil)
  next
    case (4 c r)
    have it: "items re = (One c # fst (items r), snd (items r))" using 4 by (cases r) (auto simp: split_beta)
    have "matchhere re text \<longleftrightarrow> (case text of [] \<Rightarrow> False | x # t \<Rightarrow> fits c x \<and> matchhere r t)"
      using 4 by (subst matchhere.simps) (auto simp: fits_def split: list.splits)
    moreover have "matchhere r t \<longleftrightarrow> begins (items r) t" if "text = x # t" "fits c x" for x t
      using "1.IH"(2) 4 that by (auto simp: fits_def)
    ultimately show ?thesis by (auto simp: it begins_One split: list.splits)
  qed
next
  case (2 c re "text")
  have "matchstar c re text \<longleftrightarrow> matchhere re text \<or> (case text of [] \<Rightarrow> False | x # t \<Rightarrow> fits c x \<and> matchstar c re t)"
    by (subst matchstar.simps) (auto simp: fits_def split: list.splits)
  then show ?case using 2 by (subst begins_Star) (auto simp: fits_def split: list.splits)
qed

lemma match_from_begins: "match_from re text \<longleftrightarrow> (\<exists>pre t. text = pre @ t \<and> begins (items re) t)"
proof (induction "text")
  case (Cons c "text")
  have "(\<exists>pre t. c # text = pre @ t \<and> begins (items re) t) \<longleftrightarrow>
      begins (items re) (c # text) \<or> (\<exists>pre t. text = pre @ t \<and> begins (items re) t)"
    by (metis append_Cons append_Nil list.inject neq_Nil_conv)
  then show ?case using Cons by (subst match_from.simps) (simp add: matchhere_begins)
qed (subst match_from.simps, simp add: matchhere_begins)

definition anchored :: "string \<Rightarrow> bool" where
  "anchored re \<longleftrightarrow> re \<noteq> [] \<and> hd re = CHR ''^''"

definition pattern_items :: "string \<Rightarrow> item list \<times> bool" where
  "pattern_items re = items (if anchored re then tl re else re)"

text \<open>The part \<open>w\<close> of a text, with what is before and behind it, is an occurrence of the pattern.\<close>

definition occurrence :: "string \<Rightarrow> string \<Rightarrow> string \<Rightarrow> string \<Rightarrow> bool" where
  "occurrence re pre w post \<longleftrightarrow> denotes (fst (pattern_items re)) w \<and> (anchored re \<longrightarrow> pre = []) \<and> (snd (pattern_items re) \<longrightarrow> post = [])"

text \<open>
  C34. The matcher decides the meaning of a pattern: \<^verbatim>\<open>match(re, text)\<close> holds exactly if the
  text has a part that the items of the pattern denote, at the start if the pattern begins
  with a caret and at the end if it ends with a dollar sign. A dot fits every character and a
  star any number of characters that the one before it fits.
\<close>

theorem match_correct:
  "match re text \<longleftrightarrow> (\<exists>pre w post. text = pre @ w @ post \<and> occurrence re pre w post)"
proof (cases "anchored re")
  case True
  then show ?thesis by (auto simp: match_def anchored_def pattern_items_def matchhere_begins begins_def occurrence_def)
next
  case False
  then show ?thesis
    by (simp add: match_def anchored_def pattern_items_def match_from_begins begins_def occurrence_def) blast
qed

section \<open>Lines\<close>

text \<open>The complete lines of an input behind a partial line \<open>cur\<close>, and the partial line at its end.\<close>

fun lines_from :: "string \<Rightarrow> string \<Rightarrow> string list" where
  "lines_from cur [] = []"
| "lines_from cur (c # s) = (if c = CHR 0x0A then cur # lines_from [] s else lines_from (cur @ [c]) s)"

fun rest_from :: "string \<Rightarrow> string \<Rightarrow> string" where
  "rest_from cur [] = cur"
| "rest_from cur (c # s) = (if c = CHR 0x0A then rest_from [] s else rest_from (cur @ [c]) s)"

lemma lines_from_append: "lines_from cur (x @ y) = lines_from cur x @ lines_from (rest_from cur x) y"
  by (induction cur x rule: lines_from.induct) auto

lemma lines_from_plain: "CHR 0x0A \<notin> set x \<Longrightarrow> lines_from cur x = [] \<and> rest_from cur x = cur @ x"
  by (induction cur x rule: lines_from.induct) auto

lemma rest_from_append: "rest_from cur (x @ y) = rest_from (rest_from cur x) y"
  by (induction cur x rule: rest_from.induct) auto

lemma rest_from_plain: "CHR 0x0A \<notin> set cur \<Longrightarrow> CHR 0x0A \<notin> set (rest_from cur x)"
  by (induction cur x rule: rest_from.induct) auto

lemma rest_from_subset: "set (rest_from cur x) \<subseteq> set cur \<union> set x"
  by (induction cur x rule: rest_from.induct) auto

lemma first_line_long: "lines_from cur x = l # ls \<Longrightarrow> length cur \<le> length l"
  by (induction cur x rule: lines_from.induct) (auto split: if_splits)

definition output_of :: "string \<Rightarrow> string list \<Rightarrow> string" where
  "output_of re ls = concat (map (\<lambda>l. l @ [CHR 0x0A]) (filter (match re) ls))"

lemma grep_scan_lines:
  "CHR 0x00 \<notin> set p \<Longrightarrow> grep_scan re p = (output_of re (lines_from [] p), rest_from [] p)"
proof (induction re p rule: grep_scan.induct)
  case (1 re p)
  have t: "takeWhile (\<lambda>c. c \<noteq> CHR 0x00) p = p" using 1(2) by (auto simp: takeWhile_eq_all_conv)
  show ?case
  proof (cases "find_newline p")
    case None
    then have "CHR 0x0A \<notin> set p" by (simp add: find_newline_def strchr_None t)
    then show ?thesis using None by (subst grep_scan.simps) (simp add: lines_from_plain output_of_def)
  next
    case (Some q)
    note q = find_newline_Some [OF Some]
    then have p: "p = take q p @ CHR 0x0A # drop (q + 1) p" by (metis id_take_nth_drop Suc_eq_plus1)
    have t1: "take (q + 1) p = take q p @ [CHR 0x0A]" using q by (simp add: take_Suc_conv_app_nth)
    have d: "CHR 0x00 \<notin> set (drop (q + 1) p)" using 1(2) in_set_dropD by fastforce
    have "lines_from [] p = take q p # lines_from [] (drop (q + 1) p)" "rest_from [] p = rest_from [] (drop (q + 1) p)"
      using q lines_from_plain [of "take q p" "[]"] by (subst p, simp add: lines_from_append rest_from_append)+
    then show ?thesis using 1(1) [OF Some d] Some t1
      by (subst grep_scan.simps) (simp add: output_of_def)
  qed
qed

lemma grep_loop_lines:
  "CHR 0x00 \<notin> set (buf @ input) \<Longrightarrow> CHR 0x0A \<notin> set buf \<Longrightarrow> \<forall>l \<in> set (lines_from buf input). length l \<le> 1022 \<Longrightarrow>
    grep_loop rd i re buf input = output_of re (lines_from buf input)"
proof (induction rd i re buf input rule: grep_loop.induct)
  case (1 rd i re buf input)
  define n where "n = read_count rd i (1024 - length buf - 1) input"
  have g: "grep_loop rd i re buf input = (if n = 0 then []
      else let (out, rest) = grep_scan re (buf @ take n input) in out @ grep_loop rd (i + 1) re rest (drop n input))"
    by (subst grep_loop.simps) (simp only: n_def Let_def)
  show ?case
  proof (cases "n = 0")
    case True
    then have "input = [] \<or> 1022 < length buf" by (auto simp: n_def read_count_def min_def max_def split: if_splits)
    moreover have "lines_from buf input = []" if "1022 < length buf"
      using that first_line_long [of buf input] 1(4) by (cases "lines_from buf input") fastforce+
    ultimately have "lines_from buf input = []" by auto
    then show ?thesis using True by (simp add: g output_of_def)
  next
    case False
    let ?b = "rest_from buf (take n input)"
    have f: "CHR 0x00 \<notin> set (buf @ take n input)" using 1(2) in_set_takeD by fastforce
    have b: "rest_from [] (buf @ take n input) = ?b" "lines_from [] (buf @ take n input) = lines_from buf (take n input)"
      using 1(3) lines_from_plain [of buf "[]"] by (simp_all add: lines_from_append rest_from_append)
    note sc = grep_scan_lines [OF f, of re, unfolded b]
    have l: "lines_from buf input = lines_from buf (take n input) @ lines_from ?b (drop n input)"
      by (metis append_take_drop_id lines_from_append)
    have "grep_loop rd (i + 1) re ?b (drop n input) = output_of re (lines_from ?b (drop n input))"
    proof (rule 1(1) [OF n_def False refl sc [symmetric]])
      show "CHR 0x00 \<notin> set (?b @ drop n input)"
        using 1(2) f rest_from_subset [of buf "take n input"] in_set_dropD [of _ n input] by auto
      show "CHR 0x0A \<notin> set ?b" by (rule rest_from_plain) (rule 1(3))
      show "\<forall>l \<in> set (lines_from ?b (drop n input)). length l \<le> 1022" using 1(4) l by simp
    qed
    then show ?thesis using False sc l by (simp add: g output_of_def)
  qed
qed

text \<open>
  C35. \<^verbatim>\<open>grep\<close> writes exactly the matching lines: however the reads cut the input into
  pieces, the output is the lines of the input that match the pattern, in order, each with its
  newline. The input must not hold a NUL and its lines must fit the buffer, 1022 characters and
  the newline; a last line without a newline is not looked at.
\<close>

theorem grep_filters:
  assumes "CHR 0x00 \<notin> set input" and "\<forall>l \<in> set (lines_from [] input). length l \<le> 1022"
  shows "grep rd re input = concat (map (\<lambda>l. l @ [CHR 0x0A]) (filter (match re) (lines_from [] input)))"
  using grep_loop_lines [of "[]" input rd 0 re] assms by (simp add: grep_def output_of_def)

theorem grep_filters_witness:
  "grep (\<lambda>i. 3) ''a.c'' (''abc'' @ [CHR 0x0A] @ ''ac'' @ [CHR 0x0A] @ ''xaxc'' @ [CHR 0x0A]) =
    concat (map (\<lambda>l. l @ [CHR 0x0A]) (filter (match ''a.c'') [''abc'', ''ac'', ''xaxc'']))"
  using grep_filters [of "''abc'' @ [CHR 0x0A] @ ''ac'' @ [CHR 0x0A] @ ''xaxc'' @ [CHR 0x0A]" "\<lambda>i. 3" "''a.c''"] by simp

end
