(* ===== verification/Spec2Isabelle.thy ===== *)
theory Spec2Isabelle
  imports Sched_O1 Bio Log Pipe Console Fs_Dir Proc_Inv Syscalls Grep
begin

text \<open>
  BirdOS: a verification library for the xv6-style RISC-V teaching kernel under
  \<^verbatim>\<open>src/\<close>.
\<close>

end
